(* ===== verification/Kernel_Prelude.thy ===== *)
theory Kernel_Prelude
  imports Main "HOL-Library.Word" "HOL-Library.Monad_Syntax"
begin

unbundle bit_operations_syntax

text \<open>
  The vocabulary shared by every component: the C integer types of
  \<^verbatim>\<open>kernel/include/common/types.h\<close>, the error codes of
  \<^verbatim>\<open>common/errno.h\<close>, \<open>BUG_ON\<close> and the rounding macros of
  \<^verbatim>\<open>common/macro.h\<close>, and the generic lemmas on options, lists, words and aligned
  blocks that the component proofs use.

  A kernel operation that can stop the machine has a result of type \<open>'a option\<close>:
  \<^const>\<open>None\<close> is the endless loop of \<open>BUG_ON\<close> and \<open>BUG\<close>, and also an access
  the C standard leaves undefined (a NULL dereference, an index past an array, a shift by too
  much). Error codes the C code returns to its caller are ordinary values (\<open>int\<close>), so an
  operation that is proved to return \<open>Some\<close> neither hits a \<open>BUG_ON\<close> nor reads or
  writes out of bounds.
\<close>

section \<open>Machine types, error codes and macros\<close>

type_synonym u64 = "64 word"
type_synonym u32 = "32 word"
type_synonym u16 = "16 word"
type_synonym addr = "64 word"

abbreviation NULL :: addr where "NULL \<equiv> 0"

definition EPERM :: int where "EPERM = 1"
definition EAGAIN :: int where "EAGAIN = 11"
definition ENOMEM :: int where "ENOMEM = 12"
definition EFAULT :: int where "EFAULT = 14"
definition EINVAL :: int where "EINVAL = 22"
definition ENOENT :: int where "ENOENT = 2"
definition ESRCH :: int where "ESRCH = 3"
definition EBUSY :: int where "EBUSY = 16"
definition EEXIST :: int where "EEXIST = 17"
definition ERANGE :: int where "ERANGE = 34"
definition ENOSYS :: int where "ENOSYS = 38"
definition ETIMEDOUT :: int where "ETIMEDOUT = 110"
definition ECANCELED :: int where "ECANCELED = 125"
definition ECAPBILITY :: int where "ECAPBILITY = 200"

text \<open>The kernel maps all physical memory from \<open>KBASE\<close> up.\<close>

definition KBASE :: addr where "KBASE = 0xFFFFFF0000000000"
definition phys_to_virt :: "u64 \<Rightarrow> addr" where "phys_to_virt x = x + KBASE"
definition virt_to_phys :: "addr \<Rightarrow> u64" where "virt_to_phys x = x - KBASE"

text \<open>
  What remains of an integer when it is converted to the 32-bit type \<open>int\<close>, as a
  \<open>return\<close> from a function of that type does: its low 32 bits, read as a signed number.
\<close>

definition c_int :: "int \<Rightarrow> int" where
  "c_int n = signed_take_bit 31 n"

definition BUG_ON :: "bool \<Rightarrow> unit option" where
  "BUG_ON e = (if e then None else Some ())"

definition PAGE_SIZE :: nat where "PAGE_SIZE = 4096"

definition DIV_ROUND_UP :: "nat \<Rightarrow> nat \<Rightarrow> nat" where
  "DIV_ROUND_UP n d = (n + d - 1) div d"

definition ROUND_UP :: "u64 \<Rightarrow> u64 \<Rightarrow> u64" where
  "ROUND_UP x n = (x + n - 1) AND NOT (n - 1)"

definition ROUND_DOWN :: "u64 \<Rightarrow> u64 \<Rightarrow> u64" where
  "ROUND_DOWN x n = x AND NOT (n - 1)"

section \<open>Proof collections and generic lemmas\<close>

named_theorems errno_defs "the numeric error codes"
named_theorems panic_simps "unfolding of the panic monad"

declare EPERM_def [errno_defs] EAGAIN_def [errno_defs] ENOMEM_def [errno_defs]
  EFAULT_def [errno_defs] EINVAL_def [errno_defs] ENOENT_def [errno_defs] ESRCH_def [errno_defs] EBUSY_def [errno_defs]
  EEXIST_def [errno_defs] ERANGE_def [errno_defs] ENOSYS_def [errno_defs] ETIMEDOUT_def [errno_defs]
  ECANCELED_def [errno_defs] ECAPBILITY_def [errno_defs]

lemma BUG_ON_bind [simp, panic_simps]:
  "BUG_ON e \<bind> f = (if e then None else f ())"
  by (simp add: BUG_ON_def)

lemma BUG_ON_Some [simp]: "BUG_ON e = Some u \<longleftrightarrow> \<not> e"
  by (simp add: BUG_ON_def)

lemma bind_SomeE:
  assumes "m \<bind> f = Some y"
  obtains x where "m = Some x" and "f x = Some y"
  using assms by (cases m) auto

lemma option_if_eq_Some [simp]:
  "(if b then None else m) = Some x \<longleftrightarrow> \<not> b \<and> m = Some x"
  "(if b then m else None) = Some x \<longleftrightarrow> b \<and> m = Some x"
  by auto

lemma c_int_id [simp]: "- (2 ^ 31) \<le> n \<Longrightarrow> n < 2 ^ 31 \<Longrightarrow> c_int n = n"
  unfolding c_int_def by (rule signed_take_bit_int_eq_self)

lemma unat_less64: "unat (x :: u64) < 2 ^ 64"
  using unsigned_less [of x] by simp

lemma unat_less32: "unat (x :: u32) < 2 ^ 32"
  using unsigned_less [of x] by simp

lemma unat_add64: "unat x + unat y < 2 ^ 64 \<Longrightarrow> unat (x + y :: u64) = unat x + unat y"
  by (simp add: unat_add_lem [THEN iffD1])

lemma unat_sub64: "unat y \<le> unat x \<Longrightarrow> unat (x - y :: u64) = unat x - unat y"
  by (simp add: unat_sub word_le_nat_alt)

lemma unat_of_nat64: "n < 2 ^ 64 \<Longrightarrow> unat (word_of_nat n :: u64) = n"
  by (simp add: unat_of_nat take_bit_eq_mod)

end
