(* ===== verification/Bitops.thy ===== *)
theory Bitops
  imports Kernel_Prelude
begin

text \<open>
  \<^verbatim>\<open>kernel/include/common/bitops.h\<close>: bit maps stored in an array of
  \<open>unsigned long\<close>, and the searches over them. A bit map is the list of its 64-bit
  elements; touching an element past the end of the array is \<^const>\<open>None\<close>.
\<close>

section \<open>Operations\<close>

definition BITS_PER_LONG :: nat where "BITS_PER_LONG = 64"

definition BITS_TO_LONGS :: "nat \<Rightarrow> nat" where
  "BITS_TO_LONGS nr = DIV_ROUND_UP nr BITS_PER_LONG"

definition get_bit_in_slot :: "u64 \<Rightarrow> nat \<Rightarrow> u64" where
  "get_bit_in_slot u64slot b = u64slot AND push_bit b 1"

definition clear_bit_in_slot :: "u64 \<Rightarrow> nat \<Rightarrow> u64" where
  "clear_bit_in_slot u64slot b = u64slot AND NOT (push_bit b 1)"

definition set_bit_in_slot :: "u64 \<Rightarrow> nat \<Rightarrow> u64" where
  "set_bit_in_slot u64slot b = u64slot OR push_bit b 1"

definition set_bit_bmp :: "nat \<Rightarrow> u64 list \<Rightarrow> u64 list option" where
  "set_bit_bmp nr p =
     (let nlongs = nr div BITS_PER_LONG; ilongs = nr mod BITS_PER_LONG
      in if nlongs < length p then Some (p[nlongs := p ! nlongs OR push_bit ilongs 1])
         else None)"

definition get_bit_bmp :: "nat \<Rightarrow> u64 list \<Rightarrow> bool option" where
  "get_bit_bmp nr p =
     (let nlongs = nr div BITS_PER_LONG; ilongs = nr mod BITS_PER_LONG
      in if nlongs < length p then Some (drop_bit ilongs (p ! nlongs) AND 1 \<noteq> 0)
         else None)"

definition clear_bit_bmp :: "nat \<Rightarrow> u64 list \<Rightarrow> u64 list option" where
  "clear_bit_bmp nr p =
     (let nlongs = nr div BITS_PER_LONG; ilongs = nr mod BITS_PER_LONG
      in if nlongs < length p
         then Some (p[nlongs := p ! nlongs AND NOT (push_bit ilongs 1)])
         else None)"

text \<open>The compiler's count of trailing zeros, searched from bit \<open>i\<close> upwards.\<close>

function builtin_ctzl_from :: "nat \<Rightarrow> u64 \<Rightarrow> nat" where
  "builtin_ctzl_from i x =
     (if i < BITS_PER_LONG \<and> \<not> bit x i then builtin_ctzl_from (Suc i) x else i)"
  by pat_completeness auto
termination
  by (relation "measure (\<lambda>(i, x). BITS_PER_LONG - i)") auto

declare builtin_ctzl_from.simps [simp del]

definition ctzl :: "u64 \<Rightarrow> nat" where
  "ctzl x = (if x = 0 then BITS_PER_LONG else builtin_ctzl_from 0 x)"

text \<open>
  \<open>bsr\<close> is \<open>31 - clz x\<close>; the builtin is undefined on 0. The model counts down from
  bit 31 and gives \<^const>\<open>None\<close> when there is no set bit.
\<close>

fun bsr_from :: "nat \<Rightarrow> u32 \<Rightarrow> nat option" where
  "bsr_from 0 x = None"
| "bsr_from (Suc i) x = (if bit x i then Some i else bsr_from i x)"

definition bsr :: "u32 \<Rightarrow> nat option" where
  "bsr x = bsr_from 32 x"

text \<open>
  The inner loop of \<open>find_next_bit_helper\<close> over one element. \<open>Inl res\<close> is the
  \<open>return res\<close> inside it, \<open>Inr res\<close> the value of \<open>res\<close> when the loop ends.
\<close>

function scan_elem :: "u64 \<Rightarrow> bool \<Rightarrow> nat \<Rightarrow> nat \<Rightarrow> nat \<Rightarrow> nat + nat" where
  "scan_elem w invert cur_bit max_bit res =
     (if cur_bit \<le> max_bit
      then (let cur_bit_value = (get_bit_in_slot w cur_bit \<noteq> 0)
            in if (if invert then \<not> cur_bit_value else cur_bit_value) then Inl res
               else scan_elem w invert (cur_bit + 1) max_bit (res + 1))
      else Inr res)"
  by pat_completeness auto
termination
  by (relation "measure (\<lambda>(w, invert, cur_bit, max_bit, res). max_bit + 1 - cur_bit)") auto

declare scan_elem.simps [simp del]

text \<open>
  The outer loop. Its value is that of the \<open>return\<close> expression, \<open>res\<close> or
  \<open>size\<close>; the function itself has return type \<open>int\<close> and converts it. \<open>size - 1\<close> is taken on an \<open>unsigned long\<close>.
\<close>

definition ulong_dec :: "nat \<Rightarrow> nat" where
  "ulong_dec sz = (sz + (2 ^ 64 - 1)) mod 2 ^ 64"

function find_elem :: "u64 list \<Rightarrow> nat \<Rightarrow> bool \<Rightarrow> nat \<Rightarrow> nat \<Rightarrow> nat \<Rightarrow> nat \<Rightarrow> nat option" where
  "find_elem p sz invert max_elem_index cur_elem_index cur_bit res =
     (if cur_elem_index \<le> max_elem_index
      then (let max_bit = (if cur_elem_index < max_elem_index then BITS_PER_LONG - 1
                           else ulong_dec sz mod BITS_PER_LONG)
            in if cur_bit \<le> max_bit \<and> length p \<le> cur_elem_index then None
               else (case scan_elem (p ! cur_elem_index) invert cur_bit max_bit res of
                       Inl r \<Rightarrow> Some r
                     | Inr r \<Rightarrow> find_elem p sz invert max_elem_index
                                  (cur_elem_index + 1) 0 r))
      else Some sz)"
  by pat_completeness auto
termination
  by (relation "measure (\<lambda>(p, sz, invert, m, c, cur_bit, res). m + 1 - c)") auto

declare find_elem.simps [simp del]

definition find_next_bit_helper :: "u64 list \<Rightarrow> nat \<Rightarrow> nat \<Rightarrow> bool \<Rightarrow> int option" where
  "find_next_bit_helper p sz start invert =
     do { r \<leftarrow> find_elem p sz invert (ulong_dec sz div BITS_PER_LONG)
            (start div BITS_PER_LONG) (start mod BITS_PER_LONG) start;
          Some (c_int (int r)) }"

definition find_next_zero_bit :: "u64 list \<Rightarrow> nat \<Rightarrow> nat \<Rightarrow> int option" where
  "find_next_zero_bit p sz start = find_next_bit_helper p sz start True"

definition find_next_bit :: "u64 list \<Rightarrow> nat \<Rightarrow> nat \<Rightarrow> int option" where
  "find_next_bit p sz start = find_next_bit_helper p sz start False"

section \<open>The bit map as a set of bit numbers\<close>

text \<open>Bit number \<open>i\<close> of the map, the reading every operation is specified against.\<close>

definition bmp_bit :: "u64 list \<Rightarrow> nat \<Rightarrow> bool" where
  "bmp_bit p i = bit (p ! (i div 64)) (i mod 64)"

lemma and_push_bit_one_nonzero [simp]:
  "(w :: u64) AND push_bit b 1 \<noteq> 0 \<longleftrightarrow> bit w b"
  by (simp add: push_bit_eq_mult and_exp_eq_0_iff_not_bit)

lemma drop_bit_and_one_nonzero [simp]:
  "drop_bit b (w :: u64) AND 1 \<noteq> 0 \<longleftrightarrow> bit w b"
  by (simp add: and_one_eq mod2_eq_if bit_iff_odd_drop_bit)

lemma get_bit_in_slot_iff [simp]: "get_bit_in_slot w b \<noteq> 0 \<longleftrightarrow> bit w b"
  unfolding get_bit_in_slot_def by (rule and_push_bit_one_nonzero)

lemma bit_number_eqI: "i div 64 = j div 64 \<Longrightarrow> i mod 64 = j mod 64 \<Longrightarrow> i = (j :: nat)"
  by (metis div_mult_mod_eq)

lemma get_bit_bmp_eq [simp]:
  "nr < 64 * length p \<Longrightarrow> get_bit_bmp nr p = Some (bmp_bit p nr)"
  unfolding get_bit_bmp_def bmp_bit_def Let_def BITS_PER_LONG_def
  by (subst drop_bit_and_one_nonzero) (simp add: less_mult_imp_div_less mult.commute)

lemma set_bit_bmp_Some:
  assumes "nr < 64 * length p"
  obtains p' where "set_bit_bmp nr p = Some p'" "length p' = length p"
    "\<And>i. i < 64 * length p \<Longrightarrow> bmp_bit p' i = (i = nr \<or> bmp_bit p i)"
proof
  let ?q = "p[nr div 64 := p ! (nr div 64) OR push_bit (nr mod 64) 1]"
  show "set_bit_bmp nr p = Some ?q"
    using assms by (auto simp: set_bit_bmp_def BITS_PER_LONG_def Let_def)
  show "bmp_bit ?q i = (i = nr \<or> bmp_bit p i)" if "i < 64 * length p" for i
    using that assms by (cases "i div 64 = nr div 64")
      (auto simp: bmp_bit_def bit_simps less_mult_imp_div_less mult.commute intro: bit_number_eqI)
qed simp

lemma clear_bit_bmp_Some:
  assumes "nr < 64 * length p"
  obtains p' where "clear_bit_bmp nr p = Some p'" "length p' = length p"
    "\<And>i. i < 64 * length p \<Longrightarrow> bmp_bit p' i = (i \<noteq> nr \<and> bmp_bit p i)"
proof
  let ?q = "p[nr div 64 := p ! (nr div 64) AND NOT (push_bit (nr mod 64) 1)]"
  show "clear_bit_bmp nr p = Some ?q"
    using assms by (auto simp: clear_bit_bmp_def BITS_PER_LONG_def Let_def)
  show "bmp_bit ?q i = (i \<noteq> nr \<and> bmp_bit p i)" if "i < 64 * length p" for i
    using that assms by (cases "i div 64 = nr div 64")
      (auto simp: bmp_bit_def bit_simps less_mult_imp_div_less mult.commute intro: bit_number_eqI)
qed simp

section \<open>The searches\<close>

lemma scan_elem_step:
  "c \<le> m \<Longrightarrow> bit w c = z \<Longrightarrow> scan_elem w z c m r = scan_elem w z (Suc c) m (Suc r)"
  "c \<le> m \<Longrightarrow> bit w c \<noteq> z \<Longrightarrow> scan_elem w z c m r = Inl r"
  "m < c \<Longrightarrow> scan_elem w z c m r = Inr r"
  by (simp_all add: scan_elem.simps [of w z c m r] get_bit_in_slot_def push_bit_eq_mult
      and_exp_eq_0_iff_not_bit Let_def)

lemma ulong_dec_pos [simp]: "0 < n \<Longrightarrow> n < 2 ^ 64 \<Longrightarrow> ulong_dec n = n - 1"
proof -
  assume n: "0 < n" "n < 2 ^ 64"
  then have "n + (2 ^ 64 - 1) = n - 1 + 2 ^ 64" by simp
  then have "ulong_dec n = (n - 1) mod 2 ^ 64"
    unfolding ulong_dec_def by (simp only: mod_add_self2)
  also have "\<dots> = n - 1" using n by (intro mod_less) simp
  finally show ?thesis .
qed

text \<open>
  What a search has found so far: every bit from \<open>start\<close> up to \<open>r\<close> has the value that
  is skipped, and \<open>r\<close> is the end of the map or the first bit of the other value.
\<close>

definition found_first :: "u64 list \<Rightarrow> nat \<Rightarrow> nat \<Rightarrow> bool \<Rightarrow> nat \<Rightarrow> bool" where
  "found_first p sz start skip r \<longleftrightarrow>
     (\<forall>i. start \<le> i \<and> i < r \<longrightarrow> bmp_bit p i = skip) \<and>
     (r = sz \<or> start \<le> r \<and> r < sz \<and> bmp_bit p r \<noteq> skip)"

text \<open>One bit of the search: the position \<open>n\<close> stands for the pair of loop indices.\<close>

abbreviation find_at :: "u64 list \<Rightarrow> nat \<Rightarrow> bool \<Rightarrow> nat \<Rightarrow> nat option" where
  "find_at p sz z n \<equiv> find_elem p sz z ((sz - 1) div 64) (n div 64) (n mod 64) n"

lemma find_at_step:
  assumes "n < sz" "sz < 2 ^ 64" "sz \<le> 64 * length p"
  shows "find_at p sz z n = (if bmp_bit p n \<noteq> z then Some n else find_at p sz z (Suc n))"
proof -
  define M where "M = (sz - 1) div 64"
  define mb where "mb = (if n div 64 < M then 63 else (sz - 1) mod 64)"
  have e: "n div 64 \<le> M" "n div 64 < length p"
    using assms by (auto intro: div_le_mono simp: M_def less_mult_imp_div_less mult.commute)
  have c: "n mod 64 \<le> mb" "mb \<le> 63"
  proof -
    show "n mod 64 \<le> mb"
    proof (cases "n div 64 < M")
      case False
      with e have "n div 64 = M" by simp
      with assms(1) show ?thesis using False
        by (simp add: mb_def M_def) (metis Suc_pred add_le_cancel_left div_mult_mod_eq less_Suc_eq_le
          less_nat_zero_code neq0_conv)
    qed (simp add: mb_def)
    have "(sz - 1) mod 64 \<le> 63" by (rule less_Suc_eq_le [THEN iffD1]) simp
    then show "mb \<le> 63" by (simp add: mb_def)
  qed
  have unfold: "find_elem p sz z M (n div 64) k r =
     (case scan_elem (p ! (n div 64)) z k mb r of Inl r \<Rightarrow> Some r
      | Inr r \<Rightarrow> find_elem p sz z M (n div 64 + 1) 0 r)" for k r
    using e assms by (subst find_elem.simps) (simp add: mb_def M_def BITS_PER_LONG_def)
  have bit: "bmp_bit p n = bit (p ! (n div 64)) (n mod 64)"
    by (simp add: bmp_bit_def)
  have "find_elem p sz z M (n div 64) (n mod 64) n =
    (if bmp_bit p n \<noteq> z then Some n
     else find_elem p sz z M (Suc n div 64) (Suc n mod 64) (Suc n))"
  proof (cases "n mod 64 = 63")
    case True
    with c have "mb = 63" by simp
    moreover from True have "Suc n div 64 = n div 64 + 1" "Suc n mod 64 = 0"
      by (simp_all add: div_Suc mod_Suc)
    ultimately show ?thesis
      using True by (simp add: unfold bit scan_elem_step del: add_Suc_right)
  next
    case False
    then have "Suc n div 64 = n div 64" "Suc n mod 64 = Suc (n mod 64)"
      by (auto simp: div_Suc mod_Suc)
    then show ?thesis using c by (simp add: unfold bit scan_elem_step)
  qed
  then show ?thesis unfolding M_def .
qed

lemma find_at_end:
  assumes "0 < sz" "sz < 2 ^ 64" "sz \<le> n"
  shows "find_at p sz z n = Some sz"
proof (cases "n div 64 \<le> (sz - 1) div 64")
  case True
  moreover have "(sz - 1) div 64 \<le> n div 64"
    using assms by (intro div_le_mono) simp
  ultimately have eq: "n div 64 = (sz - 1) div 64" by simp
  then have "(sz - 1) mod 64 < n mod 64"
    using assms by (metis One_nat_def Suc_pred add_less_cancel_left div_mult_mod_eq less_eq_Suc_le)
  then have "find_at p sz z n = find_elem p sz z ((sz - 1) div 64) (n div 64 + 1) 0 n"
    using assms eq by (subst find_elem.simps) (simp add: BITS_PER_LONG_def scan_elem_step)
  also have "\<dots> = Some sz"
    using eq by (subst find_elem.simps) simp
  finally show ?thesis .
next
  case False
  then show ?thesis by (subst find_elem.simps) (simp only: if_False)
qed

lemma found_first_skip:
  "found_first p sz (Suc n) skip r \<Longrightarrow> bmp_bit p n = skip \<Longrightarrow> found_first p sz n skip r"
  unfolding found_first_def by (metis Suc_leD Suc_leI le_neq_implies_less)

lemma found_first_here:
  "n < sz \<Longrightarrow> bmp_bit p n \<noteq> skip \<Longrightarrow> found_first p sz n skip n"
  by (auto simp: found_first_def)

lemma found_first_end: "sz \<le> n \<Longrightarrow> found_first p sz n skip sz"
  by (auto simp: found_first_def)

lemma find_at_spec:
  assumes "0 < sz" "sz < 2 ^ 64" "sz \<le> 64 * length p"
  shows "\<exists>r. find_at p sz skip start = Some r \<and> found_first p sz start skip r"
proof -
  have "\<exists>r. find_at p sz skip start = Some r \<and> found_first p sz start skip r"
  proof (induction "sz - start" arbitrary: start)
    case 0
    then have "sz \<le> start" by simp
    then show ?case using find_at_end [OF assms(1,2)] found_first_end by blast
  next
    case (Suc n)
    then have "start < sz" and "n = sz - Suc start" by auto
    note step = find_at_step [OF \<open>start < sz\<close> assms(2,3), of skip]
    show ?case
    proof (cases "bmp_bit p start = skip")
      case True
      from Suc.hyps(1) [OF \<open>n = _\<close>] obtain r where
        "find_at p sz skip (Suc start) = Some r" "found_first p sz (Suc start) skip r"
        by blast
      with True show ?thesis unfolding step by (auto intro: found_first_skip)
    next
      case False
      then show ?thesis unfolding step by (auto intro: found_first_here [OF \<open>start < sz\<close>])
    qed
  qed
  then show ?thesis .
qed

lemma found_first_le: "found_first p sz start skip r \<Longrightarrow> r \<le> sz"
  by (auto simp: found_first_def)

text \<open>Below \<open>2 ^ 31\<close> bits the conversion of the result to \<open>int\<close> loses nothing.\<close>

lemma find_next_bit_helper_spec:
  assumes "0 < sz" "sz < 2 ^ 31" "sz \<le> 64 * length p"
  shows "\<exists>r. find_next_bit_helper p sz start skip = Some (int r) \<and> found_first p sz start skip r"
proof -
  from assms(2) have "sz < 2 ^ 64" by simp
  from find_at_spec [OF assms(1) this assms(3)] obtain r
    where r: "find_at p sz skip start = Some r" "found_first p sz start skip r" by blast
  have "r < 2 ^ 31" using found_first_le [OF r(2)] assms(2) by linarith
  then have "c_int (int r) = int r" by simp
  with r assms \<open>sz < 2 ^ 64\<close> show ?thesis
    by (simp add: find_next_bit_helper_def BITS_PER_LONG_def)
qed

lemma bsr_from_Some:
  "bsr_from n x = Some i \<longleftrightarrow> i < n \<and> bit x i \<and> (\<forall>j < n. bit x j \<longrightarrow> j \<le> i)"
proof (induction n)
  case (Suc n)
  show ?case
  proof (cases "bit x n")
    case True
    then show ?thesis by (auto simp: less_Suc_eq_le intro: antisym)
  next
    case False
    with Suc show ?thesis by (auto simp: less_Suc_eq)
  qed
qed simp

lemma bsr_Some: "bsr x = Some i \<longleftrightarrow> i < 32 \<and> bit x i \<and> (\<forall>j < 32. bit x j \<longrightarrow> j \<le> i)"
  unfolding bsr_def by (rule bsr_from_Some)

lemma bsr_from_None: "bsr_from n x = None \<longleftrightarrow> (\<forall>j < n. \<not> bit x j)"
  by (induction n) (auto simp: less_Suc_eq)

lemma bsr_None: "bsr x = None \<longleftrightarrow> x = 0"
  unfolding bsr_def bsr_from_None by (auto simp: bit_eq_iff [of x 0] dest: bit_imp_le_length)

lemma builtin_ctzl_from_spec:
  assumes "i \<le> 64"
  shows "i \<le> builtin_ctzl_from i x \<and> builtin_ctzl_from i x \<le> 64 \<and>
     (\<forall>j. i \<le> j \<and> j < builtin_ctzl_from i x \<longrightarrow> \<not> bit x j) \<and>
     (builtin_ctzl_from i x < 64 \<longrightarrow> bit x (builtin_ctzl_from i x))"
  using assms
proof (induction "64 - i" arbitrary: i)
  case 0
  then have "builtin_ctzl_from i x = 64" by (subst builtin_ctzl_from.simps) (simp add: BITS_PER_LONG_def)
  with 0 show ?case by auto
next
  case (Suc n)
  show ?case
  proof (cases "bit x i")
    case True
    then show ?thesis using Suc.prems Suc.hyps(2)
      by (auto simp: builtin_ctzl_from.simps [of i x])
  next
    case False
    with Suc.hyps(2) have "builtin_ctzl_from i x = builtin_ctzl_from (Suc i) x"
      by (subst builtin_ctzl_from.simps) (auto simp: BITS_PER_LONG_def)
    moreover have "n = 64 - Suc i" "Suc i \<le> 64" using Suc.hyps(2) by auto
    ultimately show ?thesis using Suc.hyps(1) [of "Suc i"] False
      by (metis Suc_leD Suc_leI le_neq_implies_less)
  qed
qed

section \<open>Properties\<close>

text \<open>
  C7. The bit searches are exact: on a map of fewer than \<open>2 ^ 31\<close> bits that lies inside its
  array, the search from any start position returns (it neither loops nor reads past the array),
  every bit it skipped has the skipped value, and the result is the first bit of the other value
  or \<open>sz\<close>, a number that the \<open>int\<close> it is returned as holds unchanged.
\<close>

theorem find_next_bit_correct:
  assumes "0 < sz" "sz < 2 ^ 31" "sz \<le> 64 * length p"
  shows "(\<exists>r. find_next_zero_bit p sz start = Some (int r) \<and> found_first p sz start True r) \<and>
    (\<exists>r. find_next_bit p sz start = Some (int r) \<and> found_first p sz start False r)"
  unfolding find_next_zero_bit_def find_next_bit_def
  using find_next_bit_helper_spec [OF assms] by blast

lemma found_first_eq:
  assumes "found_first p sz start skip r" "found_first p sz start skip r'"
  shows "r = r'"
  using assms unfolding found_first_def by (metis linorder_neqE_nat)

lemma demo_bits: "i < 128 \<Longrightarrow> bmp_bit [7, 0] i \<longleftrightarrow> i < 3"
proof (cases "i < 64")
  case True
  have "(7 :: u64) = mask 3" by (simp add: mask_eq_exp_minus_1)
  then have "bit (7 :: u64) i \<longleftrightarrow> i < 3" using True by (simp only: bit_mask_iff) auto
  with True show ?thesis by (simp add: bmp_bit_def)
next
  case False
  assume "i < 128"
  with False have "i div 64 = Suc 0" by (simp add: div_nat_eqI)
  with False show ?thesis by (simp add: bmp_bit_def)
qed

lemma demo_first: "found_first [7, 0] 70 0 True 3" "found_first [7, 0] 70 3 False 70"
  by (auto simp: found_first_def demo_bits)

theorem find_next_bit_correct_witness:
  "find_next_zero_bit [7, 0] 70 0 = Some 3 \<and> find_next_bit [7, 0] 70 3 = Some 70"
  using find_next_bit_correct [of 70 "[7, 0]" 0] find_next_bit_correct [of 70 "[7, 0]" 3]
    found_first_eq [OF _ demo_first(1)] found_first_eq [OF _ demo_first(2)] by fastforce

text \<open>
  C8. Setting and clearing a bit inside the map changes that bit only, and reading it back gives
  the value written.
\<close>

theorem bitmap_update_correct:
  assumes "nr < 64 * length p"
  shows "\<exists>q r. set_bit_bmp nr p = Some q \<and> clear_bit_bmp nr p = Some r \<and>
    get_bit_bmp nr q = Some True \<and> get_bit_bmp nr r = Some False \<and>
    (\<forall>i. i < 64 * length p \<longrightarrow> i \<noteq> nr \<longrightarrow>
       get_bit_bmp i q = get_bit_bmp i p \<and> get_bit_bmp i r = get_bit_bmp i p)"
proof -
  obtain q where q: "set_bit_bmp nr p = Some q" "length q = length p"
    "\<And>i. i < 64 * length p \<Longrightarrow> bmp_bit q i = (i = nr \<or> bmp_bit p i)"
    using set_bit_bmp_Some [OF assms] by blast
  obtain r where r: "clear_bit_bmp nr p = Some r" "length r = length p"
    "\<And>i. i < 64 * length p \<Longrightarrow> bmp_bit r i = (i \<noteq> nr \<and> bmp_bit p i)"
    using clear_bit_bmp_Some [OF assms] by blast
  show ?thesis using q r assms by auto
qed

theorem bitmap_update_correct_witness:
  "\<exists>q r. set_bit_bmp 65 [7, 0] = Some q \<and> clear_bit_bmp 65 [7, 0] = Some r \<and>
    get_bit_bmp 65 q = Some True \<and> get_bit_bmp 65 r = Some False"
  using bitmap_update_correct [of 65 "[7, 0]"] by auto

end
