(* ===== verification/Chunk_Tiling.thy ===== *)
theory Chunk_Tiling
  imports Kernel_Prelude
begin

text \<open>
  The arithmetic of power-of-two blocks of page frames behind the buddy allocator of
  \<^verbatim>\<open>kernel/mm/buddy.c\<close>: alignment, buddies (one address bit flipped), and tilings
  of a pool by chunks with their merge and split.
\<close>

text \<open>Supported orders are \<open>[0, BUDDY_MAX_ORDER)\<close>.\<close>

definition BUDDY_MAX_ORDER :: nat where "BUDDY_MAX_ORDER = 15"

section \<open>Aligned blocks of pages\<close>

text \<open>
  A chunk of order \<open>k\<close> starts at a page frame divisible by \<open>2 ^ k\<close>. Its buddy starts at
  the frame with bit \<open>k\<close> flipped.
\<close>

definition blk :: "nat \<times> nat \<Rightarrow> nat set" where
  "blk c = {fst c ..< fst c + 2 ^ snd c}"

lemma in_blk [simp]: "x \<in> blk (i, k) \<longleftrightarrow> i \<le> x \<and> x < i + 2 ^ k"
  by (auto simp: blk_def)

lemma frame_div_eq:
  assumes "2 ^ k dvd F"
  shows "F \<le> x \<and> x < F + 2 ^ k \<longleftrightarrow> x div 2 ^ k = F div (2 ^ k :: nat)"
proof -
  from assms obtain q where F: "F = 2 ^ k * q" ..
  have "x div 2 ^ k = q" if "F \<le> x" "x < F + 2 ^ k"
    using that F by (intro div_nat_eqI) (auto simp: algebra_simps)
  moreover have "F \<le> x \<and> x < F + 2 ^ k" if "x div 2 ^ k = q"
  proof -
    have "x = 2 ^ k * q + x mod 2 ^ k" using that by (metis mult_div_mod_eq)
    moreover have "x mod 2 ^ k < 2 ^ k" by simp
    ultimately show ?thesis using F by linarith
  qed
  ultimately show ?thesis using F by auto
qed

lemma flip_frame_div: "k < d \<Longrightarrow> flip_bit k F div 2 ^ d = F div (2 ^ d :: nat)"
  unfolding drop_bit_eq_div [symmetric] by (rule bit_eqI) (simp add: bit_simps)

lemma flip_bit_mult: "flip_bit k (2 ^ k * q) = 2 ^ k * (if even q then q + 1 else q - 1 :: nat)"
proof -
  have "flip_bit k (push_bit k q) = push_bit k (flip_bit 0 q)"
    by (rule bit_eqI) (auto simp: bit_simps)
  then show ?thesis by (auto simp: push_bit_eq_mult flip_bit_0 mult.commute elim!: oddE)
qed

lemma flip_frame_eq:
  assumes "2 ^ k dvd F"
  shows "flip_bit k F = (if bit F k then F - 2 ^ k else F + 2 ^ k :: nat)"
proof -
  from assms obtain q where F: "F = 2 ^ k * q" ..
  have "bit F k \<longleftrightarrow> odd q" by (simp add: F bit_iff_odd)
  then show ?thesis unfolding F flip_bit_mult by (simp add: algebra_simps)
qed

lemma flip_distance:
  assumes "2 ^ k dvd (F :: nat)"
  shows "flip_bit k F = F + 2 ^ k \<or> F = flip_bit k F + 2 ^ k"
proof -
  from assms obtain q where F: "F = 2 ^ k * q" ..
  show ?thesis unfolding F flip_bit_mult by (auto elim!: oddE simp: algebra_simps)
qed

lemma flip_frame_dvd: "2 ^ k dvd F \<Longrightarrow> 2 ^ k dvd flip_bit k (F :: nat)"
  by (elim dvdE) (simp only: flip_bit_mult dvd_triv_left)

lemma flip_flip [simp]: "flip_bit k (flip_bit k F) = (F :: nat)"
  by (rule bit_eqI) (auto simp: bit_simps)

lemma flip_neq [simp]: "flip_bit k F \<noteq> (F :: nat)" "F \<noteq> flip_bit k (F :: nat)"
proof -
  have "bit (flip_bit k F) k \<noteq> bit F k" by (simp add: bit_simps)
  then show "flip_bit k F \<noteq> F" "F \<noteq> flip_bit k F" by auto
qed

text \<open>The block of twice the size that holds a chunk and its buddy starts at the lower of the two.\<close>

lemma flip_parent:
  assumes "2 ^ k dvd (F :: nat)"
  shows "2 ^ Suc k dvd min F (flip_bit k F)"
    and "{min F (flip_bit k F) ..< min F (flip_bit k F) + 2 ^ Suc k} =
         {F ..< F + 2 ^ k} \<union> {flip_bit k F ..< flip_bit k F + 2 ^ k}"
    and "{F ..< F + 2 ^ k} \<inter> {flip_bit k F ..< flip_bit k F + 2 ^ k} = {}"
proof -
  from assms obtain q where F: "F = 2 ^ k * q" ..
  show "2 ^ Suc k dvd min F (flip_bit k F)"
    unfolding F flip_bit_mult by (cases "even q") (auto elim!: evenE oddE simp: min_def)
  show "{min F (flip_bit k F) ..< min F (flip_bit k F) + 2 ^ Suc k} =
         {F ..< F + 2 ^ k} \<union> {flip_bit k F ..< flip_bit k F + 2 ^ k}"
    unfolding F flip_bit_mult by (cases "even q") (auto elim!: oddE simp: min_def algebra_simps)
  show "{F ..< F + 2 ^ k} \<inter> {flip_bit k F ..< flip_bit k F + 2 ^ k} = {}"
    unfolding F flip_bit_mult by (cases "even q") (auto elim!: oddE simp: algebra_simps)
qed

lemma aligned_head:
  assumes "2 ^ d dvd (H :: nat)" "2 ^ k dvd J" "d \<le> k" "H \<le> J" "J < H + 2 ^ d"
  shows "J = H"
proof -
  have "2 ^ d dvd J" using assms(2,3) by (meson dvd_trans le_imp_power_dvd)
  with assms(1,4) have "2 ^ d dvd J - H" by (metis dvd_diff_nat)
  then have "J - H = 0 \<or> 2 ^ d \<le> J - H" by (auto dest: dvd_imp_le)
  then show ?thesis using assms(4,5) by auto
qed

section \<open>Tilings of a pool by chunks\<close>

text \<open>
  A set \<open>C\<close> of chunks (index and order) tiles the \<open>N\<close> pages of a pool whose first page
  frame is \<open>b\<close>: every chunk is aligned and inside the pool, chunks do not overlap, and every
  page belongs to one.
\<close>

definition tiling :: "nat \<Rightarrow> nat \<Rightarrow> (nat \<times> nat) set \<Rightarrow> bool" where
  "tiling b N C \<longleftrightarrow>
     (\<forall>(i, k) \<in> C. k < BUDDY_MAX_ORDER \<and> i + 2 ^ k \<le> N \<and> 2 ^ k dvd b + i) \<and>
     (\<forall>c \<in> C. \<forall>d \<in> C. c \<noteq> d \<longrightarrow> blk c \<inter> blk d = {}) \<and>
     \<Union> (blk ` C) = {..<N}"

lemma tilingI:
  assumes "\<And>i k. (i, k) \<in> C \<Longrightarrow> k < BUDDY_MAX_ORDER \<and> i + 2 ^ k \<le> N \<and> 2 ^ k dvd b + i"
    and "\<And>c d. c \<in> C \<Longrightarrow> d \<in> C \<Longrightarrow> c \<noteq> d \<Longrightarrow> blk c \<inter> blk d = {}"
    and "\<Union> (blk ` C) = {..<N}"
  shows "tiling b N C"
  unfolding tiling_def using assms(2,3) by (auto dest: assms(1))

lemma tilingD:
  assumes "tiling b N C" "(i, k) \<in> C"
  shows "k < BUDDY_MAX_ORDER" "i + 2 ^ k \<le> N" "2 ^ k dvd b + i" "i < N"
proof -
  show *: "k < BUDDY_MAX_ORDER" "i + 2 ^ k \<le> N" "2 ^ k dvd b + i"
    using assms unfolding tiling_def by auto
  have "i < i + 2 ^ k" by simp
  with * show "i < N" by linarith
qed

lemma tiling_disjoint:
  assumes "tiling b N C" "c \<in> C" "d \<in> C" "x \<in> blk c" "x \<in> blk d"
  shows "c = d"
  using assms unfolding tiling_def by blast

lemma tiling_head:
  assumes "tiling b N C" "(i, k) \<in> C" "(i, l) \<in> C"
  shows "k = l"
  using tiling_disjoint [OF assms, of i] by simp

lemma tiling_cover:
  assumes "tiling b N C" "x < N"
  obtains i k where "(i, k) \<in> C" "x \<in> blk (i, k)"
  using assms unfolding tiling_def by (metis UN_E lessThan_iff surj_pair)

text \<open>The buddy of a chunk of a tiling, where it lies in the pool, is the head of a chunk that is no larger.\<close>

lemma tiling_buddy_head:
  assumes t: "tiling b N C" and c: "(i, k) \<in> C" and j: "b + j = flip_bit k (b + i)" "j + 2 ^ k \<le> N"
  obtains d where "(j, d) \<in> C" "d \<le> k"
proof -
  have "j < j + 2 ^ k" by simp
  with j(2) have "j < N" by linarith
  then obtain h d where hd: "(h, d) \<in> C" and jin: "j \<in> blk (h, d)"
    using tiling_cover [OF t] by blast
  note al = tilingD(3) [OF t c]
  note hal = tilingD(3) [OF t hd]
  have jr: "b + h \<le> b + j" "b + j < b + h + 2 ^ d" using jin by auto
  have "d \<le> k"
  proof (rule ccontr)
    assume "\<not> d \<le> k"
    then have "k < d" by simp
    then have "(b + i) div 2 ^ d = (b + j) div 2 ^ d"
      unfolding j(1) by (rule flip_frame_div [symmetric])
    also have "\<dots> = (b + h) div 2 ^ d" using frame_div_eq [OF hal, of "b + j"] jr by simp
    finally have "i \<in> blk (h, d)" using frame_div_eq [OF hal, of "b + i"] by auto
    then have "(i, k) = (h, d)" by (intro tiling_disjoint [OF t c hd, of i]) auto
    with \<open>k < d\<close> show False by simp
  qed
  moreover have "2 ^ k dvd b + j" unfolding j(1) using al by (rule flip_frame_dvd)
  then have "b + j = b + h" using aligned_head [OF hal _ \<open>d \<le> k\<close> jr] by blast
  ultimately show ?thesis using that hd by simp
qed

lemma blk_buddies:
  assumes "2 ^ k dvd b + i" "b + j = flip_bit k (b + i)"
  shows "2 ^ Suc k dvd b + min i j" "blk (min i j, Suc k) = blk (i, k) \<union> blk (j, k)"
    "blk (i, k) \<inter> blk (j, k) = {}"
proof -
  note P = flip_parent [OF assms(1), folded assms(2)]
  have m: "min (b + i) (b + j) = b + min i j" by simp
  show "2 ^ Suc k dvd b + min i j" using P(1) unfolding m .
  have shift: "x \<in> blk (l, n) \<longleftrightarrow> b + x \<in> {b + l ..< b + l + 2 ^ n}" for x l n by auto
  show "blk (min i j, Suc k) = blk (i, k) \<union> blk (j, k)"
    using P(2) unfolding m set_eq_iff Un_iff shift by blast
  show "blk (i, k) \<inter> blk (j, k) = {}"
    using P(3) unfolding set_eq_iff Int_iff shift empty_iff by blast
qed

lemma blk_nonempty [simp]: "blk c \<noteq> {}"
  by (cases c) (simp add: blk_def)

lemma tiling_blk_disjoint:
  assumes "tiling b N C" "c \<in> C" "d \<in> C" "c \<noteq> d"
  shows "blk c \<inter> blk d = {}"
  using tiling_disjoint [OF assms(1-3)] assms(4) by blast

lemma tiling_replace:
  assumes t: "tiling b N (S \<union> C)" and "S \<inter> C = {}"
    and valid: "\<And>i k. (i, k) \<in> S' \<Longrightarrow> k < BUDDY_MAX_ORDER \<and> i + 2 ^ k \<le> N \<and> 2 ^ k dvd b + i"
    and dis: "\<And>c d. c \<in> S' \<Longrightarrow> d \<in> S' \<Longrightarrow> c \<noteq> d \<Longrightarrow> blk c \<inter> blk d = {}"
    and un: "\<Union> (blk ` S') = \<Union> (blk ` S)"
  shows "tiling b N (S' \<union> C)" "S' \<inter> C = {}"
proof -
  have cross: "blk c \<inter> blk d = {}" if "c \<in> S'" "d \<in> C" for c d
  proof -
    have "blk e \<inter> blk d = {}" if "e \<in> S" for e
      by (rule tiling_blk_disjoint [OF t]) (use that \<open>d \<in> C\<close> assms(2) in auto)
    then have "\<Union> (blk ` S) \<inter> blk d = {}" by blast
    then show ?thesis using that(1) un by blast
  qed
  show "S' \<inter> C = {}"
  proof (rule ccontr)
    assume "S' \<inter> C \<noteq> {}"
    then obtain c where "c \<in> S'" "c \<in> C" by blast
    then show False using cross [of c c] by simp
  qed
  show "tiling b N (S' \<union> C)"
  proof (rule tilingI)
    fix i k assume "(i, k) \<in> S' \<union> C"
    then show "k < BUDDY_MAX_ORDER \<and> i + 2 ^ k \<le> N \<and> 2 ^ k dvd b + i"
      using valid tilingD [OF t UnI2] by blast
  next
    fix c d assume "c \<in> S' \<union> C" "d \<in> S' \<union> C" "c \<noteq> d"
    then consider "c \<in> S'" "d \<in> S'" | "c \<in> S'" "d \<in> C" | "c \<in> C" "d \<in> S'" | "c \<in> C" "d \<in> C"
      by blast
    then show "blk c \<inter> blk d = {}"
    proof cases
      case 1 then show ?thesis using dis \<open>c \<noteq> d\<close> by blast
    next
      case 2 then show ?thesis by (rule cross)
    next
      case 3 then show ?thesis using cross [of d c] by blast
    next
      case 4 then show ?thesis using tiling_blk_disjoint [OF t, of c d] \<open>c \<noteq> d\<close> by simp
    qed
  next
    show "\<Union> (blk ` (S' \<union> C)) = {..<N}"
      using t un unfolding tiling_def by (simp add: image_Un)
  qed
qed

lemma tiling_merge:
  assumes t: "tiling b N (insert (i, k) (insert (j, k) C))" and "(i, k) \<notin> C" "(j, k) \<notin> C"
    and j: "b + j = flip_bit k (b + i)" and k: "Suc k < BUDDY_MAX_ORDER"
  shows "tiling b N (insert (min i j, Suc k) C)" "(min i j, Suc k) \<notin> C"
proof -
  have al: "2 ^ k dvd b + i" and bnd: "i + 2 ^ k \<le> N" "j + 2 ^ k \<le> N"
    using tilingD [OF t insertI1] tilingD [OF t insertI2 [OF insertI1]] by blast+
  note B = blk_buddies [OF al j]
  have "min i j + 2 ^ Suc k \<le> N"
    using flip_distance [OF al, folded j] bnd by auto
  with B k have "k' < BUDDY_MAX_ORDER \<and> i' + 2 ^ k' \<le> N \<and> 2 ^ k' dvd b + i'"
    if "(i', k') \<in> {(min i j, Suc k)}" for i' k'
    using that by simp
  moreover have "tiling b N ({(i, k), (j, k)} \<union> C)" using t by simp
  ultimately show "tiling b N (insert (min i j, Suc k) C)" "(min i j, Suc k) \<notin> C"
    using tiling_replace [of b N "{(i, k), (j, k)}" C "{(min i j, Suc k)}"] assms(2,3) B(2)
    by auto
qed

lemma tiling_split:
  assumes t: "tiling b N (insert (i, Suc k) C)" and n: "(i, Suc k) \<notin> C"
  shows "b + (i + 2 ^ k) = flip_bit k (b + i)"
    "tiling b N (insert (i, k) (insert (i + 2 ^ k, k) C))"
    "(i, k) \<notin> C" "(i + 2 ^ k, k) \<notin> C"
proof -
  have al: "2 ^ Suc k dvd b + i" and bnd: "i + 2 ^ Suc k \<le> N" and k: "Suc k < BUDDY_MAX_ORDER"
    using tilingD [OF t insertI1] by blast+
  from al obtain r where "b + i = 2 ^ Suc k * r" ..
  then have q: "b + i = 2 ^ k * (2 * r)" by simp
  then have al': "2 ^ k dvd b + i" by simp
  show j: "b + (i + 2 ^ k) = flip_bit k (b + i)"
    using q flip_bit_mult [of k "2 * r"] by simp
  note B = blk_buddies [OF al' j]
  have m: "min i (i + 2 ^ k) = i" by simp
  have "2 ^ k dvd b + (i + 2 ^ k)" using al' by (simp add: add.assoc [symmetric])
  with al' bnd k have valid: "k' < BUDDY_MAX_ORDER \<and> i' + 2 ^ k' \<le> N \<and> 2 ^ k' dvd b + i'"
    if "(i', k') \<in> {(i, k), (i + 2 ^ k, k)}" for i' k'
    using that by auto
  have "tiling b N ({(i, Suc k)} \<union> C)" using t by simp
  moreover have "{(i, Suc k)} \<inter> C = {}" using n by simp
  moreover have "blk c \<inter> blk d = {}"
    if "c \<in> {(i, k), (i + 2 ^ k, k)}" "d \<in> {(i, k), (i + 2 ^ k, k)}" "c \<noteq> d" for c d
    using that B(3) by (auto simp del: in_blk)
  moreover have "\<Union> (blk ` {(i, k), (i + 2 ^ k, k)}) = \<Union> (blk ` {(i, Suc k)})"
    using B(2) unfolding m by simp
  ultimately have "tiling b N ({(i, k), (i + 2 ^ k, k)} \<union> C)" "{(i, k), (i + 2 ^ k, k)} \<inter> C = {}"
    using tiling_replace [of b N "{(i, Suc k)}" C "{(i, k), (i + 2 ^ k, k)}"] valid by blast+
  then show "tiling b N (insert (i, k) (insert (i + 2 ^ k, k) C))"
    "(i, k) \<notin> C" "(i + 2 ^ k, k) \<notin> C"
    by simp_all
qed

end
