(* ===== verification/Buddy.thy ===== *)
theory Buddy
  imports Chunk_Tiling
begin

text \<open>
  \<^verbatim>\<open>kernel/mm/buddy.c\<close>: the buddy allocator of physical pages.

  A \<open>struct page *\<close> is the pair of a pool number (the index in \<open>global_mem\<close>) and an
  index in that pool's \<open>page_metadata\<close> array. A \<open>struct list_head\<close> is the list of the
  nodes linked on it, first node first; \<open>list_del\<close> of a node that is on no list is a wild
  write, \<^const>\<open>None\<close>. The pool lock serialises the operations on one pool, so each is one
  step of the model. The recursion of \<open>split_chunk\<close> and \<open>merge_chunk\<close> is bounded by a
  counter that starts at \<open>BUDDY_MAX_ORDER\<close>, the bound their comments give; that it never
  runs out is part of the theorems.
\<close>

section \<open>State\<close>

type_synonym page_ptr = "nat \<times> nat"

record page =
  allocated :: nat
  order :: nat
  slab :: addr
  page_pool :: "nat option"

record free_list_t =
  free_list :: "page_ptr list"
  nr_free :: u64

record phys_mem_pool =
  pool_start_addr :: addr
  pool_mem_size :: u64
  page_metadata :: "page list"
  free_lists :: "free_list_t list"
  pool_phys_page_num :: nat

record phys_mem =
  global_mem :: "phys_mem_pool list"
  physmem_map_num :: nat

definition BUDDY_PAGE_SIZE :: nat where "BUDDY_PAGE_SIZE = 4096"
definition BUDDY_PAGE_SIZE_ORDER :: nat where "BUDDY_PAGE_SIZE_ORDER = 12"

section \<open>Accessors\<close>

definition get_pool :: "phys_mem \<Rightarrow> nat \<Rightarrow> phys_mem_pool option" where
  "get_pool m pl = (if pl < length (global_mem m) then Some (global_mem m ! pl) else None)"

definition get_page :: "phys_mem \<Rightarrow> page_ptr \<Rightarrow> page option" where
  "get_page m p =
     do { pool \<leftarrow> get_pool m (fst p);
          if snd p < length (page_metadata pool) then Some (page_metadata pool ! snd p) else None }"

definition upd_pool :: "nat \<Rightarrow> (phys_mem_pool \<Rightarrow> phys_mem_pool) \<Rightarrow> phys_mem \<Rightarrow> phys_mem" where
  "upd_pool pl f m = m\<lparr>global_mem := (global_mem m)[pl := f (global_mem m ! pl)]\<rparr>"

definition upd_page :: "page_ptr \<Rightarrow> (page \<Rightarrow> page) \<Rightarrow> phys_mem \<Rightarrow> phys_mem" where
  "upd_page p f =
     upd_pool (fst p) (\<lambda>pool. pool\<lparr>page_metadata :=
       (page_metadata pool)[snd p := f (page_metadata pool ! snd p)]\<rparr>)"

definition upd_free_list :: "nat \<Rightarrow> nat \<Rightarrow> (free_list_t \<Rightarrow> free_list_t) \<Rightarrow> phys_mem \<Rightarrow> phys_mem" where
  "upd_free_list pl ord f =
     upd_pool pl (\<lambda>pool. pool\<lparr>free_lists := (free_lists pool)[ord := f (free_lists pool ! ord)]\<rparr>)"

text \<open>\<open>list_del (&page->node)\<close>: the node leaves whichever free list it is on.\<close>

definition page_list_del :: "nat \<Rightarrow> page_ptr \<Rightarrow> phys_mem \<Rightarrow> phys_mem option" where
  "page_list_del pl p m =
     do { pool \<leftarrow> get_pool m pl;
          if (\<exists>fl \<in> set (free_lists pool). p \<in> set (free_list fl))
          then Some (upd_pool pl (\<lambda>pool. pool\<lparr>free_lists :=
                 map (\<lambda>fl. fl\<lparr>free_list := remove1 p (free_list fl)\<rparr>) (free_lists pool)\<rparr>) m)
          else None }"

definition page_list_add :: "nat \<Rightarrow> nat \<Rightarrow> page_ptr \<Rightarrow> phys_mem \<Rightarrow> phys_mem option" where
  "page_list_add pl ord p m =
     do { pool \<leftarrow> get_pool m pl;
          if ord < length (free_lists pool)
          then Some (upd_free_list pl ord
                 (\<lambda>fl. fl\<lparr>free_list := p # free_list fl, nr_free := nr_free fl + 1\<rparr>) m)
          else None }"

section \<open>Operations\<close>

definition page_to_virt :: "phys_mem \<Rightarrow> page_ptr \<Rightarrow> addr option" where
  "page_to_virt m p =
     do { pg \<leftarrow> get_page m p;
          pl \<leftarrow> page_pool pg;
          pool \<leftarrow> get_pool m pl;
          Some (word_of_nat (snd p) * word_of_nat BUDDY_PAGE_SIZE + pool_start_addr pool) }"

definition in_pool :: "phys_mem_pool \<Rightarrow> addr \<Rightarrow> bool" where
  "in_pool pool a \<longleftrightarrow> pool_start_addr pool \<le> a \<and> a < pool_start_addr pool + pool_mem_size pool"

definition virt_to_page :: "phys_mem \<Rightarrow> addr \<Rightarrow> page_ptr option" where
  "virt_to_page m a =
     do { i \<leftarrow> find (\<lambda>i. in_pool (global_mem m ! i) a) [0..<physmem_map_num m];
          Some (i, unat ((a - pool_start_addr (global_mem m ! i)) div word_of_nat BUDDY_PAGE_SIZE)) }"

definition get_buddy_chunk :: "phys_mem \<Rightarrow> nat \<Rightarrow> page_ptr \<Rightarrow> page_ptr option option" where
  "get_buddy_chunk m pl chunk =
     do { chunk_addr \<leftarrow> page_to_virt m chunk;
          pg \<leftarrow> get_page m chunk;
          pool \<leftarrow> get_pool m pl;
          let ord = order pg;
              buddy_chunk_addr = chunk_addr XOR push_bit (ord + BUDDY_PAGE_SIZE_ORDER) 1
          in if buddy_chunk_addr < pool_start_addr pool \<or>
                pool_start_addr pool + pool_mem_size pool
                  < buddy_chunk_addr + word_of_nat (2 ^ ord * BUDDY_PAGE_SIZE)
             then Some None
             else map_option Some (virt_to_page m buddy_chunk_addr) }"

fun split_chunk :: "nat \<Rightarrow> phys_mem \<Rightarrow> nat \<Rightarrow> nat \<Rightarrow> page_ptr \<Rightarrow> (page_ptr \<times> phys_mem) option" where
  "split_chunk 0 m pl ord chunk = None"
| "split_chunk (Suc n) m pl ord chunk =
     do { pg \<leftarrow> get_page m chunk;
          if order pg = ord then Some (chunk, m)
          else do {
            _ \<leftarrow> (if order pg = 0 then None else Some ()); \<comment> \<open>order -1: the shift is undefined\<close>
            let m1 = upd_page chunk (\<lambda>g. g\<lparr>order := order pg - 1\<rparr>) m;
            buddy \<leftarrow> get_buddy_chunk m1 pl chunk;
            buddy_chunk \<leftarrow> buddy;
            _ \<leftarrow> get_page m1 buddy_chunk;
            let m2 = upd_page buddy_chunk (\<lambda>g. g\<lparr>order := order pg - 1, allocated := 0\<rparr>) m1;
            m3 \<leftarrow> page_list_add pl (order pg - 1) buddy_chunk m2;
            split_chunk n m3 pl ord chunk } }"

fun merge_chunk :: "nat \<Rightarrow> phys_mem \<Rightarrow> nat \<Rightarrow> page_ptr \<Rightarrow> (page_ptr \<times> phys_mem) option" where
  "merge_chunk 0 m pl chunk = None"
| "merge_chunk (Suc n) m pl chunk =
     do { pg \<leftarrow> get_page m chunk;
          if order pg = BUDDY_MAX_ORDER - 1 then Some (chunk, m)
          else do {
            buddy \<leftarrow> get_buddy_chunk m pl chunk;
            case buddy of
              None \<Rightarrow> Some (chunk, m)
            | Some buddy_chunk \<Rightarrow>
                do { bg \<leftarrow> get_page m buddy_chunk;
                     if allocated bg = 1 then Some (chunk, m)
                     else if order bg \<noteq> order pg then Some (chunk, m)
                     else do {
                       m1 \<leftarrow> page_list_del pl buddy_chunk m;
                       let m2 = upd_free_list pl (order bg) (\<lambda>fl. fl\<lparr>nr_free := nr_free fl - 1\<rparr>) m1;
                       let m3 = upd_page buddy_chunk (\<lambda>g. g\<lparr>order := order bg + 1\<rparr>) m2;
                       let m4 = upd_page chunk (\<lambda>g. g\<lparr>order := order pg + 1\<rparr>) m3;
                       merge_chunk n m4 pl (if snd buddy_chunk < snd chunk then buddy_chunk else chunk)
                     } } } }"

definition init_page :: "nat \<Rightarrow> page" where
  "init_page pl = \<lparr>allocated = 1, order = 0, slab = NULL, page_pool = Some pl\<rparr>"

definition buddy_free_pages :: "phys_mem \<Rightarrow> nat \<Rightarrow> page_ptr \<Rightarrow> phys_mem option" where
  "buddy_free_pages m pl p =
     do { pg \<leftarrow> get_page m p;
          BUG_ON (allocated pg = 0);
          let m1 = upd_page p (\<lambda>g. g\<lparr>allocated := 0\<rparr>) m;
          (q, m2) \<leftarrow> merge_chunk BUDDY_MAX_ORDER m1 pl p;
          qg \<leftarrow> get_page m2 q;
          page_list_add pl (order qg) q m2 }"

text \<open>The search loop of \<open>buddy_get_pages\<close> over the orders that are large enough.\<close>

fun find_free_order :: "phys_mem_pool \<Rightarrow> nat list \<Rightarrow> (nat \<times> page_ptr) option" where
  "find_free_order pool [] = None"
| "find_free_order pool (cur_order # os) =
     (case free_list (free_lists pool ! cur_order) of
        [] \<Rightarrow> find_free_order pool os
      | p # _ \<Rightarrow> Some (cur_order, p))"

definition buddy_get_pages :: "phys_mem \<Rightarrow> nat \<Rightarrow> nat \<Rightarrow> (page_ptr option \<times> phys_mem) option" where
  "buddy_get_pages m pl ord =
     (if BUDDY_MAX_ORDER \<le> ord then Some (None, m)
      else do {
        pool \<leftarrow> get_pool m pl;
        _ \<leftarrow> (if length (free_lists pool) < BUDDY_MAX_ORDER then None else Some ());
        case find_free_order pool [ord..<BUDDY_MAX_ORDER] of
          None \<Rightarrow> Some (None, m)
        | Some (cur_order, p) \<Rightarrow>
            do { m1 \<leftarrow> page_list_del pl p m;
                 let m2 = upd_free_list pl cur_order (\<lambda>fl. fl\<lparr>nr_free := nr_free fl - 1\<rparr>) m1;
                 _ \<leftarrow> get_page m2 p;
                 let m3 = upd_page p (\<lambda>g. g\<lparr>allocated := 1\<rparr>) m2;
                 (q, m4) \<leftarrow> split_chunk BUDDY_MAX_ORDER m3 pl ord p;
                 Some (Some q, m4) } })"

fun free_each_page :: "phys_mem \<Rightarrow> nat \<Rightarrow> nat list \<Rightarrow> phys_mem option" where
  "free_each_page m pl [] = Some m"
| "free_each_page m pl (page_idx # is) =
     do { m1 \<leftarrow> buddy_free_pages m pl (pl, page_idx); free_each_page m1 pl is }"

text \<open>
  Both loops of \<open>init_buddy\<close> over the pages count with an \<open>int\<close>. From
  \<open>2 ^ 31\<close> pages on its increment overflows, which the C standard leaves undefined.
\<close>

definition init_buddy :: "phys_mem \<Rightarrow> nat \<Rightarrow> addr \<Rightarrow> nat \<Rightarrow> phys_mem option" where
  "init_buddy m pl start_addr page_num =
     do { _ \<leftarrow> get_pool m pl;
          _ \<leftarrow> (if page_num < 2 ^ 31 then Some () else None);
          let m1 = upd_pool pl (\<lambda>_. \<lparr>
            pool_start_addr = start_addr,
            pool_mem_size = word_of_nat (page_num * BUDDY_PAGE_SIZE),
            page_metadata = replicate page_num (init_page pl),
            free_lists = replicate BUDDY_MAX_ORDER \<lparr>free_list = [], nr_free = 0\<rparr>,
            pool_phys_page_num = page_num\<rparr>) m;
          free_each_page m1 pl [0..<page_num] }"

definition get_free_mem_size_from_buddy :: "phys_mem_pool \<Rightarrow> u64" where
  "get_free_mem_size_from_buddy pool =
     fold (\<lambda>ord total_size. total_size +
             nr_free (free_lists pool ! ord) * word_of_nat (BUDDY_PAGE_SIZE * 2 ^ ord))
          [0..<BUDDY_MAX_ORDER] 0"

definition get_total_mem_size_from_buddy :: "phys_mem_pool \<Rightarrow> u64" where
  "get_total_mem_size_from_buddy pool = pool_mem_size pool"

section \<open>Well-formed pools and the address maps\<close>

definition pool_base :: "phys_mem_pool \<Rightarrow> nat" where
  "pool_base pool = unat (pool_start_addr pool) div 4096"

abbreviation npages :: "phys_mem_pool \<Rightarrow> nat" where
  "npages pool \<equiv> length (page_metadata pool)"

text \<open>
  A pool ends at least one largest block below the top of the address space, so that the
  address of a buddy never wraps.
\<close>

definition pool_wf :: "nat \<Rightarrow> phys_mem_pool \<Rightarrow> bool" where
  "pool_wf pl pool \<longleftrightarrow>
     unat (pool_start_addr pool) = 4096 * pool_base pool \<and>
     unat (pool_mem_size pool) = 4096 * npages pool \<and>
     4096 * (pool_base pool + npages pool + 2 ^ BUDDY_MAX_ORDER) \<le> 2 ^ 64 \<and>
     length (free_lists pool) = BUDDY_MAX_ORDER \<and>
     (\<forall>g \<in> set (page_metadata pool). page_pool g = Some pl)"

definition pool_frames :: "phys_mem_pool \<Rightarrow> nat set" where
  "pool_frames pool = {pool_base pool ..< pool_base pool + npages pool}"

definition mem_wf :: "phys_mem \<Rightarrow> bool" where
  "mem_wf m \<longleftrightarrow> physmem_map_num m \<le> length (global_mem m) \<and>
     (\<forall>pl < physmem_map_num m. pool_wf pl (global_mem m ! pl)) \<and>
     (\<forall>i < physmem_map_num m. \<forall>j < physmem_map_num m. i \<noteq> j \<longrightarrow>
        pool_frames (global_mem m ! i) \<inter> pool_frames (global_mem m ! j) = {})"

lemma unat_word_of_nat64 [simp]: "n < 2 ^ 64 \<Longrightarrow> unat (word_of_nat n :: u64) = n"
  by (simp add: unat_of_nat take_bit_eq_mod)

text \<open>The address of the page frame with number \<open>F\<close>.\<close>

definition frame_addr :: "nat \<Rightarrow> addr" where
  "frame_addr F = word_of_nat (4096 * F)"

lemma unat_frame_addr [simp]: "4096 * F < 2 ^ 64 \<Longrightarrow> unat (frame_addr F) = 4096 * F"
  unfolding frame_addr_def by (rule unat_word_of_nat64)

lemma mem_wf_pool: "mem_wf m \<Longrightarrow> pl < physmem_map_num m \<Longrightarrow> pool_wf pl (global_mem m ! pl)"
  by (simp add: mem_wf_def)

lemma mem_wf_get_pool: "mem_wf m \<Longrightarrow> pl < physmem_map_num m \<Longrightarrow> get_pool m pl = Some (global_mem m ! pl)"
  by (simp add: mem_wf_def get_pool_def)

lemma pool_wf_end:
  assumes "pool_wf pl pool"
  shows "unat (pool_start_addr pool + pool_mem_size pool) = 4096 * (pool_base pool + npages pool)"
  using assms unfolding pool_wf_def
  by (subst unat_plus_simple [THEN iffD1]) (auto simp: no_olen_add_nat BUDDY_MAX_ORDER_def)

lemma in_pool_frame:
  assumes "pool_wf pl pool" "4096 * F < 2 ^ 64"
  shows "in_pool pool (frame_addr F) \<longleftrightarrow> F \<in> pool_frames pool"
proof -
  have "unat (frame_addr F) = 4096 * F" using assms(2) by simp
  then show ?thesis
    using assms(1) pool_wf_end [OF assms(1)]
    by (auto simp: in_pool_def pool_frames_def word_le_nat_alt word_less_nat_alt pool_wf_def)
qed

lemma page_to_virt_eq:
  assumes "mem_wf m" "pl < physmem_map_num m" "i < npages (global_mem m ! pl)"
  shows "page_to_virt m (pl, i) = Some (frame_addr (pool_base (global_mem m ! pl) + i))"
proof -
  let ?pool = "global_mem m ! pl"
  have wf: "pool_wf pl ?pool" using assms mem_wf_pool by blast
  then have "page_pool (page_metadata ?pool ! i) = Some pl"
    using assms(3) by (auto simp: pool_wf_def)
  moreover have "pool_start_addr ?pool = frame_addr (pool_base ?pool)"
    using wf by (simp add: pool_wf_def word_unat_eq_iff BUDDY_MAX_ORDER_def)
  ultimately show ?thesis
    using assms by (simp add: page_to_virt_def get_page_def mem_wf_get_pool BUDDY_PAGE_SIZE_def frame_addr_def algebra_simps)
qed

lemma frame_pool_unique:
  assumes "mem_wf m" "i < physmem_map_num m" "j < physmem_map_num m"
    and "F \<in> pool_frames (global_mem m ! i)" "F \<in> pool_frames (global_mem m ! j)"
  shows "i = j"
  using assms unfolding mem_wf_def by blast

lemma virt_to_page_eq:
  assumes wf: "mem_wf m" and pl: "pl < physmem_map_num m" and F: "F \<in> pool_frames (global_mem m ! pl)"
  shows "virt_to_page m (frame_addr F) = Some (pl, F - pool_base (global_mem m ! pl))"
proof -
  let ?pool = "global_mem m ! pl"
  have pwf: "pool_wf pl ?pool" using wf pl by (rule mem_wf_pool)
  have lt: "4096 * F < 2 ^ 64" using F pwf by (auto simp: pool_frames_def pool_wf_def BUDDY_MAX_ORDER_def)
  have find: "find (\<lambda>i. in_pool (global_mem m ! i) (frame_addr F)) [0..<physmem_map_num m] = Some pl"
    unfolding find_Some_iff
  proof (intro exI [of _ pl] conjI allI impI)
    fix j assume "j < pl"
    then show "\<not> in_pool (global_mem m ! ([0..<physmem_map_num m] ! j)) (frame_addr F)"
      using in_pool_frame [OF mem_wf_pool [OF wf, of j] lt] frame_pool_unique [OF wf _ pl _ F, of j] pl
      by auto
  qed (use pl F in_pool_frame [OF pwf lt] in auto)
  have "unat (frame_addr F - pool_start_addr ?pool) = 4096 * (F - pool_base ?pool)"
    using pwf F lt by (subst unat_sub) (auto simp: word_le_nat_alt pool_wf_def pool_frames_def diff_mult_distrib2)
  then have "unat ((frame_addr F - pool_start_addr ?pool) div word_of_nat BUDDY_PAGE_SIZE)
      = F - pool_base ?pool"
    by (simp add: unat_div BUDDY_PAGE_SIZE_def)
  then show ?thesis by (simp add: virt_to_page_def find)
qed

lemma xor_frame:
  "frame_addr F XOR 2 ^ (k + 12) = (frame_addr (flip_bit k F) :: u64)"
proof -
  have "flip_bit (k + 12) (4096 * F) = 4096 * flip_bit k F"
  proof -
    have "flip_bit (k + 12) (push_bit 12 F) = push_bit 12 (flip_bit k F)"
      by (rule bit_eqI) (auto simp: bit_simps)
    then show ?thesis by (simp add: push_bit_eq_mult mult.commute)
  qed
  then have "(frame_addr (flip_bit k F) :: u64) = flip_bit (k + 12) (frame_addr F)"
    unfolding frame_addr_def by (metis of_nat_flip_bit_eq)
  then show ?thesis by (simp add: flip_bit_def push_bit_of_1)
qed

lemma get_buddy_chunk_eq:
  assumes wf: "mem_wf m" and pl: "pl < physmem_map_num m" and i: "i < npages (global_mem m ! pl)"
    and k: "order (page_metadata (global_mem m ! pl) ! i) = k" "k < BUDDY_MAX_ORDER"
    and al: "2 ^ k dvd pool_base (global_mem m ! pl) + i"
  shows "get_buddy_chunk m pl (pl, i) =
    (let b = pool_base (global_mem m ! pl); B = flip_bit k (b + i)
     in Some (if b \<le> B \<and> B + 2 ^ k \<le> b + npages (global_mem m ! pl)
              then Some (pl, B - b) else None))"
proof -
  define pool where "pool = global_mem m ! pl"
  define b where "b = pool_base pool"
  define B where "B = flip_bit k (b + i)"
  have pwf: "pool_wf pl pool" unfolding pool_def using wf pl by (rule mem_wf_pool)
  have pow: "2 ^ k \<le> (2 ^ 14 :: nat)" using k(2) by (intro power_increasing) (auto simp: BUDDY_MAX_ORDER_def)
  have "B \<le> b + i + 2 ^ k"
    unfolding B_def using flip_frame_eq [of k "b + i"] al by (simp add: b_def pool_def trans_le_add1)
  with i pow pwf have Bk: "4096 * (B + 2 ^ k) < 2 ^ 64"
    by (simp add: pool_wf_def b_def pool_def BUDDY_MAX_ORDER_def)
  then have uB: "unat (frame_addr B) = 4096 * B" by simp
  have "frame_addr B + word_of_nat (2 ^ k * BUDDY_PAGE_SIZE) = frame_addr (B + 2 ^ k)"
    by (simp add: frame_addr_def BUDDY_PAGE_SIZE_def algebra_simps)
  moreover have "unat (frame_addr (B + 2 ^ k)) = 4096 * (B + 2 ^ k)" using Bk by (rule unat_frame_addr)
  ultimately have out: "frame_addr B < pool_start_addr pool \<or>
      pool_start_addr pool + pool_mem_size pool
        < frame_addr B + word_of_nat (2 ^ k * BUDDY_PAGE_SIZE) \<longleftrightarrow>
      \<not> (b \<le> B \<and> B + 2 ^ k \<le> b + npages pool)"
    using pwf uB pool_wf_end [OF pwf] by (auto simp: word_less_nat_alt pool_wf_def b_def)
  have virt: "virt_to_page m (frame_addr B) = Some (pl, B - b)" if "b \<le> B" "B + 2 ^ k \<le> b + npages pool"
  proof -
    have "B < B + 2 ^ k" by simp
    also note that(2)
    finally have "B \<in> pool_frames (global_mem m ! pl)"
      using that(1) unfolding pool_frames_def b_def pool_def by simp
    then show ?thesis unfolding b_def pool_def by (rule virt_to_page_eq [OF wf pl])
  qed
  have "get_buddy_chunk m pl (pl, i) =
    (if frame_addr B < pool_start_addr pool \<or>
       pool_start_addr pool + pool_mem_size pool < frame_addr B + word_of_nat (2 ^ k * BUDDY_PAGE_SIZE)
     then Some None else map_option Some (virt_to_page m (frame_addr B)))"
    using wf pl i k by (simp add: get_buddy_chunk_def page_to_virt_eq get_page_def mem_wf_get_pool
        xor_frame BUDDY_PAGE_SIZE_ORDER_def B_def b_def pool_def Let_def)
  also have "\<dots> = Some (if b \<le> B \<and> B + 2 ^ k \<le> b + npages pool then Some (pl, B - b) else None)"
    unfolding out using virt by auto
  finally show ?thesis by (simp add: Let_def B_def b_def pool_def)
qed

section \<open>Frames of the operations\<close>

text \<open>What no operation on the free lists of pool \<open>pl\<close> changes.\<close>

definition pool_shape :: "phys_mem_pool \<Rightarrow> addr \<times> u64 \<times> (addr \<times> nat option) list \<times> nat \<times> nat" where
  "pool_shape pool = (pool_start_addr pool, pool_mem_size pool,
     map (\<lambda>g. (slab g, page_pool g)) (page_metadata pool), length (free_lists pool),
     pool_phys_page_num pool)"

definition same_frame :: "nat \<Rightarrow> phys_mem \<Rightarrow> phys_mem \<Rightarrow> bool" where
  "same_frame pl m m' \<longleftrightarrow> physmem_map_num m' = physmem_map_num m \<and>
     length (global_mem m') = length (global_mem m) \<and>
     (\<forall>j. j \<noteq> pl \<longrightarrow> global_mem m' ! j = global_mem m ! j) \<and>
     pool_shape (global_mem m' ! pl) = pool_shape (global_mem m ! pl)"

lemma same_frame_refl [simp]: "same_frame pl m m"
  by (simp add: same_frame_def)

lemma same_frame_trans: "same_frame pl m m' \<Longrightarrow> same_frame pl m' m'' \<Longrightarrow> same_frame pl m m''"
  by (simp add: same_frame_def)

lemma same_shape_npages: "pool_shape p = pool_shape q \<Longrightarrow> npages p = npages q"
  unfolding pool_shape_def by (auto dest: map_eq_imp_length_eq)

lemma same_shape_wf:
  assumes "pool_shape p = pool_shape q"
  shows "pool_wf pl p = pool_wf pl q" "pool_base p = pool_base q" "pool_frames p = pool_frames q"
proof -
  have "map snd (map (\<lambda>g. (slab g, page_pool g)) (page_metadata p)) =
        map snd (map (\<lambda>g. (slab g, page_pool g)) (page_metadata q))"
    using assms unfolding pool_shape_def by simp
  then have eq: "map page_pool (page_metadata p) = map page_pool (page_metadata q)"
    by (simp add: comp_def)
  have "(\<forall>g \<in> set (page_metadata p). page_pool g = Some pl) =
        (\<forall>g \<in> set (page_metadata q). page_pool g = Some pl)"
    using arg_cong [OF eq, of "list_all (\<lambda>x. x = Some pl)"] by (simp add: list_all_iff)
  with assms same_shape_npages [OF assms]
  show "pool_wf pl p = pool_wf pl q" "pool_base p = pool_base q" "pool_frames p = pool_frames q"
    by (auto simp: pool_wf_def pool_base_def pool_shape_def pool_frames_def)
qed

lemma same_frame_wf: "same_frame pl m m' \<Longrightarrow> mem_wf m \<Longrightarrow> mem_wf m'"
proof -
  assume *: "same_frame pl m m'" "mem_wf m"
  then have sh: "pool_shape (global_mem m' ! pl) = pool_shape (global_mem m ! pl)"
    and other: "j \<noteq> pl \<Longrightarrow> global_mem m' ! j = global_mem m ! j" for j
    by (simp_all add: same_frame_def)
  have "pool_wf j (global_mem m' ! j) = pool_wf j (global_mem m ! j)" for j
    by (cases "j = pl") (simp_all add: other same_shape_wf(1) [OF sh])
  moreover have "pool_frames (global_mem m' ! j) = pool_frames (global_mem m ! j)" for j
    by (cases "j = pl") (simp_all add: other same_shape_wf(3) [OF sh])
  ultimately show ?thesis using * by (simp add: mem_wf_def same_frame_def)
qed

lemma upd_pool_frame:
  assumes "pool_shape (f (global_mem m ! pl)) = pool_shape (global_mem m ! pl)"
  shows "same_frame pl m (upd_pool pl f m)"
  using assms by (cases "pl < length (global_mem m)") (auto simp: same_frame_def upd_pool_def list_update_beyond)

section \<open>The allocator's invariant\<close>

abbreviation pg_alc :: "phys_mem_pool \<Rightarrow> nat \<Rightarrow> nat" where
  "pg_alc pool i \<equiv> allocated (page_metadata pool ! i)"

abbreviation pg_ord :: "phys_mem_pool \<Rightarrow> nat \<Rightarrow> nat" where
  "pg_ord pool i \<equiv> order (page_metadata pool ! i)"

abbreviation flist :: "phys_mem_pool \<Rightarrow> nat \<Rightarrow> page_ptr list" where
  "flist pool k \<equiv> free_list (free_lists pool ! k)"

text \<open>The chunks on the free lists.\<close>

definition fchunks :: "nat \<Rightarrow> phys_mem_pool \<Rightarrow> (nat \<times> nat) set" where
  "fchunks pl pool = {(i, k). k < BUDDY_MAX_ORDER \<and> (pl, i) \<in> set (flist pool k)}"

definition lists_ok :: "nat \<Rightarrow> phys_mem_pool \<Rightarrow> bool" where
  "lists_ok pl pool \<longleftrightarrow> length (free_lists pool) = BUDDY_MAX_ORDER \<and>
     (\<forall>k < BUDDY_MAX_ORDER. distinct (flist pool k) \<and>
        nr_free (free_lists pool ! k) = word_of_nat (length (flist pool k)) \<and>
        fst ` set (flist pool k) \<subseteq> {pl})"

text \<open>No two buddies are both free: they would have been merged.\<close>

definition coalesced :: "nat \<Rightarrow> phys_mem_pool \<Rightarrow> bool" where
  "coalesced pl pool \<longleftrightarrow> (\<forall>i j k. (i, k) \<in> fchunks pl pool \<longrightarrow> Suc k < BUDDY_MAX_ORDER \<longrightarrow>
     pool_base pool + j = flip_bit k (pool_base pool + i) \<longrightarrow> (j, k) \<notin> fchunks pl pool)"

text \<open>
  \<open>A\<close> is the set of chunks handed out to callers and \<open>H\<close> the chunk an operation holds
  between taking it off a list and putting it back (empty between operations).
\<close>

definition buddy_inv :: "nat \<Rightarrow> phys_mem_pool \<Rightarrow> (nat \<times> nat) set \<Rightarrow> (nat \<times> nat) set \<Rightarrow> bool" where
  "buddy_inv pl pool A H \<longleftrightarrow> lists_ok pl pool \<and>
     A \<inter> H = {} \<and> A \<inter> fchunks pl pool = {} \<and> H \<inter> fchunks pl pool = {} \<and>
     tiling (pool_base pool) (npages pool) (A \<union> H \<union> fchunks pl pool) \<and>
     (\<forall>i k. (i, k) \<in> A \<longrightarrow> pg_alc pool i = 1 \<and> pg_ord pool i = k) \<and>
     (\<forall>i k. (i, k) \<in> H \<longrightarrow> pg_ord pool i = k) \<and>
     (\<forall>i k. (i, k) \<in> fchunks pl pool \<longrightarrow> pg_alc pool i = 0 \<and> pg_ord pool i = k) \<and>
     coalesced pl pool"

subsection \<open>Linking and unlinking a chunk\<close>

definition pool_unlink :: "nat \<Rightarrow> nat \<Rightarrow> nat \<Rightarrow> phys_mem_pool \<Rightarrow> phys_mem_pool" where
  "pool_unlink pl j k pool = pool\<lparr>free_lists :=
     (let fls = map (\<lambda>fl. fl\<lparr>free_list := remove1 (pl, j) (free_list fl)\<rparr>) (free_lists pool)
      in fls[k := (fls ! k)\<lparr>nr_free := nr_free (fls ! k) - 1\<rparr>])\<rparr>"

definition pool_link :: "nat \<Rightarrow> nat \<Rightarrow> nat \<Rightarrow> phys_mem_pool \<Rightarrow> phys_mem_pool" where
  "pool_link pl j k pool = pool\<lparr>free_lists := (free_lists pool)
     [k := (free_lists pool ! k)\<lparr>free_list := (pl, j) # flist pool k,
           nr_free := nr_free (free_lists pool ! k) + 1\<rparr>]\<rparr>"

lemma pool_unlink_simps [simp]:
  "page_metadata (pool_unlink pl j k pool) = page_metadata pool"
  "pool_base (pool_unlink pl j k pool) = pool_base pool"
  "pool_shape (pool_unlink pl j k pool) = pool_shape pool"
  by (simp_all add: pool_unlink_def pool_base_def pool_shape_def Let_def)

lemma pool_link_simps [simp]:
  "page_metadata (pool_link pl j k pool) = page_metadata pool"
  "pool_base (pool_link pl j k pool) = pool_base pool"
  "pool_shape (pool_link pl j k pool) = pool_shape pool"
  by (simp_all add: pool_link_def pool_base_def pool_shape_def)

lemma flist_unlink:
  assumes "lists_ok pl pool" "l < BUDDY_MAX_ORDER"
  shows "flist (pool_unlink pl j k pool) l = remove1 (pl, j) (flist pool l)"
    "nr_free (free_lists (pool_unlink pl j k pool) ! l) =
      (if l = k then nr_free (free_lists pool ! k) - 1 else nr_free (free_lists pool ! l))"
proof -
  have "l < length (free_lists pool)" using assms by (simp add: lists_ok_def)
  then show "flist (pool_unlink pl j k pool) l = remove1 (pl, j) (flist pool l)"
    "nr_free (free_lists (pool_unlink pl j k pool) ! l) =
      (if l = k then nr_free (free_lists pool ! k) - 1 else nr_free (free_lists pool ! l))"
    by (cases "l = k"; simp add: pool_unlink_def Let_def)+
qed

lemma flist_link:
  assumes "lists_ok pl pool" "l < BUDDY_MAX_ORDER"
  shows "flist (pool_link pl j k pool) l = (if l = k then (pl, j) # flist pool l else flist pool l)"
    "nr_free (free_lists (pool_link pl j k pool) ! l) =
      (if l = k then nr_free (free_lists pool ! k) + 1 else nr_free (free_lists pool ! l))"
proof -
  have "l < length (free_lists pool)" using assms by (simp add: lists_ok_def)
  then show "flist (pool_link pl j k pool) l = (if l = k then (pl, j) # flist pool l else flist pool l)"
    "nr_free (free_lists (pool_link pl j k pool) ! l) =
      (if l = k then nr_free (free_lists pool ! k) + 1 else nr_free (free_lists pool ! l))"
    by (cases "l = k"; simp add: pool_link_def)+
qed

lemma unlink_ok:
  assumes ok: "lists_ok pl pool" and jk: "(j, k) \<in> fchunks pl pool"
    and uniq: "\<And>l. (j, l) \<in> fchunks pl pool \<Longrightarrow> l = k"
  shows "lists_ok pl (pool_unlink pl j k pool)"
    "fchunks pl (pool_unlink pl j k pool) = fchunks pl pool - {(j, k)}"
proof -
  have k: "k < BUDDY_MAX_ORDER" "(pl, j) \<in> set (flist pool k)" using jk by (auto simp: fchunks_def)
  have other: "(pl, j) \<notin> set (flist pool l)" if "l < BUDDY_MAX_ORDER" "l \<noteq> k" for l
    using uniq that by (auto simp: fchunks_def)
  have dist: "distinct (flist pool l)" if "l < BUDDY_MAX_ORDER" for l
    using ok that by (simp add: lists_ok_def)
  show "fchunks pl (pool_unlink pl j k pool) = fchunks pl pool - {(j, k)}"
    using other dist by (auto simp: fchunks_def flist_unlink [OF ok] set_remove1_eq)
  obtain n where n: "length (flist pool k) = Suc n" using k by (cases "flist pool k") auto
  show "lists_ok pl (pool_unlink pl j k pool)"
    unfolding lists_ok_def
  proof (intro conjI allI impI)
    show "length (free_lists (pool_unlink pl j k pool)) = BUDDY_MAX_ORDER"
      using ok by (simp add: pool_unlink_def lists_ok_def Let_def)
  next
    fix l assume l: "l < BUDDY_MAX_ORDER"
    show "distinct (flist (pool_unlink pl j k pool) l)"
      using l dist by (simp add: flist_unlink [OF ok])
    show "fst ` set (flist (pool_unlink pl j k pool) l) \<subseteq> {pl}"
      using l ok dist by (auto simp: flist_unlink [OF ok] lists_ok_def set_remove1_eq)
    show "nr_free (free_lists (pool_unlink pl j k pool) ! l) =
        word_of_nat (length (flist (pool_unlink pl j k pool) l))"
      using l ok k n other by (auto simp: flist_unlink [OF ok] lists_ok_def length_remove1)
  qed
qed

lemma link_ok:
  assumes ok: "lists_ok pl pool" and k: "k < BUDDY_MAX_ORDER"
    and new: "(j, k) \<notin> fchunks pl pool"
  shows "lists_ok pl (pool_link pl j k pool)"
    "fchunks pl (pool_link pl j k pool) = insert (j, k) (fchunks pl pool)"
proof -
  have "(pl, j) \<notin> set (flist pool k)" using new k by (simp add: fchunks_def)
  then show "lists_ok pl (pool_link pl j k pool)"
    using ok k unfolding lists_ok_def
    by (auto simp: flist_link [OF ok] pool_link_def nth_list_update)
  show "fchunks pl (pool_link pl j k pool) = insert (j, k) (fchunks pl pool)"
    using k by (auto simp: fchunks_def flist_link [OF ok] split: if_splits)
qed

definition pool_upd :: "nat \<Rightarrow> (page \<Rightarrow> page) \<Rightarrow> phys_mem_pool \<Rightarrow> phys_mem_pool" where
  "pool_upd i f pool = pool\<lparr>page_metadata := (page_metadata pool)[i := f (page_metadata pool ! i)]\<rparr>"

lemma pool_upd_simps [simp]:
  "npages (pool_upd i f pool) = npages pool"
  "free_lists (pool_upd i f pool) = free_lists pool"
  "pool_base (pool_upd i f pool) = pool_base pool"
  "fchunks pl (pool_upd i f pool) = fchunks pl pool"
  "lists_ok pl (pool_upd i f pool) = lists_ok pl pool"
  by (simp_all add: pool_upd_def pool_base_def fchunks_def lists_ok_def)

lemma pool_upd_page [simp]:
  "i < npages pool \<Longrightarrow> page_metadata (pool_upd i f pool) ! i = f (page_metadata pool ! i)"
  "j \<noteq> i \<Longrightarrow> page_metadata (pool_upd i f pool) ! j = page_metadata pool ! j"
  by (simp_all add: pool_upd_def)

lemma pool_upd_shape:
  assumes "slab (f (page_metadata pool ! i)) = slab (page_metadata pool ! i)"
    "page_pool (f (page_metadata pool ! i)) = page_pool (page_metadata pool ! i)"
  shows "pool_shape (pool_upd i f pool) = pool_shape pool"
proof -
  have "map (\<lambda>g. (slab g, page_pool g)) ((page_metadata pool)[i := f (page_metadata pool ! i)]) =
        map (\<lambda>g. (slab g, page_pool g)) (page_metadata pool)"
  proof (rule nth_equalityI)
    fix j assume "j < length (map (\<lambda>g. (slab g, page_pool g)) ((page_metadata pool)[i := f (page_metadata pool ! i)]))"
    then show "map (\<lambda>g. (slab g, page_pool g)) ((page_metadata pool)[i := f (page_metadata pool ! i)]) ! j =
        map (\<lambda>g. (slab g, page_pool g)) (page_metadata pool) ! j"
      using assms by (cases "j = i") simp_all
  qed simp
  then show ?thesis by (simp add: pool_shape_def pool_upd_def)
qed

subsection \<open>The invariant under the elementary steps\<close>

lemma buddy_invD:
  assumes "buddy_inv pl pool A H"
  shows "lists_ok pl pool" "A \<inter> H = {}" "A \<inter> fchunks pl pool = {}" "H \<inter> fchunks pl pool = {}"
    "tiling (pool_base pool) (npages pool) (A \<union> H \<union> fchunks pl pool)" "coalesced pl pool"
    "\<And>i k. (i, k) \<in> A \<Longrightarrow> pg_alc pool i = 1 \<and> pg_ord pool i = k"
    "\<And>i k. (i, k) \<in> H \<Longrightarrow> pg_ord pool i = k"
    "\<And>i k. (i, k) \<in> fchunks pl pool \<Longrightarrow> pg_alc pool i = 0 \<and> pg_ord pool i = k"
  using assms by (simp_all add: buddy_inv_def)

lemma buddy_invI:
  assumes "lists_ok pl pool" "A \<inter> H = {}" "A \<inter> fchunks pl pool = {}" "H \<inter> fchunks pl pool = {}"
    "tiling (pool_base pool) (npages pool) (A \<union> H \<union> fchunks pl pool)" "coalesced pl pool"
    "\<And>i k. (i, k) \<in> A \<Longrightarrow> pg_alc pool i = 1 \<and> pg_ord pool i = k"
    "\<And>i k. (i, k) \<in> H \<Longrightarrow> pg_ord pool i = k"
    "\<And>i k. (i, k) \<in> fchunks pl pool \<Longrightarrow> pg_alc pool i = 0 \<and> pg_ord pool i = k"
  shows "buddy_inv pl pool A H"
  unfolding buddy_inv_def using assms by blast

lemma buddy_inv_heads:
  assumes "buddy_inv pl pool A H" "(i, k) \<in> A \<union> H \<union> fchunks pl pool"
    "(i, l) \<in> A \<union> H \<union> fchunks pl pool"
  shows "k = l"
  using assms(2,3) by (rule tiling_head [OF buddy_invD(5) [OF assms(1)]])

lemma coalesced_subset:
  assumes "coalesced pl pool" "fchunks pl pool' \<subseteq> fchunks pl pool" "pool_base pool' = pool_base pool"
  shows "coalesced pl pool'"
  unfolding coalesced_def assms(3)
proof (intro allI impI)
  fix i j k
  assume "(i, k) \<in> fchunks pl pool'" "Suc k < BUDDY_MAX_ORDER" "pool_base pool + j = flip_bit k (pool_base pool + i)"
  then show "(j, k) \<notin> fchunks pl pool'" using assms(1,2) unfolding coalesced_def by blast
qed

lemma coalesced_insert:
  assumes co: "coalesced pl pool" and F: "fchunks pl pool' = insert (i, k) (fchunks pl pool)"
    and merged: "\<And>j. Suc k < BUDDY_MAX_ORDER \<Longrightarrow> pool_base pool + j = flip_bit k (pool_base pool + i) \<Longrightarrow>
      (j, k) \<notin> fchunks pl pool"
    and base: "pool_base pool' = pool_base pool"
  shows "coalesced pl pool'"
  unfolding coalesced_def F base
proof (intro allI impI)
  fix a b l
  assume a: "(a, l) \<in> insert (i, k) (fchunks pl pool)" and l: "Suc l < BUDDY_MAX_ORDER"
    and b: "pool_base pool + b = flip_bit l (pool_base pool + a)"
  show "(b, l) \<notin> insert (i, k) (fchunks pl pool)"
  proof
    assume b': "(b, l) \<in> insert (i, k) (fchunks pl pool)"
    have flipped: "pool_base pool + a = flip_bit l (pool_base pool + b)" using b by simp
    have "b \<noteq> a" using b by auto
    then consider "(a, l) = (i, k)" "(b, l) \<in> fchunks pl pool" | "(b, l) = (i, k)" "(a, l) \<in> fchunks pl pool"
      | "(a, l) \<in> fchunks pl pool" "(b, l) \<in> fchunks pl pool"
      using a b' by auto
    then show False
    proof cases
      case 1 then show False using merged [of b] l b by auto
    next
      case 2 then show False using merged [of a] l flipped by auto
    next
      case 3 then show False using co l b unfolding coalesced_def by blast
    qed
  qed
qed

lemma buddy_inv_hand_to_alloc:
  assumes inv: "buddy_inv pl pool A {(i, k)}" and alc: "pg_alc pool i = 1"
  shows "buddy_inv pl pool (insert (i, k) A) {}"
proof (rule buddy_invI)
  note D = buddy_invD [OF inv]
  show "lists_ok pl pool" "coalesced pl pool" by (rule D)+
  show "insert (i, k) A \<inter> {} = {}" "{} \<inter> fchunks pl pool = {}" by auto
  show "insert (i, k) A \<inter> fchunks pl pool = {}" using D(3,4) by auto
  show "tiling (pool_base pool) (npages pool) (insert (i, k) A \<union> {} \<union> fchunks pl pool)"
    using D(5) by simp
  show "pg_alc pool j = 1 \<and> pg_ord pool j = l" if "(j, l) \<in> insert (i, k) A" for j l
    using that D(7,8) alc by auto
  show "pg_ord pool j = l" if "(j, l) \<in> {}" for j l using that by simp
  show "pg_alc pool j = 0 \<and> pg_ord pool j = l" if "(j, l) \<in> fchunks pl pool" for j l
    using that by (rule D(9))
qed

lemma buddy_inv_alloc_to_hand:
  assumes inv: "buddy_inv pl pool A {}" and ik: "(i, k) \<in> A"
  shows "buddy_inv pl (pool_upd i (\<lambda>g. g\<lparr>allocated := a\<rparr>) pool) (A - {(i, k)}) {(i, k)}"
    (is "buddy_inv pl ?pool _ _")
proof (rule buddy_invI)
  note D = buddy_invD [OF inv]
  have i: "i < npages pool" using tilingD(4) [OF D(5), of i k] ik by simp
  have other: "j \<noteq> i" if "(j, l) \<in> A - {(i, k)} \<or> (j, l) \<in> fchunks pl pool" for j l
    using buddy_inv_heads [OF inv, of i k l] that ik D(3) by auto
  show "lists_ok pl ?pool" using D(1) by simp
  show "coalesced pl ?pool" using D(6) by (rule coalesced_subset) simp_all
  show "(A - {(i, k)}) \<inter> {(i, k)} = {}" by simp
  show "(A - {(i, k)}) \<inter> fchunks pl ?pool = {}" using D(3) by auto
  show "{(i, k)} \<inter> fchunks pl ?pool = {}" using D(3) ik by auto
  show "tiling (pool_base ?pool) (npages ?pool) (A - {(i, k)} \<union> {(i, k)} \<union> fchunks pl ?pool)"
    using D(5) ik by (simp add: insert_absorb)
  show "pg_alc ?pool j = 1 \<and> pg_ord ?pool j = l" if "(j, l) \<in> A - {(i, k)}" for j l
  proof -
    have "j \<noteq> i" "(j, l) \<in> A" using other that by blast+
    then show ?thesis using D(7) by simp
  qed
  show "pg_ord ?pool j = l" if "(j, l) \<in> {(i, k)}" for j l
    using that D(7) [OF ik] i by simp
  show "pg_alc ?pool j = 0 \<and> pg_ord ?pool j = l" if "(j, l) \<in> fchunks pl ?pool" for j l
  proof -
    have f: "(j, l) \<in> fchunks pl pool" using that by simp
    then have "j \<noteq> i" using other by blast
    with f show ?thesis using D(9) by simp
  qed
qed

text \<open>Taking a free chunk in hand, and putting the chunk in hand on its free list.\<close>

lemma buddy_inv_take:
  assumes inv: "buddy_inv pl pool A {}" and ik: "(i, k) \<in> fchunks pl pool"
  shows "buddy_inv pl (pool_unlink pl i k pool) A {(i, k)}" (is "buddy_inv pl ?pool _ _")
proof (rule buddy_invI)
  note D = buddy_invD [OF inv]
  have U: "lists_ok pl ?pool" "fchunks pl ?pool = fchunks pl pool - {(i, k)}"
  proof -
    have "l = k" if "(i, l) \<in> fchunks pl pool" for l
      using buddy_inv_heads [OF inv, of i l k] ik that by simp
    then show "lists_ok pl ?pool" "fchunks pl ?pool = fchunks pl pool - {(i, k)}"
      using unlink_ok [OF D(1) ik] by simp_all
  qed
  show "lists_ok pl ?pool" by (rule U)
  show "coalesced pl ?pool" using D(6) by (rule coalesced_subset) (auto simp: U)
  show "A \<inter> {(i, k)} = {}" "A \<inter> fchunks pl ?pool = {}" "{(i, k)} \<inter> fchunks pl ?pool = {}"
    using D(3) ik U(2) by auto
  show "tiling (pool_base ?pool) (npages ?pool) (A \<union> {(i, k)} \<union> fchunks pl ?pool)"
  proof -
    have "A \<union> {(i, k)} \<union> (fchunks pl pool - {(i, k)}) = A \<union> {} \<union> fchunks pl pool" using ik by auto
    then show ?thesis using D(5) by (simp only: U(2) pool_unlink_simps)
  qed
  show "pg_alc ?pool j = 1 \<and> pg_ord ?pool j = l" if "(j, l) \<in> A" for j l using D(7) [OF that] by simp
  show "pg_ord ?pool j = l" if "(j, l) \<in> {(i, k)}" for j l using that D(9) [OF ik] by simp
  show "pg_alc ?pool j = 0 \<and> pg_ord ?pool j = l" if "(j, l) \<in> fchunks pl ?pool" for j l
    using that D(9) [of j l] U(2) by simp
qed

lemma buddy_inv_put:
  assumes inv: "buddy_inv pl pool A {(i, k)}" and alc: "pg_alc pool i = 0"
    and merged: "\<And>j. Suc k < BUDDY_MAX_ORDER \<Longrightarrow> pool_base pool + j = flip_bit k (pool_base pool + i) \<Longrightarrow>
      (j, k) \<notin> fchunks pl pool"
  shows "buddy_inv pl (pool_link pl i k pool) A {}" (is "buddy_inv pl ?pool _ _")
proof (rule buddy_invI)
  note D = buddy_invD [OF inv]
  have k: "k < BUDDY_MAX_ORDER" using tilingD(1) [OF D(5), of i k] by simp
  have new: "(i, k) \<notin> fchunks pl pool" using D(4) by auto
  note U = link_ok [OF D(1) k new]
  show "lists_ok pl ?pool" by (rule U)
  show "coalesced pl ?pool" using merged by (rule coalesced_insert [OF D(6) U(2)]) simp_all
  show "A \<inter> {} = {}" "{} \<inter> fchunks pl ?pool = {}" by auto
  show "A \<inter> fchunks pl ?pool = {}" using D(2,3) U(2) by auto
  show "tiling (pool_base ?pool) (npages ?pool) (A \<union> {} \<union> fchunks pl ?pool)"
    using D(5) U(2) by simp
  show "pg_alc ?pool j = 1 \<and> pg_ord ?pool j = l" if "(j, l) \<in> A" for j l using D(7) [OF that] by simp
  show "pg_ord ?pool j = l" if "(j, l) \<in> {}" for j l using that by simp
  show "pg_alc ?pool j = 0 \<and> pg_ord ?pool j = l" if "(j, l) \<in> fchunks pl ?pool" for j l
    using that D(9) [of j l] D(8) [of i k] alc U(2) by auto
qed

section \<open>Merging\<close>

definition pool_merge :: "nat \<Rightarrow> nat \<Rightarrow> nat \<Rightarrow> nat \<Rightarrow> phys_mem_pool \<Rightarrow> phys_mem_pool" where
  "pool_merge pl i j k pool = pool_upd i (\<lambda>g. g\<lparr>order := Suc k\<rparr>)
     (pool_upd j (\<lambda>g. g\<lparr>order := Suc k\<rparr>) (pool_unlink pl j k pool))"

lemma pool_merge_simps [simp]:
  "pool_base (pool_merge pl i j k pool) = pool_base pool"
  "npages (pool_merge pl i j k pool) = npages pool"
  "pool_shape (pool_merge pl i j k pool) = pool_shape pool"
  "fchunks pl (pool_merge pl i j k pool) = fchunks pl (pool_unlink pl j k pool)"
  "lists_ok pl (pool_merge pl i j k pool) = lists_ok pl (pool_unlink pl j k pool)"
  by (simp_all add: pool_merge_def pool_upd_shape)

lemma pool_merge_page:
  "pg_alc (pool_merge pl i j k pool) x = pg_alc pool x"
  "x \<noteq> i \<Longrightarrow> x \<noteq> j \<Longrightarrow> pg_ord (pool_merge pl i j k pool) x = pg_ord pool x"
  "x < npages pool \<Longrightarrow> x = i \<or> x = j \<Longrightarrow> pg_ord (pool_merge pl i j k pool) x = Suc k"
  unfolding pool_merge_def pool_upd_def
  by (cases "i < npages pool"; cases "j < npages pool"; auto simp: nth_list_update list_update_beyond)+

lemma buddy_inv_merge:
  assumes inv: "buddy_inv pl pool A {(i, k)}" and jk: "(j, k) \<in> fchunks pl pool"
    and j: "pool_base pool + j = flip_bit k (pool_base pool + i)" and k: "Suc k < BUDDY_MAX_ORDER"
  shows "buddy_inv pl (pool_merge pl i j k pool) A {(min i j, Suc k)}" (is "buddy_inv pl ?pool _ _")
proof (rule buddy_invI)
  note D = buddy_invD [OF inv]
  let ?F = "fchunks pl pool - {(j, k)}"
  have ui: "l = k" if "(i, l) \<in> A \<union> {(i, k)} \<union> fchunks pl pool" for l
    using buddy_inv_heads [OF inv that, of k] by simp
  have uj: "l = k" if "(j, l) \<in> A \<union> {(i, k)} \<union> fchunks pl pool" for l
    using buddy_inv_heads [OF inv that, of k] jk by simp
  have U: "lists_ok pl ?pool" "fchunks pl ?pool = ?F"
    using unlink_ok [OF D(1) jk] uj by simp_all
  have set_eq: "A \<union> {(i, k)} \<union> fchunks pl pool = insert (i, k) (insert (j, k) (A \<union> ?F))"
    using jk by auto
  have new: "(i, k) \<notin> A \<union> ?F" "(j, k) \<notin> A \<union> ?F" using D(2,3,4) jk by auto
  note T = tiling_merge [OF D(5) [unfolded set_eq] new j k]
  have N: "i < npages pool" "j < npages pool" using tilingD(4) [OF D(5)] jk by auto
  have apart: "x \<noteq> i \<and> x \<noteq> j" if "(x, l) \<in> A \<union> ?F" for x l
  proof -
    have "(x, l) \<in> A \<union> {(i, k)} \<union> fchunks pl pool" using that by blast
    then have "x = i \<Longrightarrow> l = k" "x = j \<Longrightarrow> l = k" using ui uj by blast+
    then show ?thesis using that new by blast
  qed
  show "lists_ok pl ?pool" by (rule U)
  show "A \<inter> {(min i j, Suc k)} = {}" "{(min i j, Suc k)} \<inter> fchunks pl ?pool = {}"
    using T(2) U(2) by auto
  show "A \<inter> fchunks pl ?pool = {}" using D(3) U(2) by auto
  have "A \<union> {(min i j, Suc k)} \<union> ?F = insert (min i j, Suc k) (A \<union> ?F)" by auto
  then show "tiling (pool_base ?pool) (npages ?pool) (A \<union> {(min i j, Suc k)} \<union> fchunks pl ?pool)"
    using T(1) by (simp only: U(2) pool_merge_simps(1,2))
  show "coalesced pl ?pool" using D(6) by (rule coalesced_subset) (auto simp: U(2) [simplified])
  show "pg_alc ?pool x = 1 \<and> pg_ord ?pool x = l" if "(x, l) \<in> A" for x l
    using apart [of x l] that D(7) [OF that] by (simp add: pool_merge_page)
  show "pg_ord ?pool x = l" if "(x, l) \<in> {(min i j, Suc k)}" for x l
    using that N by (auto simp: pool_merge_page min_def)
  show "pg_alc ?pool x = 0 \<and> pg_ord ?pool x = l" if "(x, l) \<in> fchunks pl ?pool" for x l
  proof -
    have x: "(x, l) \<in> ?F" using that U(2) by simp
    then have "x \<noteq> i" "x \<noteq> j" using apart by blast+
    moreover have "(x, l) \<in> fchunks pl pool" using x by simp
    ultimately show ?thesis using D(9) by (simp add: pool_merge_page)
  qed
qed

lemma upd_pool_nth [simp]:
  "pl < length (global_mem m) \<Longrightarrow> global_mem (upd_pool pl f m) ! pl = f (global_mem m ! pl)"
  "length (global_mem (upd_pool pl f m)) = length (global_mem m)"
  "physmem_map_num (upd_pool pl f m) = physmem_map_num m"
  by (simp_all add: upd_pool_def)

lemma upd_pool_comp:
  assumes "pl < length (global_mem m)"
  shows "upd_pool pl f (upd_pool pl g m) = upd_pool pl (\<lambda>p. f (g p)) m"
  using assms by (simp add: upd_pool_def)

lemma upd_pool_const: "upd_pool pl f m = upd_pool pl (\<lambda>_. f (global_mem m ! pl)) m"
  by (simp add: upd_pool_def)

text \<open>One round of the loop: it merges exactly when the buddy is a free chunk of the same order.\<close>

lemma get_page_wf:
  assumes "mem_wf m" "pl < physmem_map_num m" "i < npages (global_mem m ! pl)"
  shows "get_page m (pl, i) = Some (page_metadata (global_mem m ! pl) ! i)"
  using assms by (simp add: get_page_def mem_wf_get_pool)

lemma mem_wf_len: "mem_wf m \<Longrightarrow> pl < physmem_map_num m \<Longrightarrow> pl < length (global_mem m)"
  by (simp add: mem_wf_def)

lemma merge_chunk_stop:
  assumes wf: "mem_wf m" and pl: "pl < physmem_map_num m"
    and inv: "buddy_inv pl (global_mem m ! pl) A {(i, k)}"
    and stop: "\<And>j. Suc k < BUDDY_MAX_ORDER \<Longrightarrow>
      pool_base (global_mem m ! pl) + j = flip_bit k (pool_base (global_mem m ! pl) + i) \<Longrightarrow>
      (j, k) \<notin> fchunks pl (global_mem m ! pl)"
  shows "merge_chunk (Suc n) m pl (pl, i) = Some ((pl, i), m)"
proof -
  define pool where "pool = global_mem m ! pl"
  define B where "B = flip_bit k (pool_base pool + i)"
  note D = buddy_invD [OF inv, folded pool_def]
  have T: "k < BUDDY_MAX_ORDER" "2 ^ k dvd pool_base pool + i" "i < npages pool"
    using tilingD [OF D(5), of i k] by auto
  have ord: "pg_ord pool i = k" using D(8) by simp
  note gp = get_page_wf [OF wf pl, folded pool_def]
  have buddy: "get_buddy_chunk m pl (pl, i) = Some (if pool_base pool \<le> B \<and> B + 2 ^ k \<le> pool_base pool + npages pool
        then Some (pl, B - pool_base pool) else None)"
    using get_buddy_chunk_eq [OF wf pl, folded pool_def, OF T(3) ord T(1,2)] by (simp add: B_def Let_def)
  show ?thesis
  proof (cases "Suc k < BUDDY_MAX_ORDER \<and> pool_base pool \<le> B \<and> B + 2 ^ k \<le> pool_base pool + npages pool")
    case False
    then show ?thesis using T ord buddy gp [OF T(3)] by auto
  next
    case True
    define j where "j = B - pool_base pool"
    have j: "pool_base pool + j = flip_bit k (pool_base pool + i)" "j + 2 ^ k \<le> npages pool"
      using True by (auto simp: j_def B_def)
    obtain d where d: "(j, d) \<in> A \<union> {(i, k)} \<union> fchunks pl pool"
      by (rule tiling_buddy_head [OF D(5) _ j]) auto
    have jN: "j < npages pool" using tilingD(4) [OF D(5) d] .
    have "j \<noteq> i" using j(1) by auto
    then have "(j, d) \<in> A \<or> (j, d) \<in> fchunks pl pool \<and> d \<noteq> k"
      using d stop [folded pool_def, OF _ j(1)] True by auto
    then have "pg_alc pool j = 1 \<or> pg_ord pool j \<noteq> k" using D(7,9) by auto
    then show ?thesis using True ord buddy gp [OF T(3)] gp [OF jN] by (auto simp: j_def)
  qed
qed

lemma page_list_del_unlink:
  assumes "pl < length (global_mem m)" "(j, k) \<in> fchunks pl (global_mem m ! pl)"
    "lists_ok pl (global_mem m ! pl)"
  obtains m1 where "page_list_del pl (pl, j) m = Some m1"
    "upd_free_list pl k (\<lambda>fl. fl\<lparr>nr_free := nr_free fl - 1\<rparr>) m1 = upd_pool pl (pool_unlink pl j k) m"
proof -
  have "\<exists>fl \<in> set (free_lists (global_mem m ! pl)). (pl, j) \<in> set (free_list fl)"
    using assms by (auto simp: fchunks_def lists_ok_def intro!: bexI [of _ "free_lists (global_mem m ! pl) ! k"])
  then show ?thesis using that assms(1)
    by (simp add: page_list_del_def get_pool_def upd_free_list_def upd_pool_comp pool_unlink_def [abs_def] Let_def)
qed

lemma merge_chunk_step:
  assumes wf: "mem_wf m" and pl: "pl < physmem_map_num m"
    and inv: "buddy_inv pl (global_mem m ! pl) A {(i, k)}"
    and jk: "(j, k) \<in> fchunks pl (global_mem m ! pl)" and k: "Suc k < BUDDY_MAX_ORDER"
    and j: "pool_base (global_mem m ! pl) + j = flip_bit k (pool_base (global_mem m ! pl) + i)"
  shows "merge_chunk (Suc n) m pl (pl, i) =
    merge_chunk n (upd_pool pl (pool_merge pl i j k) m) pl (pl, min i j)"
proof -
  define pool where "pool = global_mem m ! pl"
  note D = buddy_invD [OF inv, folded pool_def]
  note len = mem_wf_len [OF wf pl]
  have T: "k < BUDDY_MAX_ORDER" "2 ^ k dvd pool_base pool + i" "i < npages pool"
    using tilingD [OF D(5), of i k] by auto
  have Tj: "j + 2 ^ k \<le> npages pool" "j < npages pool"
    using tilingD [OF D(5), of j k] jk by (auto simp: pool_def)
  have ord: "pg_ord pool i = k" using D(8) by simp
  note gp = get_page_wf [OF wf pl, folded pool_def]
  have buddy: "get_buddy_chunk m pl (pl, i) = Some (Some (pl, j))"
    using get_buddy_chunk_eq [OF wf pl, folded pool_def, OF T(3) ord T(1,2)] Tj
    by (simp add: Let_def j [folded pool_def, symmetric])
  have alc: "pg_alc pool j = 0" "pg_ord pool j = k" using D(9) jk by (auto simp: pool_def)
  obtain m1 where m1: "page_list_del pl (pl, j) m = Some m1"
    "upd_free_list pl k (\<lambda>fl. fl\<lparr>nr_free := nr_free fl - 1\<rparr>) m1 = upd_pool pl (pool_unlink pl j k) m"
    using page_list_del_unlink [OF len jk] D(1) by (auto simp: pool_def)
  have "(if j < i then (pl, j) else (pl, i)) = (pl, min i j)" "j \<noteq> i" "k \<noteq> BUDDY_MAX_ORDER - Suc 0"
    using j k by auto
  then show ?thesis
    using T k ord alc buddy gp [OF T(3)] gp [OF Tj(2)] m1 len
    by (simp add: upd_page_def upd_pool_comp pool_merge_def [abs_def] pool_upd_def)
qed

lemma merge_chunk_ok:
  assumes "mem_wf m" "pl < physmem_map_num m" "buddy_inv pl (global_mem m ! pl) A {(i, k)}"
    "pg_alc (global_mem m ! pl) i = 0" "BUDDY_MAX_ORDER - k \<le> n"
  shows "\<exists>j l m'. merge_chunk n m pl (pl, i) = Some ((pl, j), m') \<and> same_frame pl m m' \<and>
    buddy_inv pl (global_mem m' ! pl) A {(j, l)} \<and> pg_alc (global_mem m' ! pl) j = 0 \<and>
    (\<forall>b. Suc l < BUDDY_MAX_ORDER \<longrightarrow>
       pool_base (global_mem m' ! pl) + b = flip_bit l (pool_base (global_mem m' ! pl) + j) \<longrightarrow>
       (b, l) \<notin> fchunks pl (global_mem m' ! pl))"
  using assms
proof (induction n arbitrary: m i k)
  case 0
  then show ?case using tilingD(1) [OF buddy_invD(5) [OF "0.prems"(3)], of i k] by simp
next
  case (Suc n)
  let ?pool = "global_mem m ! pl"
  show ?case
  proof (cases "\<exists>j. Suc k < BUDDY_MAX_ORDER \<and> pool_base ?pool + j = flip_bit k (pool_base ?pool + i) \<and>
      (j, k) \<in> fchunks pl ?pool")
    case False
    then have "merge_chunk (Suc n) m pl (pl, i) = Some ((pl, i), m)"
      using merge_chunk_stop [OF Suc.prems(1-3)] by blast
    then show ?thesis using Suc.prems False same_frame_refl by blast
  next
    case True
    then obtain j where k: "Suc k < BUDDY_MAX_ORDER" and jk: "(j, k) \<in> fchunks pl ?pool"
      and j: "pool_base ?pool + j = flip_bit k (pool_base ?pool + i)" by blast
    let ?m = "upd_pool pl (pool_merge pl i j k) m"
    have fr: "same_frame pl m ?m" by (rule upd_pool_frame) simp
    have p: "global_mem ?m ! pl = pool_merge pl i j k ?pool"
      using mem_wf_len [OF Suc.prems(1,2)] by simp
    have alc: "pg_alc (global_mem ?m ! pl) (min i j) = 0"
      using Suc.prems(4) buddy_invD(9) [OF Suc.prems(3) jk] by (simp add: p pool_merge_page min_def)
    have hand: "buddy_inv pl (global_mem ?m ! pl) A {(min i j, Suc k)}"
      unfolding p by (rule buddy_inv_merge [OF Suc.prems(3) jk j k])
    have "mem_wf ?m" "pl < physmem_map_num ?m" "BUDDY_MAX_ORDER - Suc k \<le> n"
      using Suc.prems same_frame_wf [OF fr] by auto
    from Suc.IH [OF this(1,2) hand alc this(3)]
    obtain j' l m' where "merge_chunk n ?m pl (pl, min i j) = Some ((pl, j'), m')"
      and fr': "same_frame pl ?m m'" and rest: "buddy_inv pl (global_mem m' ! pl) A {(j', l)} \<and>
        pg_alc (global_mem m' ! pl) j' = 0 \<and> (\<forall>b. Suc l < BUDDY_MAX_ORDER \<longrightarrow>
       pool_base (global_mem m' ! pl) + b = flip_bit l (pool_base (global_mem m' ! pl) + j') \<longrightarrow>
       (b, l) \<notin> fchunks pl (global_mem m' ! pl))"
      by blast
    then have "merge_chunk (Suc n) m pl (pl, i) = Some ((pl, j'), m')"
      using merge_chunk_step [OF Suc.prems(1-3) jk k j] by simp
    then show ?thesis using rest same_frame_trans [OF fr fr'] by blast
  qed
qed

end
