(* ===== verification/Buddy_Correct.thy ===== *)
theory Buddy_Correct
  imports Buddy
begin

text \<open>
  Correctness of the buddy allocator (\<open>kernel/mm/buddy.c\<close>): splitting, the three entry points
  \<open>init_buddy\<close>, \<open>buddy_get_pages\<close> and \<open>buddy_free_pages\<close> against the chunk tiling of the pool,
  and the accounting of \<open>get_free_mem_size_from_buddy\<close>.
\<close>

section \<open>Splitting\<close>

definition pool_split :: "nat \<Rightarrow> nat \<Rightarrow> nat \<Rightarrow> nat \<Rightarrow> phys_mem_pool \<Rightarrow> phys_mem_pool" where
  "pool_split pl i j k pool = pool_link pl j k
     (pool_upd j (\<lambda>g. g\<lparr>order := k, allocated := 0\<rparr>) (pool_upd i (\<lambda>g. g\<lparr>order := k\<rparr>) pool))"

lemma pool_split_simps [simp]:
  "pool_base (pool_split pl i j k pool) = pool_base pool"
  "npages (pool_split pl i j k pool) = npages pool"
  "pool_shape (pool_split pl i j k pool) = pool_shape pool"
  by (simp_all add: pool_split_def pool_upd_shape)

lemma pool_split_page:
  assumes "i < npages pool" "j < npages pool" "i \<noteq> j"
  shows "x \<noteq> i \<Longrightarrow> x \<noteq> j \<Longrightarrow> page_metadata (pool_split pl i j k pool) ! x = page_metadata pool ! x"
    "pg_ord (pool_split pl i j k pool) i = k" "pg_alc (pool_split pl i j k pool) i = pg_alc pool i"
    "pg_ord (pool_split pl i j k pool) j = k" "pg_alc (pool_split pl i j k pool) j = 0"
  unfolding pool_split_def pool_link_simps using assms by (simp_all add: pool_upd_def nth_list_update)

lemma buddy_inv_split:
  assumes inv: "buddy_inv pl pool A {(i, Suc k)}"
  shows "buddy_inv pl (pool_split pl i (i + 2 ^ k) k pool) A {(i, k)}" (is "buddy_inv pl ?pool _ _")
proof (rule buddy_invI)
  note D = buddy_invD [OF inv]
  let ?j = "i + 2 ^ k" and ?F = "fchunks pl pool"
  have set_eq: "A \<union> {(i, Suc k)} \<union> ?F = insert (i, Suc k) (A \<union> ?F)" by auto
  have new: "(i, Suc k) \<notin> A \<union> ?F" using D(2,4) by auto
  note T = tiling_split [OF D(5) [unfolded set_eq] new]
  have k: "k < BUDDY_MAX_ORDER" using tilingD(1) [OF D(5), of i "Suc k"] by simp
  have N: "i < npages pool" "?j < npages pool" "i \<noteq> ?j"
    using tilingD(4) [OF T(2), of i k] tilingD(4) [OF T(2), of ?j k] by auto
  note P = pool_split_page [OF N]
  have apart: "x \<noteq> i \<and> x \<noteq> ?j" if "(x, l) \<in> A \<union> ?F" for x l
  proof -
    have "(x, l) \<in> insert (i, k) (insert (?j, k) (A \<union> ?F))" using that by blast
    from tiling_head [OF T(2) this] have "x = i \<Longrightarrow> l = k" "x = ?j \<Longrightarrow> l = k" by blast+
    then show ?thesis using that T(3,4) by blast
  qed
  let ?p = "pool_upd ?j (\<lambda>g. g\<lparr>order := k, allocated := 0\<rparr>) (pool_upd i (\<lambda>g. g\<lparr>order := k\<rparr>) pool)"
  have L: "lists_ok pl ?pool" "fchunks pl ?pool = insert (?j, k) ?F"
    unfolding pool_split_def using link_ok [of pl ?p k ?j] D(1) k T(4) by simp_all
  show "lists_ok pl ?pool" by (rule L)
  show "A \<inter> {(i, k)} = {}" "{(i, k)} \<inter> fchunks pl ?pool = {}" "A \<inter> fchunks pl ?pool = {}"
    using T(3,4) D(3) N(3) by (auto simp: L)
  have "A \<union> {(i, k)} \<union> insert (?j, k) ?F = insert (i, k) (insert (?j, k) (A \<union> ?F))" by auto
  then show "tiling (pool_base ?pool) (npages ?pool) (A \<union> {(i, k)} \<union> fchunks pl ?pool)"
    using T(2) by (simp only: L pool_split_simps)
  show "coalesced pl ?pool"
  proof (rule coalesced_insert [OF D(6) L(2)])
    fix a assume "pool_base pool + a = flip_bit k (pool_base pool + ?j)"
    then have "a = i" using T(1) by simp
    then show "(a, k) \<notin> ?F" using T(3) by blast
  qed simp
  show "pg_alc ?pool x = 1 \<and> pg_ord ?pool x = l" if "(x, l) \<in> A" for x l
    using apart [of x l] that D(7) [OF that] P(1) by simp
  show "pg_ord ?pool x = l" if "(x, l) \<in> {(i, k)}" for x l using that P(2) by simp
  show "pg_alc ?pool x = 0 \<and> pg_ord ?pool x = l" if "(x, l) \<in> fchunks pl ?pool" for x l
  proof (cases "(x, l) = (?j, k)")
    case True then show ?thesis using P(4,5) by simp
  next
    case False
    then have x: "(x, l) \<in> ?F" using that by (auto simp: L)
    then have "x \<noteq> i \<and> x \<noteq> ?j" using apart by blast
    then show ?thesis using D(9) [OF x] P(1) by simp
  qed
qed

lemma buddy_inv_bounds:
  assumes "buddy_inv pl pool A H" "(i, k) \<in> A \<union> H \<union> fchunks pl pool"
  shows "k < BUDDY_MAX_ORDER" "i + 2 ^ k \<le> npages pool" "2 ^ k dvd pool_base pool + i" "i < npages pool"
  using tilingD [OF buddy_invD(5) [OF assms(1)] assms(2)] by blast+

lemma split_chunk_step:
  assumes wf: "mem_wf m" and pl: "pl < physmem_map_num m"
    and inv: "buddy_inv pl (global_mem m ! pl) A {(i, Suc k)}" and ord: "ord \<noteq> Suc k"
  shows "split_chunk (Suc n) m pl ord (pl, i) =
    split_chunk n (upd_pool pl (pool_split pl i (i + 2 ^ k) k) m) pl ord (pl, i)"
proof -
  define pool where "pool = global_mem m ! pl"
  define m1 where "m1 = upd_page (pl, i) (\<lambda>g. g\<lparr>order := k\<rparr>) m"
  let ?j = "i + 2 ^ k"
  note D = buddy_invD [OF inv, folded pool_def]
  note len = mem_wf_len [OF wf pl]
  have oi: "pg_ord pool i = Suc k" using D(8) by simp
  have sp: "pool_base pool + ?j = flip_bit k (pool_base pool + i)"
    "tiling (pool_base pool) (npages pool) (insert (i, k) (insert (?j, k) (A \<union> fchunks pl pool)))"
    using tiling_split [of "pool_base pool" "npages pool" i k "A \<union> fchunks pl pool"] D(2,4,5) by auto
  have T: "k < BUDDY_MAX_ORDER" "2 ^ k dvd pool_base pool + i" "i < npages pool" "?j + 2 ^ k \<le> npages pool"
    "?j < npages pool"
    using tilingD [OF sp(2), of i k] tilingD [OF sp(2), of ?j k] by auto
  have fr: "same_frame pl m m1"
    unfolding m1_def upd_page_def using upd_pool_frame pool_upd_shape by (auto simp: pool_upd_def)
  note wf1 = same_frame_wf [OF fr wf]
  have pl1: "pl < physmem_map_num m1" using fr pl by (simp add: same_frame_def)
  have p1: "global_mem m1 ! pl = pool_upd i (\<lambda>g. g\<lparr>order := k\<rparr>) pool"
    using len by (simp add: m1_def upd_page_def pool_upd_def pool_def)
  have buddy: "get_buddy_chunk m1 pl (pl, i) = Some (Some (pl, ?j))"
    using get_buddy_chunk_eq [OF wf1 pl1, of i k] T unfolding p1
    by (simp add: Let_def sp(1) [symmetric])
  have g: "get_page m (pl, i) = Some (page_metadata pool ! i)"
    "get_page m1 (pl, ?j) = Some (page_metadata (global_mem m1 ! pl) ! ?j)"
    using get_page_wf [OF wf pl] get_page_wf [OF wf1 pl1] T by (simp_all add: pool_def p1)
  have fl: "k < length (free_lists pool)" using D(1) T(1) by (simp add: lists_ok_def)
  show ?thesis
    using oi ord g buddy fl len
    by (simp add: m1_def [symmetric] page_list_add_def get_pool_def)
      (simp add: m1_def upd_page_def upd_free_list_def upd_pool_comp pool_def [symmetric]
        pool_split_def [abs_def] pool_link_def pool_upd_def)
qed

lemma split_chunk_ok:
  assumes "mem_wf m" "pl < physmem_map_num m" "buddy_inv pl (global_mem m ! pl) A {(i, k)}"
    "ord \<le> k" "k - ord < n"
  shows "\<exists>m'. split_chunk n m pl ord (pl, i) = Some ((pl, i), m') \<and> same_frame pl m m' \<and>
    buddy_inv pl (global_mem m' ! pl) A {(i, ord)} \<and>
    pg_alc (global_mem m' ! pl) i = pg_alc (global_mem m ! pl) i"
  using assms
proof (induction n arbitrary: m k)
  case 0
  then show ?case by simp
next
  case (Suc n)
  let ?pool = "global_mem m ! pl"
  have oi: "pg_ord ?pool i = k" "i < npages ?pool"
    using buddy_invD(8) [OF Suc.prems(3)] buddy_inv_bounds(4) [OF Suc.prems(3), of i k] by simp_all
  show ?case
  proof (cases "ord = k")
    case True
    then have "split_chunk (Suc n) m pl ord (pl, i) = Some ((pl, i), m)"
      using oi get_page_wf [OF Suc.prems(1,2)] by simp
    then show ?thesis using True Suc.prems(3) same_frame_refl by blast
  next
    case False
    then obtain d where k: "k = Suc d" using Suc.prems(4) by (cases k) auto
    let ?m = "upd_pool pl (pool_split pl i (i + 2 ^ d) d) m"
    have fr: "same_frame pl m ?m" by (rule upd_pool_frame) simp
    have p: "global_mem ?m ! pl = pool_split pl i (i + 2 ^ d) d ?pool"
      using mem_wf_len [OF Suc.prems(1,2)] by simp
    have inv: "buddy_inv pl (global_mem ?m ! pl) A {(i, d)}"
      unfolding p using Suc.prems(3) by (simp add: k buddy_inv_split)
    have "i + 2 ^ d < npages ?pool"
      using buddy_inv_bounds(2) [OF Suc.prems(3), of i k] by (simp add: k mult_2 less_le_trans [of _ "i + (2 ^ d + 2 ^ d)"])
    then have alc: "pg_alc (global_mem ?m ! pl) i = pg_alc ?pool i"
      unfolding p using pool_split_page(3) [OF oi(2), of "i + 2 ^ d"] by simp
    have "mem_wf ?m" "pl < physmem_map_num ?m" "ord \<le> d" "d - ord < n"
      using Suc.prems same_frame_wf [OF fr] False k by auto
    from Suc.IH [OF this(1,2) inv this(3,4)] obtain m' where
      "split_chunk n ?m pl ord (pl, i) = Some ((pl, i), m')" and fr': "same_frame pl ?m m'"
      and "buddy_inv pl (global_mem m' ! pl) A {(i, ord)}"
        "pg_alc (global_mem m' ! pl) i = pg_alc (global_mem ?m ! pl) i" by blast
    then show ?thesis
      using split_chunk_step [OF Suc.prems(1,2,3) [unfolded k]] False k alc same_frame_trans [OF fr fr']
      by metis
  qed
qed

section \<open>The entry points\<close>

lemma page_list_add_link:
  assumes "pl < length (global_mem m)" "k < BUDDY_MAX_ORDER" "lists_ok pl (global_mem m ! pl)"
  shows "page_list_add pl k (pl, i) m = Some (upd_pool pl (pool_link pl i k) m)"
  using assms by (simp add: page_list_add_def get_pool_def upd_free_list_def lists_ok_def pool_link_def [abs_def])

lemma buddy_free_pages_ok:
  assumes wf: "mem_wf m" and pl: "pl < physmem_map_num m"
    and inv: "buddy_inv pl (global_mem m ! pl) A {}" and ik: "(i, k) \<in> A"
  shows "\<exists>m'. buddy_free_pages m pl (pl, i) = Some m' \<and> same_frame pl m m' \<and>
    buddy_inv pl (global_mem m' ! pl) (A - {(i, k)}) {}"
proof -
  let ?pool = "global_mem m ! pl"
  let ?m1 = "upd_page (pl, i) (\<lambda>g. g\<lparr>allocated := 0\<rparr>) m"
  note D = buddy_invD [OF inv]
  have i: "i < npages ?pool" using buddy_inv_bounds(4) [OF inv] ik by auto
  have m1: "?m1 = upd_pool pl (pool_upd i (\<lambda>g. g\<lparr>allocated := 0\<rparr>)) m"
    by (simp add: upd_page_def pool_upd_def [abs_def])
  have p1: "global_mem ?m1 ! pl = pool_upd i (\<lambda>g. g\<lparr>allocated := 0\<rparr>) ?pool"
    using mem_wf_len [OF wf pl] by (simp add: m1)
  have fr1: "same_frame pl m ?m1" unfolding m1 by (rule upd_pool_frame) (simp add: pool_upd_shape)
  have "buddy_inv pl (global_mem ?m1 ! pl) (A - {(i, k)}) {(i, k)}"
    unfolding p1 by (rule buddy_inv_alloc_to_hand [OF inv ik])
  moreover have "pg_alc (global_mem ?m1 ! pl) i = 0" unfolding p1 using i by simp
  moreover have pl1: "pl < physmem_map_num ?m1" using fr1 pl by (simp add: same_frame_def)
  ultimately obtain j l m2 where mc: "merge_chunk BUDDY_MAX_ORDER ?m1 pl (pl, i) = Some ((pl, j), m2)"
    and fr2: "same_frame pl ?m1 m2" and inv2: "buddy_inv pl (global_mem m2 ! pl) (A - {(i, k)}) {(j, l)}"
    and alc: "pg_alc (global_mem m2 ! pl) j = 0"
    and stop: "\<forall>b. Suc l < BUDDY_MAX_ORDER \<longrightarrow>
       pool_base (global_mem m2 ! pl) + b = flip_bit l (pool_base (global_mem m2 ! pl) + j) \<longrightarrow>
       (b, l) \<notin> fchunks pl (global_mem m2 ! pl)"
    using merge_chunk_ok [OF same_frame_wf [OF fr1 wf], of pl "A - {(i, k)}" i k BUDDY_MAX_ORDER] by auto
  note fr = same_frame_trans [OF fr1 fr2]
  have wf2: "mem_wf m2" and pl2: "pl < physmem_map_num m2"
    using same_frame_wf [OF fr wf] fr pl by (simp_all add: same_frame_def)
  have l: "l < BUDDY_MAX_ORDER" "j < npages (global_mem m2 ! pl)" "pg_ord (global_mem m2 ! pl) j = l"
    using buddy_inv_bounds(1,4) [OF inv2] buddy_invD(8) [OF inv2] by auto
  let ?m3 = "upd_pool pl (pool_link pl j l) m2"
  have "buddy_free_pages m pl (pl, i) = Some ?m3"
    using get_page_wf [OF wf pl i] D(7) [OF ik] mc get_page_wf [OF wf2 pl2 l(2)] l
      page_list_add_link [OF mem_wf_len [OF wf2 pl2] l(1) buddy_invD(1) [OF inv2]]
    by (simp add: buddy_free_pages_def)
  moreover have "same_frame pl m2 ?m3" by (rule upd_pool_frame) simp
  moreover have "buddy_inv pl (global_mem ?m3 ! pl) (A - {(i, k)}) {}"
    using buddy_inv_put [OF inv2 alc] stop mem_wf_len [OF wf2 pl2] by simp
  ultimately show ?thesis using same_frame_trans [OF fr] by blast
qed

lemma find_free_order_None:
  "find_free_order pool os = None \<longleftrightarrow> (\<forall>k \<in> set os. flist pool k = [])"
  by (induction os) (auto split: list.splits)

lemma find_free_order_Some:
  "find_free_order pool os = Some (k, p) \<Longrightarrow> k \<in> set os \<and> p \<in> set (flist pool k)"
  by (induction os) (auto split: list.splits)

lemma buddy_inv_hand_upd:
  assumes inv: "buddy_inv pl pool A {(i, k)}"
  shows "buddy_inv pl (pool_upd i (\<lambda>g. g\<lparr>allocated := a\<rparr>) pool) A {(i, k)}" (is "buddy_inv pl ?pool _ _")
proof (rule buddy_invI)
  note D = buddy_invD [OF inv]
  have i: "i < npages pool" using buddy_inv_bounds(4) [OF inv, of i k] by simp
  have other: "x \<noteq> i" if "(x, l) \<in> A \<union> fchunks pl pool" for x l
  proof
    assume "x = i"
    then have "l = k" using buddy_inv_heads [OF inv, of i l k] that by auto
    then show False using that \<open>x = i\<close> D(2,4) by auto
  qed
  show "lists_ok pl ?pool" "A \<inter> {(i, k)} = {}" "A \<inter> fchunks pl ?pool = {}"
    "{(i, k)} \<inter> fchunks pl ?pool = {}"
    "tiling (pool_base ?pool) (npages ?pool) (A \<union> {(i, k)} \<union> fchunks pl ?pool)"
    using D by simp_all
  show "coalesced pl ?pool" using D(6) by (rule coalesced_subset) simp_all
  show "pg_alc ?pool x = 1 \<and> pg_ord ?pool x = l" if "(x, l) \<in> A" for x l
    using other [of x l] that D(7) [OF that] by simp
  show "pg_ord ?pool x = l" if "(x, l) \<in> {(i, k)}" for x l using that D(8) i by simp
  show "pg_alc ?pool x = 0 \<and> pg_ord ?pool x = l" if "(x, l) \<in> fchunks pl ?pool" for x l
  proof -
    have x: "(x, l) \<in> fchunks pl pool" using that by simp
    then have "x \<noteq> i" using other by blast
    then show ?thesis using D(9) [OF x] by simp
  qed
qed

lemma lists_ok_node:
  assumes "lists_ok pl pool" "k < BUDDY_MAX_ORDER" "p \<in> set (flist pool k)"
  obtains i where "p = (pl, i)" "(i, k) \<in> fchunks pl pool"
proof -
  have "fst p = pl" using assms unfolding lists_ok_def by (metis image_subset_iff singletonD)
  then show ?thesis using that [of "snd p"] assms(2,3) by (cases p) (auto simp: fchunks_def)
qed

lemma buddy_get_pages_none:
  assumes wf: "mem_wf m" and pl: "pl < physmem_map_num m"
    and inv: "buddy_inv pl (global_mem m ! pl) A {}"
    and none: "\<And>i k. (i, k) \<in> fchunks pl (global_mem m ! pl) \<Longrightarrow> k < ord"
  shows "buddy_get_pages m pl ord = Some (None, m)"
proof -
  have "flist (global_mem m ! pl) k = []" if k: "ord \<le> k" "k < BUDDY_MAX_ORDER" for k
  proof (rule ccontr)
    assume "flist (global_mem m ! pl) k \<noteq> []"
    then have "hd (flist (global_mem m ! pl) k) \<in> set (flist (global_mem m ! pl) k)" by simp
    from lists_ok_node [OF buddy_invD(1) [OF inv] k(2) this] obtain i
      where "(i, k) \<in> fchunks pl (global_mem m ! pl)" by blast
    then show False using none k(1) by (meson leD)
  qed
  then have "find_free_order (global_mem m ! pl) [ord..<BUDDY_MAX_ORDER] = None"
    by (simp add: find_free_order_None)
  then show ?thesis
    using mem_wf_get_pool [OF wf pl] buddy_invD(1) [OF inv] by (simp add: buddy_get_pages_def lists_ok_def)
qed

lemma buddy_get_pages_ok:
  assumes wf: "mem_wf m" and pl: "pl < physmem_map_num m"
    and inv: "buddy_inv pl (global_mem m ! pl) A {}"
    and some: "(i0, k0) \<in> fchunks pl (global_mem m ! pl)" "ord \<le> k0"
  shows "\<exists>i m'. buddy_get_pages m pl ord = Some (Some (pl, i), m') \<and> same_frame pl m m' \<and>
    (i, ord) \<notin> A \<and> buddy_inv pl (global_mem m' ! pl) (insert (i, ord) A) {}"
proof -
  let ?pool = "global_mem m ! pl"
  note D = buddy_invD [OF inv]
  have ord: "ord < BUDDY_MAX_ORDER" using some by (auto simp: fchunks_def)
  have "find_free_order ?pool [ord..<BUDDY_MAX_ORDER] \<noteq> None"
    using some by (auto simp: find_free_order_None fchunks_def intro!: bexI [of _ k0])
  then obtain c p where f: "find_free_order ?pool [ord..<BUDDY_MAX_ORDER] = Some (c, p)" by auto
  then have c: "ord \<le> c" "c < BUDDY_MAX_ORDER" "p \<in> set (flist ?pool c)"
    by (auto dest: find_free_order_Some)
  obtain i where p: "p = (pl, i)" and ic: "(i, c) \<in> fchunks pl ?pool"
    by (rule lists_ok_node [OF D(1) c(2,3)])
  have i: "i < npages ?pool" using buddy_inv_bounds(4) [OF inv] ic by auto
  note len = mem_wf_len [OF wf pl]
  obtain m1 where m1: "page_list_del pl (pl, i) m = Some m1"
    "upd_free_list pl c (\<lambda>fl. fl\<lparr>nr_free := nr_free fl - 1\<rparr>) m1 = upd_pool pl (pool_unlink pl i c) m"
    by (rule page_list_del_unlink [OF len ic D(1)])
  let ?m2 = "upd_pool pl (pool_unlink pl i c) m"
  let ?m3 = "upd_pool pl (pool_upd i (\<lambda>g. g\<lparr>allocated := 1\<rparr>)) ?m2"
  have fr2: "same_frame pl m ?m2" by (rule upd_pool_frame) simp
  have fr3: "same_frame pl m ?m3"
    by (rule same_frame_trans [OF fr2]) (rule upd_pool_frame, simp add: pool_upd_shape)
  have p3: "global_mem ?m3 ! pl = pool_upd i (\<lambda>g. g\<lparr>allocated := 1\<rparr>) (pool_unlink pl i c ?pool)"
    using len by simp
  have inv3: "buddy_inv pl (global_mem ?m3 ! pl) A {(i, c)}"
    unfolding p3 by (intro buddy_inv_hand_upd buddy_inv_take [OF inv ic])
  have "c - ord < BUDDY_MAX_ORDER" "pl < physmem_map_num ?m3" using c pl by simp_all
  then obtain m4 where m4: "split_chunk BUDDY_MAX_ORDER ?m3 pl ord (pl, i) = Some ((pl, i), m4)"
    "same_frame pl ?m3 m4" "buddy_inv pl (global_mem m4 ! pl) A {(i, ord)}"
    "pg_alc (global_mem m4 ! pl) i = pg_alc (global_mem ?m3 ! pl) i"
    using split_chunk_ok [OF same_frame_wf [OF fr3 wf] _ inv3 c(1)] by blast
  have "pg_alc (global_mem m4 ! pl) i = 1" unfolding m4(4) p3 using i by simp
  then have fin: "buddy_inv pl (global_mem m4 ! pl) (insert (i, ord) A) {}"
    by (rule buddy_inv_hand_to_alloc [OF m4(3)])
  have "get_page ?m2 (pl, i) = Some (page_metadata ?pool ! i)"
    using i len by (simp add: get_page_def get_pool_def)
  then have "buddy_get_pages m pl ord = Some (Some (pl, i), m4)"
    using ord f p m1 m4(1) mem_wf_get_pool [OF wf pl] D(1)
    by (simp add: buddy_get_pages_def lists_ok_def upd_page_def pool_upd_def [abs_def])
  moreover have "(i, ord) \<notin> A" using buddy_invD(2) [OF m4(3)] by auto
  ultimately show ?thesis using fin same_frame_trans [OF fr3 m4(2)] by blast
qed

section \<open>Initialisation\<close>

lemma free_each_page_ok:
  assumes "mem_wf m" "pl < physmem_map_num m" "distinct xs"
    "buddy_inv pl (global_mem m ! pl) ((\<lambda>i. (i, 0)) ` set xs) {}"
  shows "\<exists>m'. free_each_page m pl xs = Some m' \<and> same_frame pl m m' \<and>
    buddy_inv pl (global_mem m' ! pl) {} {}"
  using assms
proof (induction xs arbitrary: m)
  case Nil
  then show ?case using same_frame_refl by simp
next
  case (Cons x xs)
  let ?A = "(\<lambda>i. (i, 0 :: nat)) ` set (x # xs)"
  have A: "?A - {(x, 0)} = (\<lambda>i. (i, 0)) ` set xs" using Cons.prems(3) by auto
  have "(x, 0) \<in> ?A" by simp
  from buddy_free_pages_ok [OF Cons.prems(1,2,4) this] obtain m1 where
    m1: "buddy_free_pages m pl (pl, x) = Some m1" and fr: "same_frame pl m m1"
    and inv: "buddy_inv pl (global_mem m1 ! pl) ((\<lambda>i. (i, 0)) ` set xs) {}"
    unfolding A by blast
  have "pl < physmem_map_num m1" using fr Cons.prems(2) by (simp add: same_frame_def)
  from Cons.IH [OF same_frame_wf [OF fr Cons.prems(1)] this _ inv] Cons.prems(3)
  obtain m2 where "free_each_page m1 pl xs = Some m2" "same_frame pl m1 m2"
    "buddy_inv pl (global_mem m2 ! pl) {} {}" by auto
  then show ?case using m1 same_frame_trans [OF fr] by auto
qed

text \<open>The pool as \<open>init_buddy\<close> leaves it before the pages are freed one by one.\<close>

definition init_pool :: "nat \<Rightarrow> addr \<Rightarrow> nat \<Rightarrow> phys_mem_pool" where
  "init_pool pl start_addr page_num = \<lparr>
     pool_start_addr = start_addr,
     pool_mem_size = word_of_nat (page_num * BUDDY_PAGE_SIZE),
     page_metadata = replicate page_num (init_page pl),
     free_lists = replicate BUDDY_MAX_ORDER \<lparr>free_list = [], nr_free = 0\<rparr>,
     pool_phys_page_num = page_num\<rparr>"

lemma init_pool_inv:
  "buddy_inv pl (init_pool pl a n) ((\<lambda>i. (i, 0)) ` {..<n}) {}"
proof -
  have F: "fchunks pl (init_pool pl a n) = {}" by (auto simp: fchunks_def init_pool_def)
  have N: "npages (init_pool pl a n) = n" by (simp add: init_pool_def)
  have blk0: "blk (i, 0) = {i}" for i :: nat by (rule set_eqI) (auto simp: in_blk)
  show ?thesis
  proof (rule buddy_invI)
    show "lists_ok pl (init_pool pl a n)" by (simp add: lists_ok_def init_pool_def)
    show "coalesced pl (init_pool pl a n)" by (simp add: coalesced_def F)
    have "tiling (pool_base (init_pool pl a n)) n ((\<lambda>i. (i, 0)) ` {..<n})"
      by (rule tilingI) (auto simp: BUDDY_MAX_ORDER_def blk0)
    then show "tiling (pool_base (init_pool pl a n)) (npages (init_pool pl a n))
        ((\<lambda>i. (i, 0)) ` {..<n} \<union> {} \<union> fchunks pl (init_pool pl a n))"
      by (simp add: F N)
  qed (simp_all add: F, auto simp: init_pool_def init_page_def)
qed

lemma init_pool_wf:
  assumes "unat a = 4096 * b" "4096 * (b + n + 2 ^ BUDDY_MAX_ORDER) \<le> 2 ^ 64"
  shows "pool_wf pl (init_pool pl a n)" "pool_frames (init_pool pl a n) = {b ..< b + n}"
proof -
  have "unat (word_of_nat (n * 4096) :: u64) = n * 4096"
    using assms(2) by (intro unat_word_of_nat64) (simp add: BUDDY_MAX_ORDER_def)
  then have "unat (word_of_nat n * 4096 :: u64) = 4096 * n" by (simp add: mult.commute)
  then show "pool_wf pl (init_pool pl a n)" "pool_frames (init_pool pl a n) = {b ..< b + n}"
    using assms by (simp_all add: pool_wf_def pool_frames_def pool_base_def init_pool_def init_page_def
      BUDDY_PAGE_SIZE_def BUDDY_MAX_ORDER_def)
qed

lemma init_buddy_ok:
  assumes wf: "mem_wf m" and pl: "pl < physmem_map_num m"
    and a: "unat a = 4096 * b" and bnd: "4096 * (b + n + 2 ^ BUDDY_MAX_ORDER) \<le> 2 ^ 64" and n: "n < 2 ^ 31"
    and dis: "\<And>j. j < physmem_map_num m \<Longrightarrow> j \<noteq> pl \<Longrightarrow>
      pool_frames (global_mem m ! j) \<inter> {b ..< b + n} = {}"
  shows "\<exists>m'. init_buddy m pl a n = Some m' \<and> mem_wf m' \<and>
    buddy_inv pl (global_mem m' ! pl) {} {} \<and> pool_shape (global_mem m' ! pl) = pool_shape (init_pool pl a n) \<and>
    physmem_map_num m' = physmem_map_num m \<and> (\<forall>j. j \<noteq> pl \<longrightarrow> global_mem m' ! j = global_mem m ! j)"
proof -
  let ?m = "upd_pool pl (\<lambda>_. init_pool pl a n) m"
  note len = mem_wf_len [OF wf pl]
  have p: "global_mem ?m ! pl = init_pool pl a n" and q: "\<And>j. j \<noteq> pl \<Longrightarrow> global_mem ?m ! j = global_mem m ! j"
    using len by (simp_all add: upd_pool_def)
  have wf1: "mem_wf ?m"
    unfolding mem_wf_def
  proof (intro conjI allI impI)
    show "physmem_map_num ?m \<le> length (global_mem ?m)" using wf by (simp add: mem_wf_def)
  next
    fix j assume "j < physmem_map_num ?m"
    then show "pool_wf j (global_mem ?m ! j)"
      using init_pool_wf(1) [OF a bnd] wf p q by (cases "j = pl") (simp_all add: mem_wf_def)
  next
    fix i j assume ij: "i < physmem_map_num ?m" "j < physmem_map_num ?m" "i \<noteq> j"
    then show "pool_frames (global_mem ?m ! i) \<inter> pool_frames (global_mem ?m ! j) = {}"
      using dis [of i] dis [of j] wf p q init_pool_wf(2) [OF a bnd, of pl]
      by (cases "i = pl"; cases "j = pl") (auto simp: mem_wf_def)
  qed
  have "buddy_inv pl (global_mem ?m ! pl) ((\<lambda>i. (i, 0)) ` set [0..<n]) {}"
    unfolding p using init_pool_inv [of pl a n] by (simp add: atLeast0LessThan)
  moreover have "pl < physmem_map_num ?m" using pl by simp
  ultimately obtain m' where m': "free_each_page ?m pl [0..<n] = Some m'" "same_frame pl ?m m'"
    "buddy_inv pl (global_mem m' ! pl) {} {}"
    using free_each_page_ok [OF wf1] by (metis distinct_upt)
  have "init_buddy m pl a n = Some m'"
    using m'(1) mem_wf_get_pool [OF wf pl] n by (simp add: init_buddy_def init_pool_def)
  moreover have "mem_wf m'" by (rule same_frame_wf [OF m'(2) wf1])
  ultimately show ?thesis using m'(2,3) p q by (auto simp: same_frame_def)
qed

section \<open>Accounting\<close>

lemma tiling_sum:
  assumes t: "tiling b N C"
  shows "finite C" "(\<Sum>(i, k) \<in> C. 2 ^ k) = N"
proof -
  have "C \<subseteq> {..<N} \<times> {..<BUDDY_MAX_ORDER}" using tilingD [OF t] by auto
  then show fin: "finite C" by (rule finite_subset) simp
  have "card (\<Union> (blk ` C)) = (\<Sum>c \<in> C. card (blk c))"
    using fin tiling_blk_disjoint [OF t] by (intro card_UN_disjoint) (auto simp: blk_def split: prod.splits)
  moreover have "\<Union> (blk ` C) = {..<N}" using t by (simp add: tiling_def)
  moreover have "card (blk c) = (case c of (i, k) \<Rightarrow> 2 ^ k)" for c by (cases c) (simp add: blk_def)
  ultimately show "(\<Sum>(i, k) \<in> C. 2 ^ k) = N" by simp
qed

lemma fchunks_sum:
  assumes ok: "lists_ok pl pool"
  shows "(\<Sum>(i, k) \<in> fchunks pl pool. 2 ^ k) = (\<Sum>k < BUDDY_MAX_ORDER. length (flist pool k) * 2 ^ k)"
proof -
  let ?L = "\<lambda>k. (\<lambda>p. (snd p, k)) ` set (flist pool k)"
  have set: "set (flist pool k) \<subseteq> {pl} \<times> UNIV" if "k < BUDDY_MAX_ORDER" for k
    using ok that unfolding lists_ok_def by fastforce
  have "fchunks pl pool = (\<Union>k < BUDDY_MAX_ORDER. ?L k)"
  proof (intro equalityI subsetI)
    fix c assume "c \<in> fchunks pl pool"
    then obtain i k where "c = (i, k)" "k < BUDDY_MAX_ORDER" "(pl, i) \<in> set (flist pool k)"
      by (auto simp: fchunks_def)
    then show "c \<in> (\<Union>k < BUDDY_MAX_ORDER. ?L k)" by (force intro: rev_image_eqI)
  next
    fix c assume "c \<in> (\<Union>k < BUDDY_MAX_ORDER. ?L k)"
    then obtain k p where k: "k < BUDDY_MAX_ORDER" "p \<in> set (flist pool k)" and c: "c = (snd p, k)" by auto
    from ok k obtain i where "p = (pl, i)" "(i, k) \<in> fchunks pl pool" by (rule lists_ok_node)
    then show "c \<in> fchunks pl pool" using c by simp
  qed
  then have "(\<Sum>(i, k) \<in> fchunks pl pool. 2 ^ k) = (\<Sum>k < BUDDY_MAX_ORDER. \<Sum>(i, k) \<in> ?L k. 2 ^ k)"
    by (simp only:) (rule sum.UNION_disjoint, auto)
  also have "\<dots> = (\<Sum>k < BUDDY_MAX_ORDER. length (flist pool k) * 2 ^ k)"
  proof (rule sum.cong [OF refl])
    fix k assume "k \<in> {..<BUDDY_MAX_ORDER}"
    then have k: "k < BUDDY_MAX_ORDER" by simp
    have "inj_on (\<lambda>p. (snd p, k)) (set (flist pool k))"
      by (rule inj_on_subset [OF _ set [OF k]]) (auto simp: inj_on_def)
    then have "card (?L k) = length (flist pool k)"
      using ok k by (simp add: card_image distinct_card lists_ok_def)
    moreover have "(\<Sum>(i, l) \<in> ?L k. 2 ^ l) = (\<Sum>c \<in> ?L k. 2 ^ k :: nat)" by (rule sum.cong) auto
    ultimately show "(\<Sum>(i, l) \<in> ?L k. 2 ^ l) = length (flist pool k) * 2 ^ k" by simp
  qed
  finally show ?thesis .
qed

lemma fold_add_sum: "fold (\<lambda>k t. t + f k) xs (a :: u64) = a + (\<Sum>k \<leftarrow> xs. f k)"
  by (induction xs arbitrary: a) (simp_all add: add.assoc)

lemma free_size_chunks:
  assumes wf: "pool_wf pl pool" and inv: "buddy_inv pl pool A {}"
  shows "unat (get_free_mem_size_from_buddy pool) = 4096 * (\<Sum>(i, k) \<in> fchunks pl pool. 2 ^ k)"
    "(\<Sum>(i, k) \<in> A. 2 ^ k) + (\<Sum>(i, k) \<in> fchunks pl pool. 2 ^ k) = npages pool"
proof -
  note D = buddy_invD [OF inv]
  let ?S = "\<Sum>k < BUDDY_MAX_ORDER. length (flist pool k) * 2 ^ k"
  have T: "tiling (pool_base pool) (npages pool) (A \<union> fchunks pl pool)" using D(5) by simp
  have fin: "finite A" "finite (fchunks pl pool)" using tiling_sum(1) [OF T] by auto
  show split: "(\<Sum>(i, k) \<in> A. 2 ^ k) + (\<Sum>(i, k) \<in> fchunks pl pool. 2 ^ k) = npages pool"
    using tiling_sum(2) [OF T] sum.union_disjoint [OF fin D(3)] by metis
  have "get_free_mem_size_from_buddy pool =
      (\<Sum>k \<leftarrow> [0..<BUDDY_MAX_ORDER]. word_of_nat (length (flist pool k)) * word_of_nat (4096 * 2 ^ k))"
    unfolding get_free_mem_size_from_buddy_def fold_add_sum BUDDY_PAGE_SIZE_def add_0
    using D(1) by (intro arg_cong [where f = sum_list] map_cong) (auto simp: lists_ok_def)
  also have "\<dots> = (\<Sum>k < BUDDY_MAX_ORDER. word_of_nat (4096 * (length (flist pool k) * 2 ^ k)))"
    by (simp add: interv_sum_list_conv_sum_set_nat atLeast0LessThan mult.left_commute)
  also have "\<dots> = word_of_nat (4096 * ?S)" by (simp only: of_nat_sum sum_distrib_left)
  finally show "unat (get_free_mem_size_from_buddy pool) = 4096 * (\<Sum>(i, k) \<in> fchunks pl pool. 2 ^ k)"
    unfolding fchunks_sum [OF D(1)] using wf split [unfolded fchunks_sum [OF D(1)]]
    by (simp only:) (rule unat_word_of_nat64, simp add: pool_wf_def BUDDY_MAX_ORDER_def)
qed

lemma free_size_ok:
  assumes wf: "pool_wf pl pool" and inv: "buddy_inv pl pool A {}"
  shows "unat (get_free_mem_size_from_buddy pool) + 4096 * (\<Sum>(i, k) \<in> A. 2 ^ k) =
    unat (get_total_mem_size_from_buddy pool)"
  using wf unfolding free_size_chunks(1) [OF wf inv]
  by (simp add: get_total_mem_size_from_buddy_def pool_wf_def algebra_simps flip: free_size_chunks(2) [OF wf inv])

section \<open>All pools together\<close>

text \<open>\<open>A pl\<close> is the set of chunks that pool \<open>pl\<close> has handed out.\<close>

definition mem_inv :: "phys_mem \<Rightarrow> (nat \<Rightarrow> (nat \<times> nat) set) \<Rightarrow> bool" where
  "mem_inv m A \<longleftrightarrow> mem_wf m \<and>
     (\<forall>pl < physmem_map_num m. buddy_inv pl (global_mem m ! pl) (A pl) {})"

lemma mem_inv_upd:
  assumes "mem_inv m A" "same_frame pl m m'" "buddy_inv pl (global_mem m' ! pl) B {}"
  shows "mem_inv m' (A(pl := B))"
  using assms same_frame_wf [OF assms(2)] by (auto simp: mem_inv_def same_frame_def)

lemma mem_invD:
  assumes "mem_inv m A" "pl < physmem_map_num m"
  shows "mem_wf m" "buddy_inv pl (global_mem m ! pl) (A pl) {}"
  using assms by (simp_all add: mem_inv_def)

lemma buddy_inv_disjoint:
  assumes "buddy_inv pl pool A H" "c \<in> A" "d \<in> A" "c \<noteq> d"
  shows "blk c \<inter> blk d = {}"
  using tiling_blk_disjoint [OF buddy_invD(5) [OF assms(1)]] assms(2-) by blast

lemma mem_inv_get:
  assumes inv: "mem_inv m A" and pl: "pl < physmem_map_num m"
  shows "if \<exists>i k. (i, k) \<in> fchunks pl (global_mem m ! pl) \<and> ord \<le> k
    then \<exists>i m'. buddy_get_pages m pl ord = Some (Some (pl, i), m') \<and> same_frame pl m m' \<and>
           (i, ord) \<notin> A pl \<and> (\<forall>c \<in> A pl. blk c \<inter> blk (i, ord) = {}) \<and>
           mem_inv m' (A(pl := insert (i, ord) (A pl)))
    else buddy_get_pages m pl ord = Some (None, m)"
proof (cases "\<exists>i k. (i, k) \<in> fchunks pl (global_mem m ! pl) \<and> ord \<le> k")
  case True
  note D = mem_invD [OF inv pl]
  from True obtain i m' where m': "buddy_get_pages m pl ord = Some (Some (pl, i), m')"
    "same_frame pl m m'" "(i, ord) \<notin> A pl" "buddy_inv pl (global_mem m' ! pl) (insert (i, ord) (A pl)) {}"
    using buddy_get_pages_ok [OF D(1) pl D(2)] by blast
  have "blk c \<inter> blk (i, ord) = {}" if "c \<in> A pl" for c
    using that m'(3) by (intro buddy_inv_disjoint [OF m'(4)]) auto
  then show ?thesis using True m' mem_inv_upd [OF inv m'(2,4)] by auto
next
  case False
  then show ?thesis
    using buddy_get_pages_none [OF mem_invD(1) [OF inv pl] pl mem_invD(2) [OF inv pl]] by (auto simp: not_le)
qed

lemma mem_inv_free:
  assumes inv: "mem_inv m A" and pl: "pl < physmem_map_num m" and ik: "(i, k) \<in> A pl"
  shows "\<exists>m'. buddy_free_pages m pl (pl, i) = Some m' \<and> same_frame pl m m' \<and>
    mem_inv m' (A(pl := A pl - {(i, k)}))"
  using buddy_free_pages_ok [OF mem_invD(1) [OF inv pl] pl mem_invD(2) [OF inv pl] ik] mem_inv_upd [OF inv]
  by blast

text \<open>
  A freeing of a chunk that is not handed out stops in the assertion of \<open>buddy_free_pages\<close>.
\<close>

lemma mem_inv_double_free:
  assumes inv: "mem_inv m A" and pl: "pl < physmem_map_num m"
    and ik: "(i, k) \<in> fchunks pl (global_mem m ! pl)"
  shows "buddy_free_pages m pl (pl, i) = None"
proof -
  note D = mem_invD [OF inv pl]
  have "i < npages (global_mem m ! pl)" using buddy_inv_bounds(4) [OF D(2), of i k] ik by simp
  then show ?thesis
    using get_page_wf [OF D(1) pl] buddy_invD(9) [OF D(2) ik] by (simp add: buddy_free_pages_def)
qed

text \<open>The memory at boot: \<open>n\<close> pools whose structures are still zero.\<close>

definition boot_mem :: "nat \<Rightarrow> phys_mem" where
  "boot_mem n = \<lparr>global_mem = replicate n (init_pool 0 0 0), physmem_map_num = n\<rparr>"

lemma boot_mem_wf: "mem_wf (boot_mem n)"
proof -
  have "pool_wf pl (init_pool 0 0 0)" for pl
    by (simp add: pool_wf_def init_pool_def pool_base_def BUDDY_MAX_ORDER_def)
  moreover have "pool_frames (init_pool 0 0 0) = {}" by (simp add: pool_frames_def init_pool_def)
  ultimately show ?thesis by (simp add: mem_wf_def boot_mem_def)
qed

text \<open>Eight pages at \<open>0x1000000\<close> in the only pool.\<close>

definition demo_mem :: phys_mem where
  "demo_mem = the (init_buddy (boot_mem 1) 0 0x1000000 8)"

lemma demo_mem_inv: "mem_inv demo_mem (\<lambda>_. {})" "physmem_map_num demo_mem = 1"
  "npages (global_mem demo_mem ! 0) = 8"
proof -
  have "unat (0x1000000 :: u64) = 4096 * 4096" by simp
  from init_buddy_ok [OF boot_mem_wf, of 0 1, OF _ this, of 8]
  obtain m where "init_buddy (boot_mem 1) 0 0x1000000 8 = Some m" and wf: "mem_wf m"
    and inv: "buddy_inv 0 (global_mem m ! 0) {} {}" and n: "physmem_map_num m = 1"
    and sh: "pool_shape (global_mem m ! 0) = pool_shape (init_pool 0 0x1000000 8)"
    by (auto simp: boot_mem_def BUDDY_MAX_ORDER_def)
  then have m: "demo_mem = m" by (simp add: demo_mem_def)
  show "mem_inv demo_mem (\<lambda>_. {})" using wf inv n by (simp add: m mem_inv_def)
  show "physmem_map_num demo_mem = 1" using n by (simp add: m)
  show "npages (global_mem demo_mem ! 0) = 8"
    using same_shape_npages [OF sh] by (simp add: m init_pool_def)
qed

lemma demo_mem_free: "\<exists>i k. (i, k) \<in> fchunks 0 (global_mem demo_mem ! 0) \<and> 0 \<le> k"
proof -
  have "buddy_inv 0 (global_mem demo_mem ! 0) {} {}" using mem_invD(2) [OF demo_mem_inv(1)] demo_mem_inv(2) by simp
  from buddy_invD(5) [OF this] have "tiling (pool_base (global_mem demo_mem ! 0)) 8 (fchunks 0 (global_mem demo_mem ! 0))"
    using demo_mem_inv(3) by simp
  then show ?thesis by (rule tiling_cover [of _ _ _ 0]) auto
qed

section \<open>Properties\<close>

text \<open>
  C1. \<open>buddy_get_pages\<close> on a pool in a consistent state: when some free chunk has at least the
  requested order it returns a chunk of exactly that order that overlaps no chunk handed out
  before, and the pools stay consistent with that chunk added; otherwise it returns NULL and
  changes nothing (this includes every order from \<open>BUDDY_MAX_ORDER\<close> on). It never panics.
\<close>

theorem buddy_get_pages_correct:
  assumes "mem_inv m A" "pl < physmem_map_num m"
  shows "if \<exists>i k. (i, k) \<in> fchunks pl (global_mem m ! pl) \<and> ord \<le> k
    then \<exists>i m'. buddy_get_pages m pl ord = Some (Some (pl, i), m') \<and>
           (i, ord) \<notin> A pl \<and> (\<forall>c \<in> A pl. blk c \<inter> blk (i, ord) = {}) \<and>
           mem_inv m' (A(pl := insert (i, ord) (A pl)))
    else buddy_get_pages m pl ord = Some (None, m)"
  using mem_inv_get [OF assms, of ord] by (auto split: if_splits)

theorem buddy_get_pages_correct_witness:
  "\<exists>i m'. buddy_get_pages demo_mem 0 0 = Some (Some (0, i), m') \<and>
     mem_inv m' ((\<lambda>_. {})(0 := {(i, 0)}))"
  using buddy_get_pages_correct [OF demo_mem_inv(1), of 0 0] demo_mem_inv(2) demo_mem_free by auto

text \<open>
  C2. \<open>buddy_free_pages\<close> of a chunk that was handed out succeeds, whatever its order and its
  neighbours: the merge loop ends, the chunk is no longer handed out, and the free lists again
  tile the rest of the pool with no two free buddies left unmerged.
\<close>

theorem buddy_free_pages_correct:
  assumes "mem_inv m A" "pl < physmem_map_num m" "(i, k) \<in> A pl"
  shows "\<exists>m'. buddy_free_pages m pl (pl, i) = Some m' \<and> mem_inv m' (A(pl := A pl - {(i, k)}))"
  using mem_inv_free [OF assms] by blast

theorem buddy_free_pages_correct_witness:
  "\<exists>i m1 m2. buddy_get_pages demo_mem 0 0 = Some (Some (0, i), m1) \<and>
     buddy_free_pages m1 0 (0, i) = Some m2 \<and> mem_inv m2 ((\<lambda>_. {})(0 := {}))"
proof -
  obtain i m1 where 1: "buddy_get_pages demo_mem 0 0 = Some (Some (0, i), m1)"
    "same_frame 0 demo_mem m1" "mem_inv m1 ((\<lambda>_. {})(0 := {(i, 0)}))"
    using mem_inv_get [OF demo_mem_inv(1), of 0 0] demo_mem_inv(2) demo_mem_free by auto
  moreover have "0 < physmem_map_num m1" using 1(2) demo_mem_inv(2) by (simp add: same_frame_def)
  ultimately show ?thesis using buddy_free_pages_correct [OF 1(3), of 0 i 0] by auto
qed

text \<open>
  C3. \<open>init_buddy\<close> on page-aligned memory that overlaps no other pool gives a consistent pool
  with every page free, from the page metadata up to the merged free lists, and leaves the
  other pools alone. The number of pages has to fit the \<open>int\<close> the two loops count with; for
  more pages the loops have no defined result.
\<close>

theorem init_buddy_correct:
  assumes "mem_wf m" "pl < physmem_map_num m" "unat start_addr = 4096 * b"
    "4096 * (b + page_num + 2 ^ BUDDY_MAX_ORDER) \<le> 2 ^ 64" "page_num < 2 ^ 31"
    "\<And>j. j < physmem_map_num m \<Longrightarrow> j \<noteq> pl \<Longrightarrow>
      pool_frames (global_mem m ! j) \<inter> {b ..< b + page_num} = {}"
  shows "\<exists>m'. init_buddy m pl start_addr page_num = Some m' \<and> mem_wf m' \<and>
    buddy_inv pl (global_mem m' ! pl) {} {} \<and> npages (global_mem m' ! pl) = page_num \<and>
    pool_frames (global_mem m' ! pl) = {b ..< b + page_num} \<and>
    (\<forall>j. j \<noteq> pl \<longrightarrow> global_mem m' ! j = global_mem m ! j)"
proof -
  from init_buddy_ok [OF assms] obtain m' where m': "init_buddy m pl start_addr page_num = Some m'"
    "mem_wf m'" "buddy_inv pl (global_mem m' ! pl) {} {}"
    "\<forall>j. j \<noteq> pl \<longrightarrow> global_mem m' ! j = global_mem m ! j"
    and sh: "pool_shape (global_mem m' ! pl) = pool_shape (init_pool pl start_addr page_num)" by blast
  have "npages (global_mem m' ! pl) = page_num" "pool_frames (global_mem m' ! pl) = {b ..< b + page_num}"
    using same_shape_npages [OF sh] same_shape_wf(3) [OF sh] init_pool_wf(2) [OF assms(3,4)]
    by (simp_all add: init_pool_def)
  with m' show ?thesis by blast
qed

theorem init_buddy_correct_witness:
  "\<exists>m'. init_buddy (boot_mem 2) 1 0x2000 5 = Some m' \<and> buddy_inv 1 (global_mem m' ! 1) {} {}"
proof -
  have "4096 * (2 + 5 + 2 ^ BUDDY_MAX_ORDER) \<le> (2 ^ 64 :: nat)" by (simp add: BUDDY_MAX_ORDER_def)
  moreover have n: "physmem_map_num (boot_mem 2) = 2" by (simp add: boot_mem_def)
  moreover have "pool_frames (global_mem (boot_mem 2) ! j) = {}" if "j < 2" for j
    using that by (simp add: boot_mem_def init_pool_def pool_frames_def)
  ultimately show ?thesis
    using init_buddy_correct [OF boot_mem_wf, of 1 2 "0x2000" 2 5] by auto
qed

text \<open>
  C4. Accounting: the free size a pool reports plus the sizes of the chunks it has handed out
  is the total size it reports, as 64-bit values that do not wrap.
\<close>

theorem buddy_free_size_correct:
  assumes "mem_inv m A" "pl < physmem_map_num m"
  shows "unat (get_free_mem_size_from_buddy (global_mem m ! pl)) + 4096 * (\<Sum>(i, k) \<in> A pl. 2 ^ k) =
    unat (get_total_mem_size_from_buddy (global_mem m ! pl))"
  using free_size_ok [OF mem_wf_pool [OF mem_invD(1) [OF assms] assms(2)] mem_invD(2) [OF assms]] .

theorem buddy_free_size_correct_witness:
  "unat (get_free_mem_size_from_buddy (global_mem demo_mem ! 0)) =
   unat (get_total_mem_size_from_buddy (global_mem demo_mem ! 0))"
  using buddy_free_size_correct [OF demo_mem_inv(1), of 0] demo_mem_inv(2) by simp

text \<open>
  C5. Freeing a chunk that is on a free list (a double free of a chunk head) never corrupts the
  lists: it stops in the assertion.
\<close>

theorem buddy_double_free_panics:
  assumes "mem_inv m A" "pl < physmem_map_num m" "(i, k) \<in> fchunks pl (global_mem m ! pl)"
  shows "buddy_free_pages m pl (pl, i) = None"
  using mem_inv_double_free [OF assms] .

theorem buddy_double_free_panics_witness:
  "\<exists>i k. (i, k) \<in> fchunks 0 (global_mem demo_mem ! 0) \<and> buddy_free_pages demo_mem 0 (0, i) = None"
  using buddy_double_free_panics [OF demo_mem_inv(1), of 0] demo_mem_inv(2) demo_mem_free by fastforce

text \<open>
  C6. The two address maps are inverse: the page whose address \<open>page_to_virt\<close> returns is the one
  \<open>virt_to_page\<close> finds, over all pools.
\<close>

theorem virt_to_page_page_to_virt:
  assumes "mem_wf m" "pl < physmem_map_num m" "i < npages (global_mem m ! pl)"
  shows "\<exists>a. page_to_virt m (pl, i) = Some a \<and> virt_to_page m a = Some (pl, i)"
  using page_to_virt_eq [OF assms] virt_to_page_eq [OF assms(1,2), of "pool_base (global_mem m ! pl) + i"] assms(3)
  by (simp add: pool_frames_def)

theorem virt_to_page_page_to_virt_witness:
  "\<exists>a. page_to_virt demo_mem (0, 7) = Some a \<and> virt_to_page demo_mem a = Some (0, 7)"
  using virt_to_page_page_to_virt [of demo_mem 0 7] demo_mem_inv by (simp add: mem_inv_def)

end
