(* ===== verification/Page_Alloc.thy ===== *)
theory Page_Alloc
  imports Buddy_Correct
begin

text \<open>
  The page interface of \<open>kernel/mm/kmalloc.c\<close> on top of the buddy system (\<open>_get_pages\<close>,
  \<open>get_pages\<close>, \<open>_free_pages\<close>, \<open>free_pages\<close>, \<open>free_pages_without_record\<close>), and its contract as
  the locale \<open>page_allocator\<close>: what the slab allocator and the page tables rely on. Chunks are
  named by absolute frame numbers here, so that the contract does not mention pools.

  The parameters \<open>is_record\<close> and \<open>is_revoke_record\<close> are not read by the functions and are left out.
\<close>

section \<open>Operations\<close>

text \<open>The search over the pools in \<open>_get_pages\<close>.\<close>

fun get_from_pools :: "phys_mem \<Rightarrow> nat \<Rightarrow> nat list \<Rightarrow> (page_ptr option \<times> phys_mem) option" where
  "get_from_pools m ord [] = Some (None, m)"
| "get_from_pools m ord (i # is) =
     do { (pg, m1) \<leftarrow> buddy_get_pages m i ord;
          case pg of Some p \<Rightarrow> Some (Some p, m1) | None \<Rightarrow> get_from_pools m1 ord is }"

definition get_pages' :: "phys_mem \<Rightarrow> nat \<Rightarrow> (addr \<times> phys_mem) option" where
  "get_pages' m ord =
     do { (pg, m1) \<leftarrow> get_from_pools m ord [0..<physmem_map_num m];
          case pg of
            None \<Rightarrow> Some (NULL, m1)
          | Some p \<Rightarrow> do { a \<leftarrow> page_to_virt m1 p; Some (a, m1) } }"

definition get_pages :: "phys_mem \<Rightarrow> nat \<Rightarrow> (addr \<times> phys_mem) option" where
  "get_pages m ord = get_pages' m ord"

definition free_pages' :: "phys_mem \<Rightarrow> addr \<Rightarrow> phys_mem option" where
  "free_pages' m a =
     do { p \<leftarrow> virt_to_page m a;
          pg \<leftarrow> get_page m p;
          pl \<leftarrow> page_pool pg;
          buddy_free_pages m pl p }"

definition free_pages :: "phys_mem \<Rightarrow> addr \<Rightarrow> phys_mem option" where
  "free_pages m a = free_pages' m a"

definition free_pages_without_record :: "phys_mem \<Rightarrow> addr \<Rightarrow> phys_mem option" where
  "free_pages_without_record m a = free_pages' m a"

section \<open>Frames of all pools\<close>

text \<open>The chunks handed out, with absolute frame numbers.\<close>

definition chunks :: "phys_mem \<Rightarrow> (nat \<Rightarrow> (nat \<times> nat) set) \<Rightarrow> (nat \<times> nat) set" where
  "chunks m A = {(pool_base (global_mem m ! pl) + i, k) | pl i k. pl < physmem_map_num m \<and> (i, k) \<in> A pl}"

definition pages_inv :: "phys_mem \<Rightarrow> (nat \<times> nat) set \<Rightarrow> bool" where
  "pages_inv m C \<longleftrightarrow> (\<exists>A. mem_inv m A \<and> C = chunks m A) \<and>
     (\<forall>pl < physmem_map_num m. 0 < pool_base (global_mem m ! pl))"

text \<open>A free chunk of at least the given order exists in some pool.\<close>

definition can_get :: "phys_mem \<Rightarrow> nat \<Rightarrow> bool" where
  "can_get m ord \<longleftrightarrow> (\<exists>pl < physmem_map_num m. \<exists>i k. (i, k) \<in> fchunks pl (global_mem m ! pl) \<and> ord \<le> k)"

text \<open>The \<open>slab\<close> field of the page with frame number \<open>F\<close>, when some pool has that frame.\<close>

definition slab_at :: "phys_mem \<Rightarrow> nat \<Rightarrow> addr option" where
  "slab_at m F = do { p \<leftarrow> virt_to_page m (frame_addr F); pg \<leftarrow> get_page m p; Some (slab pg) }"

lemma chunksE:
  assumes "(F, k) \<in> chunks m A"
  obtains pl i where "pl < physmem_map_num m" "(i, k) \<in> A pl" "F = pool_base (global_mem m ! pl) + i"
  using assms by (auto simp: chunks_def)

lemma same_frame_pool:
  assumes "same_frame pl m m'"
  shows "pool_base (global_mem m' ! q) = pool_base (global_mem m ! q)"
    "npages (global_mem m' ! q) = npages (global_mem m ! q)"
    "pool_frames (global_mem m' ! q) = pool_frames (global_mem m ! q)"
    "physmem_map_num m' = physmem_map_num m"
proof -
  have "pool_shape (global_mem m' ! q) = pool_shape (global_mem m ! q)"
    using assms by (cases "q = pl") (auto simp: same_frame_def)
  from same_shape_wf(2,3) [OF this] same_shape_npages [OF this] assms
  show "pool_base (global_mem m' ! q) = pool_base (global_mem m ! q)"
    "npages (global_mem m' ! q) = npages (global_mem m ! q)"
    "pool_frames (global_mem m' ! q) = pool_frames (global_mem m ! q)"
    "physmem_map_num m' = physmem_map_num m" by (simp_all add: same_frame_def)
qed

lemma same_frame_slab:
  assumes "same_frame pl m m'" "i < npages (global_mem m ! q)"
  shows "slab (page_metadata (global_mem m' ! q) ! i) = slab (page_metadata (global_mem m ! q) ! i)"
proof -
  have sh: "pool_shape (global_mem m' ! q) = pool_shape (global_mem m ! q)"
    using assms by (cases "q = pl") (auto simp: same_frame_def)
  then have "map (\<lambda>g. (slab g, page_pool g)) (page_metadata (global_mem m' ! q)) ! i =
    map (\<lambda>g. (slab g, page_pool g)) (page_metadata (global_mem m ! q)) ! i"
    unfolding pool_shape_def by simp
  then show ?thesis using assms(2) same_shape_npages [OF sh] by simp
qed

lemma slab_at_eq:
  assumes "mem_wf m" "pl < physmem_map_num m" "i < npages (global_mem m ! pl)"
  shows "slab_at m (pool_base (global_mem m ! pl) + i) = Some (slab (page_metadata (global_mem m ! pl) ! i))"
  using assms virt_to_page_eq [OF assms(1,2), of "pool_base (global_mem m ! pl) + i"] get_page_wf [OF assms]
  by (simp add: slab_at_def pool_frames_def)

definition frame_known :: "phys_mem \<Rightarrow> nat \<Rightarrow> bool" where
  "frame_known m F \<longleftrightarrow> (\<exists>pl < physmem_map_num m. F \<in> pool_frames (global_mem m ! pl))"

lemma frame_knownE:
  assumes "frame_known m F"
  obtains pl i where "pl < physmem_map_num m" "i < npages (global_mem m ! pl)"
    "F = pool_base (global_mem m ! pl) + i"
proof -
  from assms obtain pl where "pl < physmem_map_num m" "F \<in> pool_frames (global_mem m ! pl)"
    by (auto simp: frame_known_def)
  then show ?thesis using that [of pl "F - pool_base (global_mem m ! pl)"] by (auto simp: pool_frames_def)
qed

lemma same_frame_known: "same_frame pl m m' \<Longrightarrow> frame_known m' F = frame_known m F"
  by (simp add: frame_known_def same_frame_pool)

lemma same_frame_slab_at:
  assumes wf: "mem_wf m" and fr: "same_frame pl m m'" and F: "frame_known m F"
  shows "slab_at m' F = slab_at m F"
  using F
proof (rule frame_knownE)
  fix q i assume "q < physmem_map_num m" "i < npages (global_mem m ! q)" "F = pool_base (global_mem m ! q) + i"
  then show ?thesis
    using slab_at_eq [OF wf, of q i] slab_at_eq [OF same_frame_wf [OF fr wf], of q i]
      same_frame_pool(1-3) [OF fr, of q] same_frame_pool(4) [OF fr] same_frame_slab [OF fr, of i q] by simp
qed

lemma frame_knownI: "pl < physmem_map_num m \<Longrightarrow> i < npages (global_mem m ! pl) \<Longrightarrow>
  frame_known m (pool_base (global_mem m ! pl) + i)"
  by (auto simp: frame_known_def pool_frames_def)

section \<open>Getting and freeing pages\<close>

lemma frame_unique:
  assumes "mem_wf m" "ql < physmem_map_num m" "pl < physmem_map_num m"
    "j < npages (global_mem m ! ql)" "i < npages (global_mem m ! pl)"
    and eq: "pool_base (global_mem m ! ql) + j = pool_base (global_mem m ! pl) + i"
  shows "ql = pl \<and> j = i"
proof -
  have "pool_base (global_mem m ! ql) + j \<in> pool_frames (global_mem m ! ql)"
    "pool_base (global_mem m ! ql) + j \<in> pool_frames (global_mem m ! pl)"
    using assms(4,5) by (simp_all add: pool_frames_def eq, simp_all add: pool_frames_def flip: eq)
  from frame_pool_unique [OF assms(1-3) this] eq show ?thesis by simp
qed

lemma same_frame_chunks: "same_frame pl m m' \<Longrightarrow> chunks m' A = chunks m A"
  by (simp add: chunks_def same_frame_pool)

lemma chunks_insert:
  assumes "pl < physmem_map_num m"
  shows "chunks m (A(pl := insert (i, k) (A pl))) = insert (pool_base (global_mem m ! pl) + i, k) (chunks m A)"
proof (intro equalityI subsetI)
  fix c assume "c \<in> chunks m (A(pl := insert (i, k) (A pl)))"
  then show "c \<in> insert (pool_base (global_mem m ! pl) + i, k) (chunks m A)"
    by (auto simp: chunks_def split: if_splits)
next
  fix c assume "c \<in> insert (pool_base (global_mem m ! pl) + i, k) (chunks m A)"
  then consider "c = (pool_base (global_mem m ! pl) + i, k)" | "c \<in> chunks m A" by blast
  then show "c \<in> chunks m (A(pl := insert (i, k) (A pl)))"
  proof cases
    case 1 then show ?thesis using assms by (auto simp: chunks_def intro!: exI [of _ pl])
  next
    case 2
    then obtain ql j l where c: "c = (pool_base (global_mem m ! ql) + j, l)" "ql < physmem_map_num m" "(j, l) \<in> A ql"
      by (auto simp: chunks_def)
    then have "(j, l) \<in> (A(pl := insert (i, k) (A pl))) ql" by auto
    with c(1,2) show ?thesis unfolding chunks_def by blast
  qed
qed

lemma mem_inv_chunk:
  assumes inv: "mem_inv m A" and F: "(F, k) \<in> chunks m A"
  obtains pl i where "pl < physmem_map_num m" "(i, k) \<in> A pl" "F = pool_base (global_mem m ! pl) + i"
    "i + 2 ^ k \<le> npages (global_mem m ! pl)" "{F ..< F + 2 ^ k} \<subseteq> pool_frames (global_mem m ! pl)"
    "k < BUDDY_MAX_ORDER"
proof -
  from F obtain pl i where p: "pl < physmem_map_num m" "(i, k) \<in> A pl" "F = pool_base (global_mem m ! pl) + i"
    by (rule chunksE)
  have "i + 2 ^ k \<le> npages (global_mem m ! pl)" "k < BUDDY_MAX_ORDER"
    using buddy_inv_bounds(1,2) [OF mem_invD(2) [OF inv p(1)], of i k] p(2) by simp_all
  with p show ?thesis using that by (auto simp: pool_frames_def)
qed

lemma chunks_disjoint:
  assumes inv: "mem_inv m A" and c: "c \<in> chunks m A" and d: "d \<in> chunks m A" and ne: "c \<noteq> d"
  shows "blk c \<inter> blk d = {}"
proof -
  obtain F k where c': "c = (F, k)" by (cases c)
  obtain G l where d': "d = (G, l)" by (cases d)
  obtain pl i where p: "pl < physmem_map_num m" "(i, k) \<in> A pl" "F = pool_base (global_mem m ! pl) + i"
    "{F ..< F + 2 ^ k} \<subseteq> pool_frames (global_mem m ! pl)"
    using c unfolding c' by (rule mem_inv_chunk [OF inv]) blast
  obtain ql j where q: "ql < physmem_map_num m" "(j, l) \<in> A ql" "G = pool_base (global_mem m ! ql) + j"
    "{G ..< G + 2 ^ l} \<subseteq> pool_frames (global_mem m ! ql)"
    using d unfolding d' by (rule mem_inv_chunk [OF inv]) blast
  show ?thesis
  proof (cases "pl = ql")
    case True
    then have "blk (i, k) \<inter> blk (j, l) = {}"
      using p q ne c' d' by (intro buddy_inv_disjoint [OF mem_invD(2) [OF inv p(1)]]) auto
    then show ?thesis using True p(3) q(3) unfolding c' d' blk_def by fastforce
  next
    case False
    then have "pool_frames (global_mem m ! pl) \<inter> pool_frames (global_mem m ! ql) = {}"
      using mem_invD(1) [OF inv p(1)] p(1) q(1) by (simp add: mem_wf_def)
    then have "{F ..< F + 2 ^ k} \<inter> {G ..< G + 2 ^ l} = {}" using p(4) q(4) by blast
    then show ?thesis by (simp only: c' d' blk_def fst_conv snd_conv)
  qed
qed

lemma chunks_unique:
  assumes inv: "mem_inv m A" and p: "pl < physmem_map_num m" "(i, k) \<in> A pl"
  shows "chunks m (A(pl := A pl - {(i, k)})) = chunks m A - {(pool_base (global_mem m ! pl) + i, k)}"
proof -
  have eq: "ql = pl \<and> j = i" if "ql < physmem_map_num m" "(j, k) \<in> A ql"
    "pool_base (global_mem m ! ql) + j = pool_base (global_mem m ! pl) + i" for ql j
  proof -
    have "i < npages (global_mem m ! pl)" "j < npages (global_mem m ! ql)"
      using buddy_inv_bounds(4) [OF mem_invD(2) [OF inv]] p that by blast+
    then show ?thesis using frame_unique [OF mem_invD(1) [OF inv p(1)] that(1) p(1)] that(3) by blast
  qed
  show ?thesis
  proof (intro equalityI subsetI)
    fix c assume "c \<in> chunks m (A(pl := A pl - {(i, k)}))"
    then obtain ql j l where c: "c = (pool_base (global_mem m ! ql) + j, l)" "ql < physmem_map_num m"
      "(j, l) \<in> A ql" "ql = pl \<longrightarrow> (j, l) \<noteq> (i, k)" by (auto simp: chunks_def split: if_splits)
    then have "c \<in> chunks m A" by (auto simp: chunks_def)
    moreover have "c \<noteq> (pool_base (global_mem m ! pl) + i, k)" using c eq by auto
    ultimately show "c \<in> chunks m A - {(pool_base (global_mem m ! pl) + i, k)}" by simp
  next
    fix c assume c: "c \<in> chunks m A - {(pool_base (global_mem m ! pl) + i, k)}"
    then obtain ql j l where "c = (pool_base (global_mem m ! ql) + j, l)" "ql < physmem_map_num m" "(j, l) \<in> A ql"
      by (auto simp: chunks_def)
    moreover from this have "(j, l) \<in> (A(pl := A pl - {(i, k)})) ql" using c by auto
    ultimately show "c \<in> chunks m (A(pl := A pl - {(i, k)}))" unfolding chunks_def by blast
  qed
qed

lemma get_from_pools_ok:
  assumes inv: "mem_inv m A" and xs: "set xs \<subseteq> {..<physmem_map_num m}"
  shows "if \<exists>pl \<in> set xs. \<exists>i k. (i, k) \<in> fchunks pl (global_mem m ! pl) \<and> ord \<le> k
    then \<exists>pl i m'. get_from_pools m ord xs = Some (Some (pl, i), m') \<and> pl < physmem_map_num m \<and>
           same_frame pl m m' \<and> (i, ord) \<notin> A pl \<and> mem_inv m' (A(pl := insert (i, ord) (A pl)))
    else get_from_pools m ord xs = Some (None, m)"
  using xs
proof (induction xs)
  case Nil
  show ?case by simp
next
  case (Cons q xs)
  then have q: "q < physmem_map_num m" by simp
  note G = mem_inv_get [OF inv q, of ord]
  show ?case
  proof (cases "\<exists>i k. (i, k) \<in> fchunks q (global_mem m ! q) \<and> ord \<le> k")
    case True
    with G obtain i m' where g: "buddy_get_pages m q ord = Some (Some (q, i), m')" and rest: "same_frame q m m'"
      "(i, ord) \<notin> A q" "mem_inv m' (A(q := insert (i, ord) (A q)))" by auto
    have "get_from_pools m ord (q # xs) = Some (Some (q, i), m')" using g by simp
    moreover have "\<exists>pl \<in> set (q # xs). \<exists>i k. (i, k) \<in> fchunks pl (global_mem m ! pl) \<and> ord \<le> k"
      using True by auto
    ultimately show ?thesis using q rest by (simp only: if_True) blast
  next
    case False
    with G have "buddy_get_pages m q ord = Some (None, m)" by (simp only: if_False)
    then have g: "get_from_pools m ord (q # xs) = get_from_pools m ord xs" by simp
    have c: "(\<exists>pl \<in> set (q # xs). \<exists>i k. (i, k) \<in> fchunks pl (global_mem m ! pl) \<and> ord \<le> k) \<longleftrightarrow>
        (\<exists>pl \<in> set xs. \<exists>i k. (i, k) \<in> fchunks pl (global_mem m ! pl) \<and> ord \<le> k)"
      using False by auto
    have "set xs \<subseteq> {..<physmem_map_num m}" using Cons.prems by simp
    then show ?thesis unfolding g c by (rule Cons.IH)
  qed
qed

lemma get_pages'_ok:
  assumes inv: "pages_inv m C"
  shows "if can_get m ord
    then \<exists>F m'. get_pages' m ord = Some (frame_addr F, m') \<and> (F, ord) \<notin> C \<and> pages_inv m' (insert (F, ord) C) \<and>
           (\<exists>pl. same_frame pl m m')
    else get_pages' m ord = Some (NULL, m)"
proof -
  from inv obtain A where A: "mem_inv m A" and C: "C = chunks m A"
    and pos: "\<forall>pl < physmem_map_num m. 0 < pool_base (global_mem m ! pl)" by (auto simp: pages_inv_def)
  have G: "if can_get m ord
    then \<exists>pl i m'. get_from_pools m ord [0..<physmem_map_num m] = Some (Some (pl, i), m') \<and> pl < physmem_map_num m \<and>
           same_frame pl m m' \<and> (i, ord) \<notin> A pl \<and> mem_inv m' (A(pl := insert (i, ord) (A pl)))
    else get_from_pools m ord [0..<physmem_map_num m] = Some (None, m)"
  proof -
    have s: "set [0..<physmem_map_num m] \<subseteq> {..<physmem_map_num m}" by auto
    have c: "can_get m ord \<longleftrightarrow> (\<exists>pl \<in> set [0..<physmem_map_num m].
        \<exists>i k. (i, k) \<in> fchunks pl (global_mem m ! pl) \<and> ord \<le> k)" by (simp add: can_get_def Bex_def)
    show ?thesis unfolding c by (rule get_from_pools_ok [OF A s])
  qed
  show ?thesis
  proof (cases "can_get m ord")
    case False
    with G show ?thesis by (simp add: get_pages'_def)
  next
    case True
    with G obtain pl i m' where g: "get_from_pools m ord [0..<physmem_map_num m] = Some (Some (pl, i), m')"
      and pl: "pl < physmem_map_num m" and fr: "same_frame pl m m'" and new: "(i, ord) \<notin> A pl"
      and inv': "mem_inv m' (A(pl := insert (i, ord) (A pl)))" by auto
    let ?F = "pool_base (global_mem m ! pl) + i"
    note P = same_frame_pool [OF fr]
    have pl': "pl < physmem_map_num m'" using pl P(4) by simp
    have i: "i < npages (global_mem m' ! pl)"
      using buddy_inv_bounds(4) [OF mem_invD(2) [OF inv' pl'], of i ord] by simp
    have "get_pages' m ord = Some (frame_addr ?F, m')"
      using g page_to_virt_eq [OF mem_invD(1) [OF inv' pl'] pl' i] P(1) by (simp add: get_pages'_def)
    moreover have "chunks m' (A(pl := insert (i, ord) (A pl))) = insert (?F, ord) C"
      using chunks_insert [OF pl', of A i ord] same_frame_chunks [OF fr] P(1) by (simp add: C)
    moreover have "(?F, ord) \<notin> C"
    proof
      assume "(?F, ord) \<in> C"
      then obtain ql j where "ql < physmem_map_num m" "(j, ord) \<in> A ql"
        "?F = pool_base (global_mem m ! ql) + j" unfolding C by (rule chunksE)
      moreover from this have "j < npages (global_mem m ! ql)"
        using buddy_inv_bounds(4) [OF mem_invD(2) [OF A]] by blast
      ultimately have "ql = pl" "j = i"
        using frame_unique [OF mem_invD(1) [OF A pl], of ql pl j i] pl i P(2) by simp_all
      then show False using new \<open>(j, ord) \<in> A ql\<close> by simp
    qed
    moreover have "\<forall>ql < physmem_map_num m'. 0 < pool_base (global_mem m' ! ql)" using pos P by simp
    ultimately show ?thesis using True inv' fr unfolding pages_inv_def by auto
  qed
qed

lemma free_pages'_ok:
  assumes inv: "pages_inv m C" and F: "(F, k) \<in> C"
  shows "\<exists>m'. free_pages' m (frame_addr F) = Some m' \<and> pages_inv m' (C - {(F, k)}) \<and> (\<exists>pl. same_frame pl m m')"
proof -
  from inv obtain A where A: "mem_inv m A" and C: "C = chunks m A"
    and pos: "\<forall>pl < physmem_map_num m. 0 < pool_base (global_mem m ! pl)" by (auto simp: pages_inv_def)
  obtain pl i where p: "pl < physmem_map_num m" "(i, k) \<in> A pl" "F = pool_base (global_mem m ! pl) + i"
    using F unfolding C by (rule chunksE)
  have i: "i < npages (global_mem m ! pl)"
    using buddy_inv_bounds(4) [OF mem_invD(2) [OF A p(1)]] p(2) by blast
  obtain m' where m': "buddy_free_pages m pl (pl, i) = Some m'" "same_frame pl m m'"
    "mem_inv m' (A(pl := A pl - {(i, k)}))" using mem_inv_free [OF A p(1,2)] by blast
  note wf = mem_invD(1) [OF A p(1)]
  have v: "virt_to_page m (frame_addr F) = Some (pl, i)"
    using virt_to_page_eq [OF wf p(1), of F] i p(3) by (simp add: pool_frames_def)
  have "page_pool (page_metadata (global_mem m ! pl) ! i) = Some pl"
    using mem_wf_pool [OF wf p(1)] i by (auto simp: pool_wf_def)
  then have "free_pages' m (frame_addr F) = Some m'"
    using v get_page_wf [OF wf p(1) i] m'(1) by (simp add: free_pages'_def)
  moreover have "chunks m' (A(pl := A pl - {(i, k)})) = C - {(F, k)}"
    using chunks_unique [OF A p(1,2)] p(3) by (simp add: same_frame_chunks [OF m'(2)] C)
  moreover have "\<forall>ql < physmem_map_num m'. 0 < pool_base (global_mem m' ! ql)"
    using pos same_frame_pool [OF m'(2)] by simp
  ultimately show ?thesis using m'(2,3) unfolding pages_inv_def by metis
qed

lemma pages_inv_range:
  assumes inv: "pages_inv m C" and F: "(F, k) \<in> C"
  shows "0 < F" "4096 * (F + 2 ^ k) < 2 ^ 64" "k < BUDDY_MAX_ORDER" "\<And>G. G \<in> blk (F, k) \<Longrightarrow> frame_known m G"
proof -
  from inv obtain A where A: "mem_inv m A" and C: "C = chunks m A"
    and pos: "\<forall>pl < physmem_map_num m. 0 < pool_base (global_mem m ! pl)" by (auto simp: pages_inv_def)
  obtain pl i where p: "pl < physmem_map_num m" "F = pool_base (global_mem m ! pl) + i"
    "i + 2 ^ k \<le> npages (global_mem m ! pl)" "{F ..< F + 2 ^ k} \<subseteq> pool_frames (global_mem m ! pl)"
    and k: "k < BUDDY_MAX_ORDER"
    using F unfolding C by (rule mem_inv_chunk [OF A]) blast
  show "k < BUDDY_MAX_ORDER" by (rule k)
  have "pool_wf pl (global_mem m ! pl)" using mem_wf_pool [OF mem_invD(1) [OF A p(1)] p(1)] .
  then show "4096 * (F + 2 ^ k) < 2 ^ 64" using p(2,3) by (simp add: pool_wf_def BUDDY_MAX_ORDER_def)
  show "0 < F" using pos p(1,2) by simp
  show "frame_known m G" if "G \<in> blk (F, k)" for G
    using that p(1,4) unfolding frame_known_def by (auto simp: subset_iff)
qed

lemma pages_inv_disjoint:
  assumes "pages_inv m C" "c \<in> C" "d \<in> C" "c \<noteq> d"
  shows "blk c \<inter> blk d = {}"
  using assms chunks_disjoint unfolding pages_inv_def by blast

section \<open>The contract of the page allocator\<close>

text \<open>
  \<open>pinv m C\<close>: the allocator is consistent and \<open>C\<close> is the set of chunks (frame number, order) its
  clients hold.
\<close>

locale page_allocator =
  fixes pinv :: "'m \<Rightarrow> (nat \<times> nat) set \<Rightarrow> bool"
    and gets :: "'m \<Rightarrow> nat \<Rightarrow> (addr \<times> 'm) option"
    and frees :: "'m \<Rightarrow> addr \<Rightarrow> 'm option"
  assumes gets_ok: "pinv m C \<Longrightarrow> gets m k = Some (NULL, m) \<or>
      (\<exists>F m'. gets m k = Some (frame_addr F, m') \<and> (F, k) \<notin> C \<and> pinv m' (insert (F, k) C))"
    and frees_ok: "pinv m C \<Longrightarrow> (F, k) \<in> C \<Longrightarrow> \<exists>m'. frees m (frame_addr F) = Some m' \<and> pinv m' (C - {(F, k)})"
    and apart: "pinv m C \<Longrightarrow> c \<in> C \<Longrightarrow> d \<in> C \<Longrightarrow> c \<noteq> d \<Longrightarrow> blk c \<inter> blk d = {}"
    and range: "pinv m C \<Longrightarrow> (F, k) \<in> C \<Longrightarrow> 0 < F \<and> 4096 * (F + 2 ^ k) < 2 ^ 64"
begin

lemma frame_addr_chunk:
  assumes "pinv m C" "(F, k) \<in> C"
  shows "unat (frame_addr F) = 4096 * F" "frame_addr F \<noteq> NULL"
proof -
  have r: "0 < F" "4096 * F < 2 ^ 64" using range [OF assms] by simp_all
  then show u: "unat (frame_addr F) = 4096 * F" by simp
  show "frame_addr F \<noteq> NULL" using u r(1) by auto
qed

text \<open>A successful request never returns memory that overlaps a chunk in use, byte for byte.\<close>

lemma gets_bytes_fresh:
  assumes inv: "pinv m C" and g: "gets m k = Some (a, m')" and ne: "a \<noteq> NULL" and c: "(G, l) \<in> C"
  shows "{unat a ..< unat a + 4096 * 2 ^ k} \<inter>
    {unat (frame_addr G) ..< unat (frame_addr G) + 4096 * 2 ^ l} = {}"
proof -
  from gets_ok [OF inv, of k] g ne obtain F where a: "a = frame_addr F" and new: "(F, k) \<notin> C"
    and inv': "pinv m' (insert (F, k) C)" by auto
  have "blk (F, k) \<inter> blk (G, l) = {}" using apart [OF inv', of "(F, k)" "(G, l)"] new c by auto
  then have "F + 2 ^ k \<le> G \<or> G + 2 ^ l \<le> F" by (auto simp: blk_def simp del: in_blk)
  then have "4096 * F + 4096 * 2 ^ k \<le> 4096 * G \<or> 4096 * G + 4096 * 2 ^ l \<le> 4096 * F" by linarith
  moreover have "unat a = 4096 * F" "unat (frame_addr G) = 4096 * G"
    using frame_addr_chunk [OF inv', of F k] frame_addr_chunk [OF inv c] a by auto
  ultimately show ?thesis by (elim disjE) (simp_all only:, auto)
qed

text \<open>What is taken can be given back at once.\<close>

lemma gets_frees:
  assumes inv: "pinv m C" and g: "gets m k = Some (a, m')" and ne: "a \<noteq> NULL"
  shows "\<exists>m''. frees m' a = Some m'' \<and> pinv m'' C"
proof -
  from gets_ok [OF inv, of k] g ne obtain F where a: "a = frame_addr F" and new: "(F, k) \<notin> C"
    and inv': "pinv m' (insert (F, k) C)" by auto
  from frees_ok [OF inv', of F k] a new show ?thesis by auto
qed

end

interpretation pa: page_allocator pages_inv get_pages free_pages
proof
  fix m C k
  assume "pages_inv m C"
  from get_pages'_ok [OF this, of k] show "get_pages m k = Some (NULL, m) \<or>
      (\<exists>F m'. get_pages m k = Some (frame_addr F, m') \<and> (F, k) \<notin> C \<and> pages_inv m' (insert (F, k) C))"
    unfolding get_pages_def by (auto split: if_splits)
next
  fix m C F k
  assume "pages_inv m C" "(F, k) \<in> C"
  then show "\<exists>m'. free_pages m (frame_addr F) = Some m' \<and> pages_inv m' (C - {(F, k)})"
    unfolding free_pages_def using free_pages'_ok by blast
next
  fix m C and c d :: "nat \<times> nat"
  assume "pages_inv m C" "c \<in> C" "d \<in> C" "c \<noteq> d"
  then show "blk c \<inter> blk d = {}" by (rule pages_inv_disjoint)
next
  fix m C F k
  assume "pages_inv m C" "(F, k) \<in> C"
  then show "0 < F \<and> 4096 * (F + 2 ^ k) < 2 ^ 64" using pages_inv_range(1,2) by blast
qed

section \<open>The slab field of a page\<close>

abbreviation pool_set_slab :: "nat \<Rightarrow> addr \<Rightarrow> phys_mem_pool \<Rightarrow> phys_mem_pool" where
  "pool_set_slab i v \<equiv> pool_upd i (\<lambda>g. g\<lparr>slab := v\<rparr>)"

lemma pool_set_slab_page:
  "allocated (page_metadata (pool_set_slab i v pool) ! j) = allocated (page_metadata pool ! j)"
  "order (page_metadata (pool_set_slab i v pool) ! j) = order (page_metadata pool ! j)"
  by (cases "i < npages pool"; cases "j = i"; simp add: pool_upd_def list_update_beyond)+

lemma pool_set_slab_inv:
  assumes "buddy_inv pl pool A H"
  shows "buddy_inv pl (pool_set_slab i v pool) A H"
proof (rule buddy_invI)
  note D = buddy_invD [OF assms]
  show "coalesced pl (pool_set_slab i v pool)" using D(6) by (rule coalesced_subset) simp_all
qed (use buddy_invD [OF assms] in \<open>simp_all add: pool_set_slab_page\<close>)

lemma pool_set_slab_wf:
  assumes "pool_wf pl pool"
  shows "pool_wf pl (pool_set_slab i v pool)" "pool_frames (pool_set_slab i v pool) = pool_frames pool"
proof -
  have "page_pool g = Some pl" if g: "g \<in> set (page_metadata (pool_set_slab i v pool))" for g
  proof (cases "i < npages pool")
    case True
    have "g \<in> insert ((page_metadata pool ! i)\<lparr>slab := v\<rparr>) (set (page_metadata pool))"
      using g set_update_subset_insert by (force simp: pool_upd_def)
    then show ?thesis using assms True by (auto simp: pool_wf_def)
  next
    case False
    then show ?thesis using assms g by (simp add: pool_upd_def pool_wf_def list_update_beyond)
  qed
  then show "pool_wf pl (pool_set_slab i v pool)" using assms by (simp add: pool_wf_def pool_upd_def pool_base_def)
  show "pool_frames (pool_set_slab i v pool) = pool_frames pool" by (simp add: pool_frames_def)
qed

lemma set_slab_mem:
  assumes inv: "mem_inv m A" and pl: "pl < physmem_map_num m"
    and m'_def: "m' = upd_pool pl (pool_set_slab i v) m"
  shows "mem_inv m' A" "chunks m' A = chunks m A" "\<And>G. frame_known m' G = frame_known m G"
    "\<And>q. pool_base (global_mem m' ! q) = pool_base (global_mem m ! q)"
    "\<And>q. npages (global_mem m' ! q) = npages (global_mem m ! q)"
proof -
  note len = mem_wf_len [OF mem_invD(1) [OF inv pl] pl]
  have p: "global_mem m' ! q = (if q = pl then pool_set_slab i v (global_mem m ! q) else global_mem m ! q)" for q
    using len by (auto simp: m'_def upd_pool_def)
  have n: "physmem_map_num m' = physmem_map_num m" "length (global_mem m') = length (global_mem m)"
    by (simp_all add: m'_def)
  show b: "pool_base (global_mem m' ! q) = pool_base (global_mem m ! q)"
    "npages (global_mem m' ! q) = npages (global_mem m ! q)" for q by (simp_all add: p)
  have fr: "pool_frames (global_mem m' ! q) = pool_frames (global_mem m ! q)" for q
    by (simp add: p pool_frames_def)
  show "chunks m' A = chunks m A" by (simp add: chunks_def n b)
  show "frame_known m' G = frame_known m G" for G by (simp add: frame_known_def fr n)
  have "mem_wf m'"
    using mem_invD(1) [OF inv pl] pool_set_slab_wf(1) unfolding mem_wf_def fr n by (simp add: p)
  then show "mem_inv m' A"
    using inv pool_set_slab_inv unfolding mem_inv_def n by (simp add: p)
qed

lemma set_slab_field:
  assumes inv: "pages_inv m C" and F: "frame_known m F"
  shows "\<exists>p pg. virt_to_page m (frame_addr F) = Some p \<and> get_page m p = Some pg \<and>
    pages_inv (upd_page p (\<lambda>g. g\<lparr>slab := v\<rparr>) m) C \<and>
    (\<forall>G. frame_known (upd_page p (\<lambda>g. g\<lparr>slab := v\<rparr>) m) G = frame_known m G) \<and>
    (\<forall>G. frame_known m G \<longrightarrow> slab_at (upd_page p (\<lambda>g. g\<lparr>slab := v\<rparr>) m) G =
      (if G = F then Some v else slab_at m G))"
  using F
proof (rule frame_knownE)
  fix pl i
  assume pl: "pl < physmem_map_num m" and i: "i < npages (global_mem m ! pl)"
    and Fi: "F = pool_base (global_mem m ! pl) + i"
  from inv obtain A where A: "mem_inv m A" and C: "C = chunks m A"
    and pos: "\<forall>pl < physmem_map_num m. 0 < pool_base (global_mem m ! pl)" by (auto simp: pages_inv_def)
  note wf = mem_invD(1) [OF A pl]
  let ?m = "upd_pool pl (pool_set_slab i v) m"
  note S = set_slab_mem [OF A pl refl, of i v]
  have eq: "upd_page (pl, i) (\<lambda>g. g\<lparr>slab := v\<rparr>) m = ?m" by (simp add: upd_page_def pool_upd_def [abs_def])
  have "virt_to_page m (frame_addr F) = Some (pl, i)"
    using virt_to_page_eq [OF wf pl, of F] i Fi by (simp add: pool_frames_def)
  moreover have "get_page m (pl, i) = Some (page_metadata (global_mem m ! pl) ! i)"
    by (rule get_page_wf [OF wf pl i])
  moreover have "pages_inv ?m C"
    unfolding pages_inv_def using S pos C by auto
  moreover have "slab_at ?m G = (if G = F then Some v else slab_at m G)" if "frame_known m G" for G
    using that
  proof (rule frame_knownE)
    fix q j assume q: "q < physmem_map_num m" "j < npages (global_mem m ! q)" "G = pool_base (global_mem m ! q) + j"
    have "slab_at ?m G = Some (slab (page_metadata (global_mem ?m ! q) ! j))"
      using slab_at_eq [OF mem_invD(1) [OF S(1), of pl], of q j] q S(4,5) [of q] pl by simp
    moreover have "slab_at m G = Some (slab (page_metadata (global_mem m ! q) ! j))"
      using slab_at_eq [OF wf q(1,2)] q(3) by simp
    moreover have "G = F \<longleftrightarrow> q = pl \<and> j = i"
      using frame_unique [OF wf q(1) pl q(2) i] q(3) Fi by auto
    ultimately show ?thesis
      using mem_wf_len [OF wf pl] i by (auto simp: upd_pool_def pool_upd_def nth_list_update)
  qed
  ultimately show ?thesis using S(3) unfolding eq [symmetric] by blast
qed

section \<open>Addresses inside a page\<close>

lemma unat_page_frame:
  fixes a :: addr
  shows "unat (frame_addr (unat a div 4096)) = 4096 * (unat a div 4096)"
proof (rule unat_frame_addr)
  have "unat a < 2 ^ 64" using unsigned_less [of a] by simp
  moreover have "4096 * (unat a div 4096) \<le> unat a" by simp
  ultimately show "4096 * (unat a div 4096) < 2 ^ 64" by linarith
qed

lemma in_pool_byte:
  assumes "pool_wf pl pool"
  shows "in_pool pool a = in_pool pool (frame_addr (unat a div 4096))"
proof -
  have 1: "4096 * k \<le> n \<longleftrightarrow> 4096 * k \<le> 4096 * (n div 4096)" for k n :: nat
    by (simp add: less_eq_div_iff_mult_less_eq mult.commute)
  have 2: "n < 4096 * k \<longleftrightarrow> 4096 * (n div 4096) < 4096 * k" for k n :: nat
    by (simp add: div_less_iff_less_mult mult.commute)
  have s: "unat (pool_start_addr pool) = 4096 * pool_base pool" using assms by (simp add: pool_wf_def)
  show ?thesis
    unfolding in_pool_def word_le_nat_alt word_less_nat_alt unat_page_frame s pool_wf_end [OF assms]
    using 1 2 by blast
qed

lemma virt_to_page_byte:
  assumes wf: "mem_wf m" and F: "frame_known m (unat a div 4096)"
  shows "virt_to_page m a = virt_to_page m (frame_addr (unat a div 4096))"
proof -
  let ?b = "frame_addr (unat a div 4096)"
  have find: "find (\<lambda>i. in_pool (global_mem m ! i) a) [0..<physmem_map_num m] =
      find (\<lambda>i. in_pool (global_mem m ! i) ?b) [0..<physmem_map_num m]"
  proof (rule find_cong [OF refl])
    fix i assume "i \<in> set [0..<physmem_map_num m]"
    then have "pool_wf i (global_mem m ! i)" using mem_wf_pool [OF wf] by simp
    then show "in_pool (global_mem m ! i) a = in_pool (global_mem m ! i) ?b" by (rule in_pool_byte)
  qed
  have "(a - pool_start_addr (global_mem m ! i)) div word_of_nat BUDDY_PAGE_SIZE =
      (?b - pool_start_addr (global_mem m ! i)) div word_of_nat BUDDY_PAGE_SIZE"
    if "find (\<lambda>i. in_pool (global_mem m ! i) ?b) [0..<physmem_map_num m] = Some i" for i
  proof -
    have i: "i < physmem_map_num m" "in_pool (global_mem m ! i) ?b" using that by (auto simp: find_Some_iff)
    note p = mem_wf_pool [OF wf i(1)]
    have le: "pool_start_addr (global_mem m ! i) \<le> ?b" "pool_start_addr (global_mem m ! i) \<le> a"
      using i(2) in_pool_byte [OF p, of a] unfolding in_pool_def by blast+
    have s: "unat (pool_start_addr (global_mem m ! i)) = 4096 * pool_base (global_mem m ! i)"
      using p by (simp add: pool_wf_def)
    have "(unat a - 4096 * pool_base (global_mem m ! i)) div 4096 =
        (4096 * (unat a div 4096) - 4096 * pool_base (global_mem m ! i)) div 4096"
    proof -
      have "4096 * pool_base (global_mem m ! i) \<le> unat a" using le(2) s by (simp add: word_le_nat_alt)
      then obtain r where "unat a = 4096 * pool_base (global_mem m ! i) + r" by (auto dest: le_Suc_ex)
      then show ?thesis by (simp add: diff_mult_distrib2 [symmetric])
    qed
    then show ?thesis
      using le s by (simp add: word_unat_eq_iff unat_div unat_sub unat_page_frame BUDDY_PAGE_SIZE_def)
  qed
  then show ?thesis unfolding virt_to_page_def find
    by (cases "find (\<lambda>i. in_pool (global_mem m ! i) ?b) [0..<physmem_map_num m]") auto
qed

lemma slab_at_byte:
  assumes "mem_wf m" "frame_known m (unat a div 4096)" "slab_at m (unat a div 4096) = Some s"
  obtains p pg where "virt_to_page m a = Some p" "get_page m p = Some pg" "slab pg = s"
  using assms(3) virt_to_page_byte [OF assms(1,2)] unfolding slab_at_def
  by (auto simp: bind_eq_Some_conv)

end
