(* ===== verification/Slab.thy ===== *)
theory Slab
  imports Page_Alloc
begin

text \<open>
  The slab allocator, \<open>kernel/mm/slab.c\<close> with \<open>kernel/include/mm/slab.h\<close>. Objects of 32 to 2048
  bytes are slots of 256K slabs; the first slot of a slab holds its header, and the free slots are
  linked through their first word.

  Memory is modelled by typed maps on addresses: \<open>slab_headers\<close> for the header at the start of a
  slab (an address without header cannot be read) and \<open>next_free\<close> for the link word of a slot. The
  partial slabs of an order are the list of their addresses. Double-free detection
  (\<open>ENABLE_DETECTING_DOUBLE_FREE_IN_SLAB\<close>) is off in the default configuration and not modelled.
\<close>

section \<open>State\<close>

definition SLAB_MIN_ORDER :: nat where "SLAB_MIN_ORDER = 5"
definition SLAB_MAX_ORDER :: nat where "SLAB_MAX_ORDER = 11"
definition SIZE_OF_ONE_SLAB :: nat where "SIZE_OF_ONE_SLAB = 256 * 1024"

record slab_header =
  free_list_head :: addr
  slab_order :: nat
  total_free_cnt :: u16
  current_free_cnt :: u16

record slab_pointer =
  current_slab :: addr
  partial_slab_list :: "addr list"

record mm_state =
  mm_phys :: phys_mem
  slab_headers :: "addr \<Rightarrow> slab_header option"
  next_free :: "addr \<Rightarrow> addr"
  slab_pool :: "slab_pointer list"

definition get_slab_pool :: "mm_state \<Rightarrow> nat \<Rightarrow> slab_pointer option" where
  "get_slab_pool st ord = (if ord < length (slab_pool st) then Some (slab_pool st ! ord) else None)"

definition upd_slab_pool :: "nat \<Rightarrow> (slab_pointer \<Rightarrow> slab_pointer) \<Rightarrow> mm_state \<Rightarrow> mm_state" where
  "upd_slab_pool ord f st = st\<lparr>slab_pool := (slab_pool st)[ord := f (slab_pool st ! ord)]\<rparr>"

definition upd_header :: "addr \<Rightarrow> slab_header \<Rightarrow> mm_state \<Rightarrow> mm_state" where
  "upd_header s h st = st\<lparr>slab_headers := (slab_headers st)(s := Some h)\<rparr>"

section \<open>Operations\<close>

text \<open>The shift loop of \<open>size_to_order\<close>; \<open>1 << order\<close> is an \<open>int\<close> shift, undefined from 31 on.\<close>

function log2_loop :: "nat \<Rightarrow> nat" where
  "log2_loop tmp = (if 1 < tmp then Suc (log2_loop (tmp div 2)) else 0)"
  by pat_completeness auto
termination
  by (relation "measure id") auto

declare log2_loop.simps [simp del]

definition size_to_order :: "nat \<Rightarrow> nat option" where
  "size_to_order sz =
     (let ord = log2_loop sz
      in if ord < 31 then Some (if 2 ^ ord < sz then ord + 1 else ord) else None)"

definition order_to_size :: "nat \<Rightarrow> nat" where
  "order_to_size ord = 2 ^ ord"

fun set_slab_pages :: "phys_mem \<Rightarrow> addr \<Rightarrow> addr \<Rightarrow> nat list \<Rightarrow> phys_mem option" where
  "set_slab_pages m a v [] = Some m"
| "set_slab_pages m a v (i # is) =
     do { p \<leftarrow> virt_to_page m (a + word_of_nat (i * BUDDY_PAGE_SIZE));
          _ \<leftarrow> get_page m p;
          set_slab_pages (upd_page p (\<lambda>g. g\<lparr>slab := v\<rparr>) m) a v is }"

definition set_or_clear_slab_in_page :: "phys_mem \<Rightarrow> addr \<Rightarrow> nat \<Rightarrow> bool \<Rightarrow> phys_mem option" where
  "set_or_clear_slab_in_page m a sz set_or_clear =
     do { ord \<leftarrow> size_to_order (sz div BUDDY_PAGE_SIZE);
          set_slab_pages m a (if set_or_clear then a else NULL) [0..<order_to_size ord] }"

definition alloc_slab_memory :: "phys_mem \<Rightarrow> nat \<Rightarrow> (addr \<times> phys_mem) option" where
  "alloc_slab_memory m sz =
     do { ord \<leftarrow> size_to_order (sz div BUDDY_PAGE_SIZE);
          (a, m1) \<leftarrow> get_pages' m ord;
          if a = NULL then Some (NULL, m1)
          else do { m2 \<leftarrow> set_or_clear_slab_in_page m1 a sz True; Some (a, m2) } }"

text \<open>The loop that threads the free slots; the last one has no next.\<close>

fun link_slots :: "nat \<Rightarrow> addr \<Rightarrow> u64 \<Rightarrow> (addr \<Rightarrow> addr) \<Rightarrow> (addr \<Rightarrow> addr)" where
  "link_slots 0 slot obj_size nf = nf(slot := NULL)"
| "link_slots (Suc n) slot obj_size nf = link_slots n (slot + obj_size) obj_size (nf(slot := slot + obj_size))"

definition init_slab_cache :: "mm_state \<Rightarrow> nat \<Rightarrow> nat \<Rightarrow> (addr \<times> mm_state) option" where
  "init_slab_cache st ord sz =
     do { (a, m1) \<leftarrow> alloc_slab_memory (mm_phys st) sz;
          let st1 = st\<lparr>mm_phys := m1\<rparr>;
          if a = NULL then Some (NULL, st1)
          else do {
            let obj_size = order_to_size ord;
            let cnt = sz div obj_size - 1;
            _ \<leftarrow> (if cnt = 0 then None else Some ()); \<comment> \<open>the loop bound \<open>cnt - 1\<close> would wrap\<close>
            let slot = a + word_of_nat obj_size;
            let st2 = upd_header a \<lparr>free_list_head = slot, slab_order = ord,
                        total_free_cnt = word_of_nat cnt, current_free_cnt = word_of_nat cnt\<rparr> st1;
            Some (a, st2\<lparr>next_free := link_slots (cnt - 1) slot (word_of_nat obj_size) (next_free st2)\<rparr>) } }"

definition choose_new_current_slab :: "slab_pointer \<Rightarrow> slab_pointer" where
  "choose_new_current_slab pool =
     (case partial_slab_list pool of
        [] \<Rightarrow> pool\<lparr>current_slab := NULL\<rparr>
      | s # ss \<Rightarrow> pool\<lparr>current_slab := s, partial_slab_list := ss\<rparr>)"

definition alloc_in_slab_impl :: "mm_state \<Rightarrow> nat \<Rightarrow> (addr \<times> mm_state) option" where
  "alloc_in_slab_impl st ord =
     do { pool \<leftarrow> get_slab_pool st ord;
          (cur, st1) \<leftarrow>
            (if current_slab pool = NULL
             then do { (s, st1) \<leftarrow> init_slab_cache st ord SIZE_OF_ONE_SLAB;
                       Some (s, if s = NULL then st1
                                else upd_slab_pool ord (\<lambda>p. p\<lparr>current_slab := s\<rparr>) st1) }
             else Some (current_slab pool, st));
          if cur = NULL then Some (NULL, st1)
          else do {
            h \<leftarrow> slab_headers st1 cur;
            BUG_ON (free_list_head h = NULL);
            let next_slot = next_free st1 (free_list_head h);
            let h' = h\<lparr>free_list_head := next_slot, current_free_cnt := current_free_cnt h - 1\<rparr>;
            let st2 = upd_header cur h' st1;
            Some (free_list_head h,
                  if current_free_cnt h' = 0 then upd_slab_pool ord choose_new_current_slab st2 else st2) } }"

definition try_insert_full_slab_to_partial :: "mm_state \<Rightarrow> addr \<Rightarrow> mm_state option" where
  "try_insert_full_slab_to_partial st s =
     do { h \<leftarrow> slab_headers st s;
          if current_free_cnt h \<noteq> 0 then Some st
          else do {
            _ \<leftarrow> get_slab_pool st (slab_order h);
            Some (upd_slab_pool (slab_order h)
                    (\<lambda>p. p\<lparr>partial_slab_list := partial_slab_list p @ [s]\<rparr>) st) } }"

definition try_return_slab_to_buddy :: "mm_state \<Rightarrow> addr \<Rightarrow> nat \<Rightarrow> mm_state option" where
  "try_return_slab_to_buddy st s ord =
     do { h \<leftarrow> slab_headers st s;
          if current_free_cnt h \<noteq> total_free_cnt h then Some st
          else do {
            pool \<leftarrow> get_slab_pool st ord;
            st1 \<leftarrow> (if s = current_slab pool then Some (upd_slab_pool ord choose_new_current_slab st)
                    else if s \<in> set (partial_slab_list pool)
                    then Some (upd_slab_pool ord
                           (\<lambda>p. p\<lparr>partial_slab_list := remove1 s (partial_slab_list p)\<rparr>) st)
                    else None);
            m1 \<leftarrow> set_or_clear_slab_in_page (mm_phys st1) s SIZE_OF_ONE_SLAB False;
            m2 \<leftarrow> free_pages_without_record m1 s;
            Some (st1\<lparr>mm_phys := m2\<rparr>) } }"

definition init_slab :: "mm_state \<Rightarrow> mm_state" where
  "init_slab st = fold (\<lambda>ord. upd_slab_pool ord (\<lambda>_. \<lparr>current_slab = NULL, partial_slab_list = []\<rparr>))
     [SLAB_MIN_ORDER..<SLAB_MAX_ORDER + 1] st"

definition alloc_in_slab :: "mm_state \<Rightarrow> nat \<Rightarrow> (addr \<times> mm_state) option" where
  "alloc_in_slab st sz =
     do { BUG_ON (order_to_size SLAB_MAX_ORDER < sz);
          ord \<leftarrow> size_to_order sz;
          alloc_in_slab_impl st (if ord < SLAB_MIN_ORDER then SLAB_MIN_ORDER else ord) }"

definition free_in_slab :: "mm_state \<Rightarrow> addr \<Rightarrow> mm_state option" where
  "free_in_slab st slot =
     do { p \<leftarrow> virt_to_page (mm_phys st) slot;
          pg \<leftarrow> get_page (mm_phys st) p;
          h0 \<leftarrow> slab_headers st (slab pg);
          st1 \<leftarrow> try_insert_full_slab_to_partial st (slab pg);
          h \<leftarrow> slab_headers st1 (slab pg);
          let st2 = st1\<lparr>next_free := (next_free st1)(slot := free_list_head h)\<rparr>;
          let st3 = upd_header (slab pg)
                      (h\<lparr>free_list_head := slot, current_free_cnt := current_free_cnt h + 1\<rparr>) st2;
          try_return_slab_to_buddy st3 (slab pg) (slab_order h0) }"

text \<open>
  The walk along a chain of free slots, counting; a slab has fewer slots than the fuel.
\<close>

fun count_slots :: "nat \<Rightarrow> (addr \<Rightarrow> addr) \<Rightarrow> addr \<Rightarrow> nat option" where
  "count_slots 0 nf slot = None"
| "count_slots (Suc n) nf slot = (if slot = NULL then Some 0 else map_option Suc (count_slots n nf (nf slot)))"

definition SLOT_FUEL :: nat where "SLOT_FUEL = 8192"

fun count_slabs :: "mm_state \<Rightarrow> addr list \<Rightarrow> nat \<times> nat \<Rightarrow> (nat \<times> nat) option" where
  "count_slabs st [] acc = Some acc"
| "count_slabs st (s # ss) acc =
     do { h \<leftarrow> slab_headers st s;
          n \<leftarrow> count_slots SLOT_FUEL (next_free st) (free_list_head h);
          count_slabs st ss (fst acc + n, snd acc + unat (current_free_cnt h)) }"

definition get_free_slot_number :: "mm_state \<Rightarrow> nat \<Rightarrow> nat option" where
  "get_free_slot_number st ord =
     do { pool \<leftarrow> get_slab_pool st ord;
          acc \<leftarrow> (if current_slab pool \<noteq> NULL then count_slabs st [current_slab pool] (0, 0) else Some (0, 0));
          (current_slot_num, check_slot_num) \<leftarrow> count_slabs st (partial_slab_list pool) acc;
          BUG_ON (check_slot_num \<noteq> current_slot_num);
          Some current_slot_num }"

fun free_mem_of_orders :: "mm_state \<Rightarrow> nat list \<Rightarrow> nat \<Rightarrow> nat option" where
  "free_mem_of_orders st [] total_size = Some total_size"
| "free_mem_of_orders st (ord # os) total_size =
     do { slot_num \<leftarrow> get_free_slot_number st ord;
          free_mem_of_orders st os (total_size + order_to_size ord * slot_num) }"

definition get_free_mem_size_from_slab :: "mm_state \<Rightarrow> nat option" where
  "get_free_mem_size_from_slab st = free_mem_of_orders st [SLAB_MIN_ORDER..<SLAB_MAX_ORDER + 1] 0"

end
