(* ===== verification/Slab_Correct.thy ===== *)
theory Slab_Correct
  imports Slab
begin

text \<open>
  Correctness of the slab allocator. The ghost table \<open>T\<close> gives for each slab address its order and
  the list of its free slots. The invariant has three parts that change separately: the pages
  (\<open>slab_pages\<close>), the headers and free chains (\<open>slab_heap\<close>), and the per-order pools (\<open>slab_pools\<close>).
\<close>

section \<open>Orders and sizes\<close>

lemma log2_loop_bounds:
  assumes "0 < n"
  shows "2 ^ log2_loop n \<le> n \<and> n < 2 ^ Suc (log2_loop n)"
  using assms
proof (induction n rule: log2_loop.induct)
  case (1 n)
  show ?case
  proof (cases "1 < n")
    case True
    then have "2 ^ log2_loop (n div 2) \<le> n div 2" "n div 2 < 2 ^ Suc (log2_loop (n div 2))"
      using "1.IH" by auto
    moreover have "n = 2 * (n div 2) + n mod 2" "n mod 2 < 2" by simp_all
    ultimately show ?thesis using True by (simp add: log2_loop.simps [of n] del: mod_less_divisor) linarith
  next
    case False
    then show ?thesis using "1.prems" by (simp add: log2_loop.simps [of n])
  qed
qed

text \<open>\<open>size_to_order\<close> is the ceiling of the binary logarithm.\<close>

lemma size_to_order_spec:
  assumes "0 < n" "n < 2 ^ 31"
  obtains ord where "size_to_order n = Some ord" "n \<le> 2 ^ ord" "ord \<le> 31" "\<And>k. n \<le> 2 ^ k \<Longrightarrow> ord \<le> k"
proof -
  define l where "l = log2_loop n"
  have l: "2 ^ l \<le> n" "n < 2 ^ Suc l" using log2_loop_bounds [OF assms(1)] by (auto simp: l_def)
  have "(2 :: nat) ^ l < 2 ^ 31" using l(1) assms(2) by linarith
  then have l31: "l < 31" by (simp only: power_strict_increasing_iff)
  show ?thesis
  proof (cases "2 ^ l < n")
    case True
    have "Suc l \<le> k" if "n \<le> 2 ^ k" for k
    proof -
      have "(2 :: nat) ^ l < 2 ^ k" using True that by linarith
      then have "l < k" by (simp only: power_strict_increasing_iff)
      then show ?thesis by simp
    qed
    then show ?thesis using that [of "Suc l"] True l l31 by (simp add: size_to_order_def l_def [symmetric])
  next
    case False
    have "l \<le> k" if "n \<le> 2 ^ k" for k
    proof -
      have "(2 :: nat) ^ l \<le> 2 ^ k" using l(1) that by linarith
      then show ?thesis by (simp only: power_increasing_iff)
    qed
    then show ?thesis using that [of l] False l31 by (simp add: size_to_order_def l_def [symmetric])
  qed
qed

lemma size_to_order_slab [simp]: "size_to_order (SIZE_OF_ONE_SLAB div BUDDY_PAGE_SIZE) = Some 6"
  by (simp add: SIZE_OF_ONE_SLAB_def BUDDY_PAGE_SIZE_def size_to_order_def log2_loop.simps)

section \<open>Slots\<close>

definition slab_cnt :: "nat \<Rightarrow> nat" where
  "slab_cnt ord = SIZE_OF_ONE_SLAB div 2 ^ ord - 1"

definition slot_addr :: "addr \<Rightarrow> nat \<Rightarrow> nat \<Rightarrow> addr" where
  "slot_addr s ord j = s + word_of_nat (j * 2 ^ ord)"

definition slots :: "addr \<Rightarrow> nat \<Rightarrow> addr set" where
  "slots s ord = slot_addr s ord ` {1..slab_cnt ord}"

definition slab_chunk :: "addr \<Rightarrow> nat \<times> nat" where
  "slab_chunk s = (unat s div 4096, 6)"

text \<open>A slab address: page aligned, not NULL, the slab inside the address space.\<close>

definition slab_addr_ok :: "addr \<Rightarrow> bool" where
  "slab_addr_ok s \<longleftrightarrow> 4096 dvd unat s \<and> 0 < unat s \<and> unat s + SIZE_OF_ONE_SLAB < 2 ^ 64"

definition slab_order_ok :: "nat \<Rightarrow> bool" where
  "slab_order_ok ord \<longleftrightarrow> SLAB_MIN_ORDER \<le> ord \<and> ord \<le> SLAB_MAX_ORDER"

lemma slab_order_cases:
  assumes "slab_order_ok ord"
  obtains "ord = 5" | "ord = 6" | "ord = 7" | "ord = 8" | "ord = 9" | "ord = 10" | "ord = 11"
proof -
  have "ord \<in> {5..11}" using assms by (simp add: slab_order_ok_def SLAB_MIN_ORDER_def SLAB_MAX_ORDER_def)
  also have "{5..11} = {5, 6, 7, 8, 9, 10, 11 :: nat}" by auto
  finally show ?thesis using that by auto
qed

lemma slab_cnt_bounds:
  assumes "slab_order_ok ord"
  shows "126 < slab_cnt ord" "slab_cnt ord < 8192" "Suc (slab_cnt ord) * 2 ^ ord = SIZE_OF_ONE_SLAB"
  using assms by (cases rule: slab_order_cases; simp add: slab_cnt_def SIZE_OF_ONE_SLAB_def)+

lemma unat_slot_addr:
  assumes "slab_addr_ok s" "slab_order_ok ord" "j \<le> slab_cnt ord"
  shows "unat (slot_addr s ord j) = unat s + j * 2 ^ ord" "unat s + j * 2 ^ ord + 2 ^ ord \<le> unat s + SIZE_OF_ONE_SLAB"
proof -
  have le: "Suc j * 2 ^ ord \<le> SIZE_OF_ONE_SLAB"
    using slab_cnt_bounds(3) [OF assms(2)] mult_le_mono1 [of "Suc j" "Suc (slab_cnt ord)" "2 ^ ord"] assms(3) by simp
  then show "unat s + j * 2 ^ ord + 2 ^ ord \<le> unat s + SIZE_OF_ONE_SLAB" by simp
  have "j * 2 ^ ord < 2 ^ 64" using le by (simp add: SIZE_OF_ONE_SLAB_def)
  then have u: "unat (word_of_nat (j * 2 ^ ord) :: u64) = j * 2 ^ ord" by (rule unat_word_of_nat64)
  have "unat s + unat (word_of_nat (j * 2 ^ ord) :: u64) < 2 ^ 64"
    using le assms(1) unfolding u slab_addr_ok_def by simp
  then have "unat (s + word_of_nat (j * 2 ^ ord)) = unat s + unat (word_of_nat (j * 2 ^ ord) :: u64)"
    by (subst unat_plus_simple [THEN iffD1]) (simp_all add: no_olen_add_nat)
  then show "unat (slot_addr s ord j) = unat s + j * 2 ^ ord" by (simp only: slot_addr_def u)
qed

definition slot_list :: "addr \<Rightarrow> nat \<Rightarrow> addr list" where
  "slot_list s ord = map (slot_addr s ord) [1..<Suc (slab_cnt ord)]"

lemma set_slot_list [simp]: "set (slot_list s ord) = slots s ord"
  unfolding slot_list_def slots_def set_map set_upt by (simp add: atLeastLessThanSuc_atLeastAtMost)

lemma length_slot_list [simp]: "length (slot_list s ord) = slab_cnt ord"
  by (simp add: slot_list_def)

lemma slot_addr_inj:
  assumes "slab_addr_ok s" "slab_order_ok ord"
  shows "inj_on (slot_addr s ord) {..slab_cnt ord}"
proof (rule inj_onI)
  fix i j assume ij: "i \<in> {..slab_cnt ord}" "j \<in> {..slab_cnt ord}" "slot_addr s ord i = slot_addr s ord j"
  have "unat s + i * 2 ^ ord = unat (slot_addr s ord i)" using ij(1) by (simp only: unat_slot_addr(1) [OF assms] atMost_iff)
  also have "\<dots> = unat s + j * 2 ^ ord" using ij(2) by (simp only: ij(3) unat_slot_addr(1) [OF assms] atMost_iff)
  finally show "i = j" by simp
qed

lemma distinct_slot_list:
  assumes "slab_addr_ok s" "slab_order_ok ord"
  shows "distinct (slot_list s ord)" "card (slots s ord) = slab_cnt ord"
proof -
  have "inj_on (slot_addr s ord) (set [1..<Suc (slab_cnt ord)])"
    by (rule inj_on_subset [OF slot_addr_inj [OF assms]]) auto
  then show "distinct (slot_list s ord)" by (simp add: slot_list_def distinct_map)
  then show "card (slots s ord) = slab_cnt ord" using distinct_card by fastforce
qed

lemma slotE:
  assumes "x \<in> slots s ord"
  obtains j where "x = slot_addr s ord j" "1 \<le> j" "j \<le> slab_cnt ord"
  using assms by (auto simp: slots_def)

lemma slot_bounds:
  assumes "slab_addr_ok s" "slab_order_ok ord" "x \<in> slots s ord"
  shows "unat s + 2 ^ ord \<le> unat x" "unat x + 2 ^ ord \<le> unat s + SIZE_OF_ONE_SLAB" "x \<noteq> NULL" "x \<noteq> s"
proof -
  obtain j where j: "x = slot_addr s ord j" "1 \<le> j" "j \<le> slab_cnt ord" using assms(3) by (rule slotE)
  note u = unat_slot_addr [OF assms(1,2) j(3)]
  have "1 * 2 ^ ord \<le> j * 2 ^ ord" using j(2) by (rule mult_le_mono1)
  then show b: "unat s + 2 ^ ord \<le> unat x" using u j(1) by simp
  show "unat x + 2 ^ ord \<le> unat s + SIZE_OF_ONE_SLAB" using u j(1) by simp
  have "0 < unat x" using b assms(1) by (simp add: slab_addr_ok_def)
  then show "x \<noteq> NULL" by auto
  have "unat s < unat s + 2 ^ ord" by simp
  then show "x \<noteq> s" using b by auto
qed

lemma slot_frame:
  assumes "slab_addr_ok s" "slab_order_ok ord" "x \<in> slots s ord"
  shows "unat x div 4096 \<in> blk (slab_chunk s)"
proof -
  obtain F where F: "unat s = 4096 * F" using assms(1) by (auto simp: slab_addr_ok_def)
  have "unat s \<le> unat x" "unat x < unat s + SIZE_OF_ONE_SLAB"
    using slot_bounds(1,2) [OF assms] by (auto intro: less_le_trans [of _ "unat x + 2 ^ ord"])
  then have "F \<le> unat x div 4096" "unat x div 4096 < F + 64"
    unfolding F SIZE_OF_ONE_SLAB_def by (simp_all add: less_mult_imp_div_less less_eq_div_iff_mult_less_eq)
  then show ?thesis using F by (simp add: slab_chunk_def)
qed

lemma slots_disjoint:
  assumes "slab_addr_ok s" "slab_order_ok o1" "slab_addr_ok t" "slab_order_ok o2"
    and "blk (slab_chunk s) \<inter> blk (slab_chunk t) = {}"
  shows "slots s o1 \<inter> slots t o2 = {}"
  using slot_frame [OF assms(1,2)] slot_frame [OF assms(3,4)] assms(5) by blast

lemma slab_chunk_inj:
  assumes "slab_addr_ok s" "slab_addr_ok t" "slab_chunk s = slab_chunk t"
  shows "s = t"
proof -
  obtain F G where "unat s = 4096 * F" "unat t = 4096 * G" using assms(1,2) by (auto simp: slab_addr_ok_def elim!: dvdE)
  then have "unat s = unat t" using assms(3) by (simp add: slab_chunk_def)
  then show ?thesis by (simp add: word_unat_eq_iff)
qed

lemma slab_frame_addr:
  assumes "slab_addr_ok s"
  shows "frame_addr (unat s div 4096) = s"
proof -
  obtain F where F: "unat s = 4096 * F" using assms(1) by (auto simp: slab_addr_ok_def)
  then have "unat (frame_addr F) = unat s" using assms by (simp add: slab_addr_ok_def)
  then show ?thesis using F by (simp add: word_unat_eq_iff)
qed

section \<open>Chains of free slots\<close>

primrec chain :: "(addr \<Rightarrow> addr) \<Rightarrow> addr \<Rightarrow> addr list \<Rightarrow> bool" where
  "chain nf a [] \<longleftrightarrow> a = NULL"
| "chain nf a (x # xs) \<longleftrightarrow> a = x \<and> a \<noteq> NULL \<and> chain nf (nf x) xs"

lemma chain_upd [simp]: "x \<notin> set xs \<Longrightarrow> chain (nf(x := v)) a xs = chain nf a xs"
  by (induction xs arbitrary: a) auto

lemma chain_cong: "(\<And>x. x \<in> set xs \<Longrightarrow> nf x = nf' x) \<Longrightarrow> chain nf a xs = chain nf' a xs"
  by (induction xs arbitrary: a) auto

lemma chain_head: "chain nf a xs \<Longrightarrow> (a = NULL) = (xs = [])"
  by (cases xs) auto

lemma count_slots_chain: "chain nf a xs \<Longrightarrow> length xs < n \<Longrightarrow> count_slots n nf a = Some (length xs)"
proof (induction xs arbitrary: a n)
  case Nil
  then show ?case by (cases n) auto
next
  case (Cons x xs)
  then show ?case by (cases n) auto
qed

lemma link_slots_other: "(\<And>j. j \<le> n \<Longrightarrow> y \<noteq> a + word_of_nat j * obj) \<Longrightarrow> link_slots n a obj nf y = nf y"
proof (induction n arbitrary: a nf)
  case 0
  then show ?case by fastforce
next
  case (Suc n)
  have "y \<noteq> a + obj + word_of_nat j * obj" if "j \<le> n" for j
    using Suc.prems [of "Suc j"] that by (simp add: algebra_simps)
  then have "link_slots n (a + obj) obj (nf(a := a + obj)) y = (nf(a := a + obj)) y" by (rule Suc.IH)
  moreover have "y \<noteq> a" using Suc.prems [of 0] by simp
  ultimately show ?case by simp
qed

lemma link_slots_chain:
  assumes "inj_on (\<lambda>j. a + word_of_nat j * obj) {..n}" "\<And>j. j \<le> n \<Longrightarrow> a + word_of_nat j * obj \<noteq> NULL"
  shows "chain (link_slots n a obj nf) a (map (\<lambda>j. a + word_of_nat j * obj) [0..<Suc n])"
  using assms
proof (induction n arbitrary: a nf)
  case 0
  then show ?case by fastforce
next
  case (Suc n)
  let ?b = "a + obj"
  have shift: "?b + word_of_nat j * obj = a + word_of_nat (Suc j) * obj" for j by (simp add: algebra_simps)
  have "inj_on (\<lambda>j. ?b + word_of_nat j * obj) {..n}"
  proof (rule inj_onI)
    fix i j assume "i \<in> {..n}" "j \<in> {..n}" "?b + word_of_nat i * obj = ?b + word_of_nat j * obj"
    then show "i = j" using inj_onD [OF Suc.prems(1), of "Suc i" "Suc j"] unfolding shift by simp
  qed
  moreover have "?b + word_of_nat j * obj \<noteq> NULL" if "j \<le> n" for j
    using Suc.prems(2) [of "Suc j"] that unfolding shift by simp
  ultimately have "chain (link_slots (Suc n) a obj nf) ?b (map (\<lambda>j. ?b + word_of_nat j * obj) [0..<Suc n])"
    using Suc.IH by simp
  moreover have "link_slots (Suc n) a obj nf a = ?b"
  proof -
    have "a \<noteq> ?b + word_of_nat j * obj" if "j \<le> n" for j
      using inj_onD [OF Suc.prems(1), of 0 "Suc j"] that unfolding shift by auto
    then show ?thesis by (simp add: link_slots_other)
  qed
  moreover have "map (\<lambda>j. a + word_of_nat j * obj) [0..<Suc (Suc n)] =
      a # map (\<lambda>j. ?b + word_of_nat j * obj) [0..<Suc n]"
    unfolding shift by (subst upt_conv_Cons) (simp_all del: upt_Suc add: map_Suc_upt [symmetric] comp_def)
  ultimately show ?case using Suc.prems(2) [of 0] by (simp del: upt_Suc link_slots.simps)
qed

section \<open>The invariant\<close>

type_synonym slab_table = "addr \<Rightarrow> (nat \<times> addr list) option"

text \<open>\<open>S\<close> is the set of slabs and \<open>C\<close> the set of chunks that clients got directly.\<close>

definition slab_pages :: "phys_mem \<Rightarrow> addr set \<Rightarrow> (nat \<times> nat) set \<Rightarrow> bool" where
  "slab_pages m S C \<longleftrightarrow> pages_inv m (C \<union> slab_chunk ` S) \<and> C \<inter> slab_chunk ` S = {} \<and>
     (\<forall>s \<in> S. slab_addr_ok s) \<and>
     (\<forall>s \<in> S. \<forall>F \<in> blk (slab_chunk s). slab_at m F = Some s) \<and>
     (\<forall>F. frame_known m F \<longrightarrow> (\<forall>s \<in> S. F \<notin> blk (slab_chunk s)) \<longrightarrow> slab_at m F = Some NULL)"

definition header_ok :: "(addr \<Rightarrow> slab_header option) \<Rightarrow> (addr \<Rightarrow> addr) \<Rightarrow> addr \<Rightarrow> nat \<Rightarrow> addr list \<Rightarrow> bool" where
  "header_ok hs nf s ord fl \<longleftrightarrow> (\<exists>h. hs s = Some h \<and> slab_order h = ord \<and>
     total_free_cnt h = word_of_nat (slab_cnt ord) \<and> current_free_cnt h = word_of_nat (length fl) \<and>
     chain nf (free_list_head h) fl)"

definition slab_heap :: "(addr \<Rightarrow> slab_header option) \<Rightarrow> (addr \<Rightarrow> addr) \<Rightarrow> slab_table \<Rightarrow> bool" where
  "slab_heap hs nf T \<longleftrightarrow> (\<forall>s ord fl. T s = Some (ord, fl) \<longrightarrow> slab_order_ok ord \<and> distinct fl \<and>
     set fl \<subseteq> slots s ord \<and> header_ok hs nf s ord fl)"

text \<open>The slabs with free slots of an order are the current one and those on the partial list.\<close>

definition slab_pool_ok :: "slab_pointer \<Rightarrow> nat \<Rightarrow> slab_table \<Rightarrow> bool" where
  "slab_pool_ok p ord T \<longleftrightarrow> distinct (partial_slab_list p) \<and> NULL \<notin> set (partial_slab_list p) \<and>
     current_slab p \<notin> set (partial_slab_list p) \<and>
     (\<forall>s. s \<in> set (partial_slab_list p) \<or> s = current_slab p \<and> s \<noteq> NULL \<longleftrightarrow>
          (\<exists>fl. T s = Some (ord, fl) \<and> fl \<noteq> []))"

definition slab_pools :: "slab_pointer list \<Rightarrow> slab_table \<Rightarrow> bool" where
  "slab_pools ps T \<longleftrightarrow> length ps = Suc SLAB_MAX_ORDER \<and> (\<forall>ord. slab_order_ok ord \<longrightarrow> slab_pool_ok (ps ! ord) ord T)"

definition kmem_inv :: "mm_state \<Rightarrow> slab_table \<Rightarrow> (nat \<times> nat) set \<Rightarrow> bool" where
  "kmem_inv st T C \<longleftrightarrow> slab_pages (mm_phys st) (dom T) C \<and>
     slab_heap (slab_headers st) (next_free st) T \<and> slab_pools (slab_pool st) T"

section \<open>The pages of a slab\<close>

lemma frame_addr_add: "frame_addr F + word_of_nat (i * BUDDY_PAGE_SIZE) = frame_addr (F + i)"
  by (simp add: frame_addr_def BUDDY_PAGE_SIZE_def algebra_simps)

lemma set_slab_pages_ok:
  assumes "pages_inv m C" "\<And>i. i \<in> set js \<Longrightarrow> frame_known m (F + i)"
  shows "\<exists>m'. set_slab_pages m (frame_addr F) v js = Some m' \<and> pages_inv m' C \<and>
    (\<forall>G. frame_known m' G = frame_known m G) \<and>
    (\<forall>G. frame_known m G \<longrightarrow> slab_at m' G = (if G \<in> (+) F ` set js then Some v else slab_at m G))"
  using assms
proof (induction js arbitrary: m)
  case Nil
  then show ?case by simp
next
  case (Cons i js)
  have k: "frame_known m (F + i)" using Cons.prems(2) by simp
  from set_slab_field [OF Cons.prems(1) k, of v] obtain p pg where
    p: "virt_to_page m (frame_addr (F + i)) = Some p" "get_page m p = Some pg" and
    inv: "pages_inv (upd_page p (\<lambda>g. g\<lparr>slab := v\<rparr>) m) C" and
    known: "\<forall>G. frame_known (upd_page p (\<lambda>g. g\<lparr>slab := v\<rparr>) m) G = frame_known m G" and
    at: "\<forall>G. frame_known m G \<longrightarrow> slab_at (upd_page p (\<lambda>g. g\<lparr>slab := v\<rparr>) m) G =
      (if G = F + i then Some v else slab_at m G)" by blast
  let ?m = "upd_page p (\<lambda>g. g\<lparr>slab := v\<rparr>) m"
  have "\<And>j. j \<in> set js \<Longrightarrow> frame_known ?m (F + j)" using Cons.prems(2) known by simp
  from Cons.IH [OF inv this] obtain m' where
    m': "set_slab_pages ?m (frame_addr F) v js = Some m'" "pages_inv m' C"
    "\<forall>G. frame_known m' G = frame_known ?m G"
    "\<forall>G. frame_known ?m G \<longrightarrow> slab_at m' G = (if G \<in> (+) F ` set js then Some v else slab_at ?m G)" by blast
  have "set_slab_pages m (frame_addr F) v (i # js) = Some m'" using p m'(1) by (simp add: frame_addr_add del: of_nat_mult)
  then show ?case using m'(2-4) known at by auto
qed

lemma set_or_clear_ok:
  assumes inv: "pages_inv m C" and F: "(F, 6) \<in> C"
  shows "\<exists>m'. set_or_clear_slab_in_page m (frame_addr F) SIZE_OF_ONE_SLAB b = Some m' \<and> pages_inv m' C \<and>
    (\<forall>G. frame_known m' G = frame_known m G) \<and>
    (\<forall>G. frame_known m G \<longrightarrow> slab_at m' G =
      (if G \<in> blk (F, 6) then Some (if b then frame_addr F else NULL) else slab_at m G))"
proof -
  have im: "(+) F ` set [0..<order_to_size 6] = blk (F, 6)"
    by (simp add: order_to_size_def blk_def add.commute del: upt_rec_numeral)
  have known: "frame_known m (F + i)" if "i \<in> set [0..<order_to_size 6]" for i
    using pages_inv_range(4) [OF inv F] that by (simp add: order_to_size_def del: upt_rec_numeral)
  note r = set_slab_pages_ok [OF inv, where v = "if b then frame_addr F else NULL"
      and F = F and js = "[0..<order_to_size 6]", OF known, unfolded im]
  show ?thesis unfolding set_or_clear_slab_in_page_def
    by (simp only: size_to_order_slab Option.bind_lunit) (rule r, assumption)
qed

lemma pages_inv_mem_wf: "pages_inv m C \<Longrightarrow> mem_wf m"
  unfolding pages_inv_def mem_inv_def by blast

lemma frame_slab_ok:
  assumes "pages_inv m C" "(F, 6) \<in> C"
  shows "slab_addr_ok (frame_addr F)" "slab_chunk (frame_addr F) = (F, 6)" "frame_addr F \<noteq> NULL"
proof -
  have r: "0 < F" "4096 * (F + 64) < 2 ^ 64" using pages_inv_range(1,2) [OF assms] by auto
  then have u: "unat (frame_addr F) = 4096 * F" by simp
  then show ok: "slab_addr_ok (frame_addr F)" using r by (simp add: slab_addr_ok_def SIZE_OF_ONE_SLAB_def)
  show "slab_chunk (frame_addr F) = (F, 6)" by (simp add: slab_chunk_def u)
  show "frame_addr F \<noteq> NULL" using u r(1) by auto
qed

lemma slab_pagesD:
  assumes "slab_pages m S C"
  shows "pages_inv m (C \<union> slab_chunk ` S)" "C \<inter> slab_chunk ` S = {}" "\<And>s. s \<in> S \<Longrightarrow> slab_addr_ok s"
    "\<And>s F. s \<in> S \<Longrightarrow> F \<in> blk (slab_chunk s) \<Longrightarrow> slab_at m F = Some s"
    "\<And>F. frame_known m F \<Longrightarrow> (\<And>s. s \<in> S \<Longrightarrow> F \<notin> blk (slab_chunk s)) \<Longrightarrow> slab_at m F = Some NULL"
    "\<And>s F. s \<in> S \<Longrightarrow> F \<in> blk (slab_chunk s) \<Longrightarrow> frame_known m F"
proof -
  show p: "pages_inv m (C \<union> slab_chunk ` S)" using assms by (simp add: slab_pages_def)
  show "frame_known m F" if "s \<in> S" "F \<in> blk (slab_chunk s)" for s F
    using pages_inv_range(4) [OF p, of "unat s div 4096" 6 F] that by (auto simp: slab_chunk_def image_iff)
qed (use assms in \<open>simp_all add: slab_pages_def\<close>)

lemma slab_pages_add:
  assumes inv: "slab_pages m S C"
    and m1: "pages_inv m1 (insert (F, 6) (C \<union> slab_chunk ` S))" "(F, 6) \<notin> C \<union> slab_chunk ` S"
    and m2: "pages_inv m2 (insert (F, 6) (C \<union> slab_chunk ` S))"
    and known: "\<And>G. frame_known m2 G = frame_known m G"
    and at: "\<And>G. frame_known m G \<Longrightarrow> slab_at m2 G = (if G \<in> blk (F, 6) then Some (frame_addr F) else slab_at m G)"
  shows "slab_pages m2 (insert (frame_addr F) S) C" "frame_addr F \<notin> S"
proof -
  note D = slab_pagesD [OF inv]
  note f = frame_slab_ok [OF m2, of F, OF insertI1]
  show new: "frame_addr F \<notin> S" using m1(2) f(2) by (metis UnI2 imageI)
  have dis: "blk (slab_chunk s) \<inter> blk (F, 6) = {}" if "s \<in> S" for s
  proof (rule pages_inv_disjoint [OF m2])
    show "slab_chunk s \<in> insert (F, 6) (C \<union> slab_chunk ` S)" using that by blast
    show "slab_chunk s \<noteq> (F, 6)" using that m1(2) by (metis UnI2 imageI)
  qed simp
  show "slab_pages m2 (insert (frame_addr F) S) C"
    unfolding slab_pages_def
  proof (intro conjI ballI allI impI)
    show "pages_inv m2 (C \<union> slab_chunk ` insert (frame_addr F) S)" using m2 f(2) by simp
    show "C \<inter> slab_chunk ` insert (frame_addr F) S = {}" using D(2) m1(2) f(2) by auto
    show "slab_addr_ok s" if "s \<in> insert (frame_addr F) S" for s using that f(1) D(3) by auto
    show "slab_at m2 G = Some s" if s: "s \<in> insert (frame_addr F) S" and G: "G \<in> blk (slab_chunk s)" for s G
    proof (cases "s = frame_addr F")
      case True
      then have "G \<in> blk (F, 6)" using G f(2) by simp
      moreover from this have "frame_known m G" using pages_inv_range(4) [OF m2, of F 6 G] known by simp
      ultimately show ?thesis using at True by (simp del: in_blk)
    next
      case False
      then have "s \<in> S" using s by simp
      moreover from this have "G \<notin> blk (F, 6)" using dis G by blast
      ultimately show ?thesis using at [OF D(6)] D(4) G by (simp del: in_blk)
    qed
    show "slab_at m2 G = Some NULL"
      if "frame_known m2 G" "\<forall>s \<in> insert (frame_addr F) S. G \<notin> blk (slab_chunk s)" for G
      using that at D(5) known f(2) by (simp del: in_blk)
  qed
qed

lemma alloc_slab_memory_ok:
  assumes inv: "slab_pages m S C"
  shows "if can_get m 6
    then \<exists>s m'. alloc_slab_memory m SIZE_OF_ONE_SLAB = Some (s, m') \<and> s \<noteq> NULL \<and> s \<notin> S \<and>
           slab_pages m' (insert s S) C
    else alloc_slab_memory m SIZE_OF_ONE_SLAB = Some (NULL, m)"
proof (cases "can_get m 6")
  case False
  with get_pages'_ok [OF slab_pagesD(1) [OF inv], of 6] show ?thesis by (simp add: alloc_slab_memory_def)
next
  case True
  let ?C = "C \<union> slab_chunk ` S"
  from True get_pages'_ok [OF slab_pagesD(1) [OF inv], of 6] obtain F m1 pl where
    g: "get_pages' m 6 = Some (frame_addr F, m1)" and new: "(F, 6) \<notin> ?C" and
    inv1: "pages_inv m1 (insert (F, 6) ?C)" and fr: "same_frame pl m m1" by auto
  note wf = pages_inv_mem_wf [OF slab_pagesD(1) [OF inv]]
  from set_or_clear_ok [OF inv1 insertI1, of True] obtain m2 where
    s: "set_or_clear_slab_in_page m1 (frame_addr F) SIZE_OF_ONE_SLAB True = Some m2" and
    inv2: "pages_inv m2 (insert (F, 6) ?C)" and known: "\<forall>G. frame_known m2 G = frame_known m1 G" and
    at: "\<forall>G. frame_known m1 G \<longrightarrow> slab_at m2 G = (if G \<in> blk (F, 6) then Some (frame_addr F) else slab_at m1 G)"
    by auto
  have "frame_addr F \<noteq> NULL" by (rule frame_slab_ok(3) [OF inv1 insertI1])
  then have "alloc_slab_memory m SIZE_OF_ONE_SLAB = Some (frame_addr F, m2)"
    using g s by (simp add: alloc_slab_memory_def)
  moreover have "slab_pages m2 (insert (frame_addr F) S) C" "frame_addr F \<notin> S"
    using slab_pages_add [OF inv inv1 new inv2] known at same_frame_known [OF fr] same_frame_slab_at [OF wf fr]
    by simp_all
  ultimately show ?thesis using True \<open>frame_addr F \<noteq> NULL\<close> by auto
qed

lemma slab_heapD:
  assumes "slab_heap hs nf T" "T s = Some (ord, fl)"
  shows "slab_order_ok ord" "distinct fl" "set fl \<subseteq> slots s ord" "header_ok hs nf s ord fl"
  using assms unfolding slab_heap_def by blast+

text \<open>Changing the header of one slab and the links of its own slots leaves the other slabs alone.\<close>

lemma slab_heap_upd:
  assumes heap: "slab_heap hs nf T" and S: "\<And>t. t \<in> dom T \<Longrightarrow> slab_addr_ok t"
    and apart: "\<And>t. t \<in> dom T \<Longrightarrow> t \<noteq> s \<Longrightarrow> blk (slab_chunk s) \<inter> blk (slab_chunk t) = {}"
    and ok: "slab_addr_ok s" "slab_order_ok ord" "distinct fl" "set fl \<subseteq> slots s ord"
    and hdr: "header_ok hs' nf' s ord fl"
    and hs: "\<And>t. t \<noteq> s \<Longrightarrow> hs' t = hs t" and nf: "\<And>x. x \<notin> slots s ord \<Longrightarrow> nf' x = nf x"
  shows "slab_heap hs' nf' (T(s \<mapsto> (ord, fl)))"
  unfolding slab_heap_def
proof (intro allI impI)
  fix t o' fl' assume t: "(T(s \<mapsto> (ord, fl))) t = Some (o', fl')"
  show "slab_order_ok o' \<and> distinct fl' \<and> set fl' \<subseteq> slots t o' \<and> header_ok hs' nf' t o' fl'"
  proof (cases "t = s")
    case True
    then show ?thesis using t ok hdr by auto
  next
    case False
    then have T: "T t = Some (o', fl')" using t by simp
    then have dt: "t \<in> dom T" by blast
    note D = slab_heapD [OF heap T]
    have "slots s ord \<inter> slots t o' = {}"
      using slots_disjoint [OF ok(1,2) S [OF dt] D(1)] apart [OF dt False] by simp
    then have "nf' x = nf x" if "x \<in> set fl'" for x using that D(3) nf by blast
    then have "chain nf' a fl' = chain nf a fl'" for a by (rule chain_cong)
    then show ?thesis using D hs [OF False] by (simp add: header_ok_def)
  qed
qed

section \<open>A new slab\<close>

lemma slot_addr_step: "slot_addr s ord (Suc j) = s + word_of_nat (2 ^ ord) + word_of_nat j * word_of_nat (2 ^ ord)"
  by (simp add: slot_addr_def algebra_simps)

lemma slot_list_eq:
  "slot_list s ord = map (\<lambda>j. s + word_of_nat (2 ^ ord) + word_of_nat j * word_of_nat (2 ^ ord)) [0..<slab_cnt ord]"
  unfolding slot_list_def slot_addr_step [symmetric] One_nat_def
  by (simp only: map_Suc_upt [symmetric] map_map comp_def)

lemma slab_apart:
  assumes inv: "slab_pages m S C" and "s \<in> S" "t \<in> S" "s \<noteq> t"
  shows "blk (slab_chunk s) \<inter> blk (slab_chunk t) = {}"
proof (rule pages_inv_disjoint [OF slab_pagesD(1) [OF inv]])
  show "slab_chunk s \<noteq> slab_chunk t"
    using slab_chunk_inj [OF slab_pagesD(3) [OF inv] slab_pagesD(3) [OF inv]] assms by blast
qed (use assms in blast)+

lemma init_slab_cache_ok:
  assumes pages: "slab_pages (mm_phys st) (dom T) C" and heap: "slab_heap (slab_headers st) (next_free st) T"
    and ord: "slab_order_ok ord"
  shows "if can_get (mm_phys st) 6
    then \<exists>s st'. init_slab_cache st ord SIZE_OF_ONE_SLAB = Some (s, st') \<and> s \<noteq> NULL \<and> T s = None \<and>
           slab_pages (mm_phys st') (insert s (dom T)) C \<and>
           slab_heap (slab_headers st') (next_free st') (T(s \<mapsto> (ord, slot_list s ord))) \<and>
           slab_pool st' = slab_pool st
    else init_slab_cache st ord SIZE_OF_ONE_SLAB = Some (NULL, st)"
proof (cases "can_get (mm_phys st) 6")
  case False
  with alloc_slab_memory_ok [OF pages] show ?thesis by (simp add: init_slab_cache_def)
next
  case True
  with alloc_slab_memory_ok [OF pages] obtain s m' where
    a: "alloc_slab_memory (mm_phys st) SIZE_OF_ONE_SLAB = Some (s, m')" and s: "s \<noteq> NULL" "s \<notin> dom T" and
    pages': "slab_pages m' (insert s (dom T)) C" by auto
  have ok: "slab_addr_ok s" using slab_pagesD(3) [OF pages'] by simp
  define n where "n = slab_cnt ord - 1"
  have n: "slab_cnt ord = Suc n" using slab_cnt_bounds(1) [OF ord] by (simp add: n_def)
  let ?obj = "word_of_nat (2 ^ ord) :: u64"
  let ?nf = "link_slots n (s + ?obj) ?obj (next_free st)"
  let ?h = "\<lparr>free_list_head = s + ?obj, slab_order = ord, total_free_cnt = word_of_nat (slab_cnt ord),
      current_free_cnt = word_of_nat (slab_cnt ord)\<rparr>"
  define st' where "st' = (upd_header s ?h (st\<lparr>mm_phys := m'\<rparr>))\<lparr>next_free := ?nf\<rparr>"
  have cnt: "SIZE_OF_ONE_SLAB div order_to_size ord - 1 = slab_cnt ord"
    by (simp add: slab_cnt_def order_to_size_def)
  have init: "init_slab_cache st ord SIZE_OF_ONE_SLAB = Some (s, st')"
    using a s(1) unfolding init_slab_cache_def Let_def cnt
    by (simp add: n st'_def upd_header_def) (simp add: order_to_size_def)
  have slot: "s + ?obj + word_of_nat j * ?obj \<in> slots s ord" if "j \<le> n" for j
    unfolding slot_addr_step [symmetric] slots_def using that n by auto
  have inj: "inj_on (\<lambda>j. s + ?obj + word_of_nat j * ?obj) {..n}"
    unfolding slot_addr_step [symmetric]
    by (rule inj_onI) (use inj_onD [OF slot_addr_inj [OF ok ord]] n in force)
  have "chain ?nf (s + ?obj) (map (\<lambda>j. s + ?obj + word_of_nat j * ?obj) [0..<Suc n])"
    by (rule link_slots_chain [OF inj slot_bounds(3) [OF ok ord slot]])
  then have "chain ?nf (s + ?obj) (slot_list s ord)" by (simp only: slot_list_eq n)
  then have hdr: "header_ok (slab_headers st') (next_free st') s ord (slot_list s ord)"
    by (simp add: header_ok_def st'_def upd_header_def)
  have other: "?nf x = next_free st x" if "x \<notin> slots s ord" for x
    by (rule link_slots_other) (use slot that in blast)
  have "slab_heap (slab_headers st') (next_free st') (T(s \<mapsto> (ord, slot_list s ord)))"
  proof (rule slab_heap_upd [OF heap _ _ ok ord distinct_slot_list(1) [OF ok ord] _ hdr])
    show "slab_addr_ok t" if "t \<in> dom T" for t using slab_pagesD(3) [OF pages] that .
    show "blk (slab_chunk s) \<inter> blk (slab_chunk t) = {}" if "t \<in> dom T" "t \<noteq> s" for t
      using slab_apart [OF pages', of s t] that by blast
  qed (use other in \<open>simp_all add: st'_def upd_header_def\<close>)
  then show ?thesis using True init s pages' by (auto simp: st'_def upd_header_def)
qed

section \<open>Pools\<close>

lemma slab_pools_upd:
  assumes ps: "slab_pools ps T" and ord: "slab_order_ok ord" and p: "slab_pool_ok p ord T'"
    and same: "\<And>s o' fl. o' \<noteq> ord \<Longrightarrow> T' s = Some (o', fl) \<longleftrightarrow> T s = Some (o', fl)"
  shows "slab_pools (ps[ord := p]) T'"
proof -
  have "ord < length ps" using ps ord by (simp add: slab_pools_def slab_order_ok_def)
  moreover have "slab_pool_ok (ps ! o') o' T'" if "o' \<noteq> ord" "slab_order_ok o'" for o'
    using ps that same [OF that(1)] by (simp add: slab_pools_def slab_pool_ok_def)
  ultimately show ?thesis using ps p by (auto simp: slab_pools_def nth_list_update)
qed

lemma slab_pool_new:
  assumes p: "slab_pool_ok p ord T" and "current_slab p = NULL" "T s = None" "s \<noteq> NULL" "fl \<noteq> []"
  shows "slab_pool_ok (p\<lparr>current_slab := s\<rparr>) ord (T(s \<mapsto> (ord, fl)))"
  using assms unfolding slab_pool_ok_def by (auto split: if_splits)

lemma slab_pool_choose:
  assumes p: "slab_pool_ok p ord T" and s: "s = current_slab p" "s \<noteq> NULL"
    and T': "\<And>t. t \<noteq> s \<Longrightarrow> T' t = T t" "\<And>fl. T' s = Some (ord, fl) \<Longrightarrow> fl = []"
  shows "slab_pool_ok (choose_new_current_slab p) ord T'"
proof (cases "partial_slab_list p")
  case Nil
  then show ?thesis using assms unfolding slab_pool_ok_def choose_new_current_slab_def by (auto split: if_splits) metis+
next
  case (Cons t ts)
  then show ?thesis using assms unfolding slab_pool_ok_def choose_new_current_slab_def
    by (auto split: if_splits) metis+
qed

lemma slab_pool_keep:
  assumes p: "slab_pool_ok p ord T" and "T s = Some (ord, fl)" "fl \<noteq> []" "fl' \<noteq> []"
  shows "slab_pool_ok p ord (T(s \<mapsto> (ord, fl')))"
  using assms unfolding slab_pool_ok_def by (auto split: if_splits)

lemma slab_pool_append:
  assumes p: "slab_pool_ok p ord T" and "T s = Some (ord, [])" "fl' \<noteq> []" "s \<noteq> NULL"
  shows "slab_pool_ok (p\<lparr>partial_slab_list := partial_slab_list p @ [s]\<rparr>) ord (T(s \<mapsto> (ord, fl')))"
proof -
  have "(s \<in> set (partial_slab_list p) \<or> s = current_slab p \<and> s \<noteq> NULL) = (\<exists>fl. T s = Some (ord, fl) \<and> fl \<noteq> [])"
    using p by (simp add: slab_pool_ok_def)
  then have "s \<notin> set (partial_slab_list p)" "s \<noteq> current_slab p" using assms(2,4) by auto
  then show ?thesis using assms unfolding slab_pool_ok_def by (auto split: if_splits)
qed

lemma slab_pool_remove:
  assumes p: "slab_pool_ok p ord T" and "s \<noteq> current_slab p"
  shows "slab_pool_ok (p\<lparr>partial_slab_list := remove1 s (partial_slab_list p)\<rparr>) ord (T(s := None))"
  using assms unfolding slab_pool_ok_def by (auto split: if_splits)

lemma slab_pool_member:
  assumes "slab_pool_ok p ord T" "T s = Some (ord, fl)" "fl \<noteq> []"
  shows "s \<in> set (partial_slab_list p) \<or> s = current_slab p"
  using assms unfolding slab_pool_ok_def by blast

section \<open>Allocation\<close>

lemma kmem_invD:
  assumes "kmem_inv st T C"
  shows "slab_pages (mm_phys st) (dom T) C" "slab_heap (slab_headers st) (next_free st) T" "slab_pools (slab_pool st) T"
  using assms by (simp_all add: kmem_inv_def)

lemma slab_pools_get:
  assumes "slab_pools (slab_pool st) T" "slab_order_ok ord"
  shows "get_slab_pool st ord = Some (slab_pool st ! ord)" "slab_pool_ok (slab_pool st ! ord) ord T"
    "ord < length (slab_pool st)"
  using assms by (simp_all add: get_slab_pool_def slab_pools_def slab_order_ok_def)

lemma free_count_nonzero:
  assumes "slab_order_ok ord" "slab_addr_ok s" "distinct fl" "set fl \<subseteq> slots s ord"
  shows "length fl \<le> slab_cnt ord" "length fl < 8192"
    "(word_of_nat (length fl) :: u16) = word_of_nat n \<longleftrightarrow> length fl = n mod 2 ^ 16"
proof -
  have "card (set fl) \<le> card (slots s ord)" using assms(4) by (intro card_mono) (auto simp: slots_def)
  then show le: "length fl \<le> slab_cnt ord"
    using distinct_slot_list(2) [OF assms(2,1)] by (simp add: distinct_card [OF assms(3)])
  then show lt: "length fl < 8192" using slab_cnt_bounds(2) [OF assms(1)] by simp
  show "(word_of_nat (length fl) :: u16) = word_of_nat n \<longleftrightarrow> length fl = n mod 2 ^ 16"
    using lt by (simp add: word_unat_eq_iff unat_of_nat take_bit_eq_mod)
qed

text \<open>Taking the first free slot of the current slab.\<close>

lemma take_slot_ok:
  assumes pages: "slab_pages (mm_phys st) (dom T) C" and heap: "slab_heap (slab_headers st) (next_free st) T"
    and pools: "slab_pools (slab_pool st) T" and ord: "slab_order_ok ord"
    and cur: "current_slab (slab_pool st ! ord) = s" "T s = Some (ord, x # fl)"
  obtains h st' where "slab_headers st s = Some h" "free_list_head h = x" "x \<noteq> NULL"
    "st' = (let h' = h\<lparr>free_list_head := next_free st x, current_free_cnt := current_free_cnt h - 1\<rparr>;
               st2 = upd_header s h' st
           in if current_free_cnt h' = 0 then upd_slab_pool ord choose_new_current_slab st2 else st2)"
    "kmem_inv st' (T(s \<mapsto> (ord, fl))) C"
proof -
  note D = slab_heapD [OF heap cur(2)]
  obtain h where h: "slab_headers st s = Some h" "slab_order h = ord" "total_free_cnt h = word_of_nat (slab_cnt ord)"
    "current_free_cnt h = word_of_nat (length (x # fl))" "chain (next_free st) (free_list_head h) (x # fl)"
    using D(4) by (auto simp: header_ok_def)
  have ok: "slab_addr_ok s" "s \<in> dom T" using slab_pagesD(3) [OF pages] cur(2) by auto
  let ?h' = "h\<lparr>free_list_head := next_free st x, current_free_cnt := current_free_cnt h - 1\<rparr>"
  let ?st2 = "upd_header s ?h' st"
  let ?T = "T(s \<mapsto> (ord, fl))"
  define full where "full \<longleftrightarrow> current_free_cnt ?h' = 0"
  define st' where "st' = (if full then upd_slab_pool ord choose_new_current_slab ?st2 else ?st2)"
  have z: "full \<longleftrightarrow> fl = []"
    unfolding full_def using free_count_nonzero(3) [OF ord ok(1), of fl 0] D(2,3) by (simp add: h(4))
  have "slab_heap (slab_headers ?st2) (next_free ?st2) ?T"
  proof (rule slab_heap_upd [OF heap _ _ ok(1) ord])
    show "slab_addr_ok t" if "t \<in> dom T" for t using slab_pagesD(3) [OF pages] that .
    show "blk (slab_chunk s) \<inter> blk (slab_chunk t) = {}" if "t \<in> dom T" "t \<noteq> s" for t
      using slab_apart [OF pages, of s t] that ok(2) by blast
    show "header_ok (slab_headers ?st2) (next_free ?st2) s ord fl"
      using h by (simp add: header_ok_def upd_header_def)
  qed (use D in \<open>simp_all add: upd_header_def\<close>)
  then have heap': "slab_heap (slab_headers st') (next_free st') ?T" by (simp add: st'_def upd_slab_pool_def)
  have "slab_pool_ok (choose_new_current_slab (slab_pool st ! ord)) ord ?T" if "fl = []"
    by (rule slab_pool_choose [OF slab_pools_get(2) [OF pools ord] cur(1) [symmetric]])
      (use that ok(1) in \<open>auto simp: slab_addr_ok_def\<close>)
  moreover have "slab_pool_ok (slab_pool st ! ord) ord ?T" if "fl \<noteq> []"
    using slab_pool_keep [OF slab_pools_get(2) [OF pools ord] cur(2) _ that] by simp
  ultimately have "slab_pool_ok (slab_pool st' ! ord) ord ?T"
    using slab_pools_get(3) [OF pools ord] z by (auto simp: st'_def upd_slab_pool_def upd_header_def)
  moreover have "slab_pool st' = (slab_pool st)[ord := slab_pool st' ! ord]"
    using slab_pools_get(3) [OF pools ord] by (auto simp: st'_def upd_slab_pool_def upd_header_def)
  moreover have "?T t = Some (o', fl') \<longleftrightarrow> T t = Some (o', fl')" if "o' \<noteq> ord" for t o' fl' using that cur(2) by auto
  ultimately have "slab_pools (slab_pool st') ?T" using slab_pools_upd [OF pools ord] by metis
  moreover have "dom ?T = dom T" using cur(2) by auto
  moreover have "mm_phys st' = mm_phys st" by (simp add: st'_def upd_slab_pool_def upd_header_def)
  ultimately have "kmem_inv st' ?T C" using pages heap' by (simp add: kmem_inv_def)
  moreover have "free_list_head h = x" "x \<noteq> NULL" using h(5) by auto
  ultimately show ?thesis using that [of h st'] h(1) by (simp add: st'_def full_def Let_def)
qed

lemma alloc_in_slab_impl_ok:
  assumes inv: "kmem_inv st T C" and ord: "slab_order_ok ord"
  shows "if current_slab (slab_pool st ! ord) \<noteq> NULL \<or> can_get (mm_phys st) 6
    then \<exists>s x fl st'. alloc_in_slab_impl st ord = Some (x, st') \<and> kmem_inv st' (T(s \<mapsto> (ord, fl))) C \<and>
       x \<noteq> NULL \<and> (T s = Some (ord, x # fl) \<or> T s = None \<and> x # fl = slot_list s ord)
    else alloc_in_slab_impl st ord = Some (NULL, st)"
proof (cases "current_slab (slab_pool st ! ord) = NULL")
  case False
  let ?s = "current_slab (slab_pool st ! ord)"
  note I = kmem_invD [OF inv]
  note P = slab_pools_get [OF I(3) ord]
  obtain fl' where "T ?s = Some (ord, fl')" "fl' \<noteq> []" using P(2) False unfolding slab_pool_ok_def by blast
  then obtain x fl where T: "T ?s = Some (ord, x # fl)" by (cases fl') auto
  obtain h st' where t: "slab_headers st ?s = Some h" "free_list_head h = x" "x \<noteq> NULL"
    "st' = (let h' = h\<lparr>free_list_head := next_free st x, current_free_cnt := current_free_cnt h - 1\<rparr>;
               st2 = upd_header ?s h' st
           in if current_free_cnt h' = 0 then upd_slab_pool ord choose_new_current_slab st2 else st2)"
    "kmem_inv st' (T(?s \<mapsto> (ord, fl))) C"
    by (rule take_slot_ok [OF I ord refl T])
  have "alloc_in_slab_impl st ord = Some (x, st')"
    using P(1) False t by (simp add: alloc_in_slab_impl_def Let_def)
  then show ?thesis using False t(3,5) T by auto
next
  case True
  note I = kmem_invD [OF inv]
  note P = slab_pools_get [OF I(3) ord]
  note N = init_slab_cache_ok [OF I(1,2) ord]
  show ?thesis
  proof (cases "can_get (mm_phys st) 6")
    case False
    then have "init_slab_cache st ord SIZE_OF_ONE_SLAB = Some (NULL, st)" using N by simp
    then show ?thesis using True False P(1) by (simp add: alloc_in_slab_impl_def)
  next
    case can: True
    with N obtain s st1 where i: "init_slab_cache st ord SIZE_OF_ONE_SLAB = Some (s, st1)" "s \<noteq> NULL" "T s = None"
      "slab_pages (mm_phys st1) (insert s (dom T)) C"
      "slab_heap (slab_headers st1) (next_free st1) (T(s \<mapsto> (ord, slot_list s ord)))"
      "slab_pool st1 = slab_pool st" by auto
    let ?T = "T(s \<mapsto> (ord, slot_list s ord))"
    let ?st = "upd_slab_pool ord (\<lambda>p. p\<lparr>current_slab := s\<rparr>) st1"
    have ne: "slot_list s ord \<noteq> []" using slab_cnt_bounds(1) [OF ord] by (metis length_slot_list length_0_conv not_less0)
    then obtain x fl where xs: "slot_list s ord = x # fl" by (cases "slot_list s ord") auto
    have "slab_pools ((slab_pool st)[ord := (slab_pool st ! ord)\<lparr>current_slab := s\<rparr>]) ?T"
      by (rule slab_pools_upd [OF I(3) ord slab_pool_new [OF P(2) True i(3,2) ne]]) (use i(3) in auto)
    then have pools: "slab_pools (slab_pool ?st) ?T" by (simp add: upd_slab_pool_def i(6))
    have pages: "slab_pages (mm_phys ?st) (dom ?T) C" using i(4) by (simp add: upd_slab_pool_def)
    have heap: "slab_heap (slab_headers ?st) (next_free ?st) ?T" using i(5) by (simp add: upd_slab_pool_def)
    have cur: "current_slab (slab_pool ?st ! ord) = s" using P(3) by (simp add: upd_slab_pool_def i(6))
    have T: "?T s = Some (ord, x # fl)" by (simp add: xs)
    obtain h st' where t: "slab_headers ?st s = Some h" "free_list_head h = x" "x \<noteq> NULL"
      "st' = (let h' = h\<lparr>free_list_head := next_free ?st x, current_free_cnt := current_free_cnt h - 1\<rparr>;
                 st2 = upd_header s h' ?st
             in if current_free_cnt h' = 0 then upd_slab_pool ord choose_new_current_slab st2 else st2)"
      "kmem_inv st' (?T(s \<mapsto> (ord, fl))) C"
      by (rule take_slot_ok [OF pages heap pools ord cur T])
    have "alloc_in_slab_impl st ord = Some (x, st')"
      using P(1) True i(1,2) t by (simp add: alloc_in_slab_impl_def Let_def)
    moreover have "kmem_inv st' (T(s \<mapsto> (ord, fl))) C" using t(5) by simp
    ultimately show ?thesis using can t(3) i(3) xs [symmetric] by (simp only: simp_thms if_True) blast
  qed
qed

section \<open>Freeing\<close>

lemma slab_pages_remove:
  assumes inv: "slab_pages m S C" and s: "s \<in> S"
  shows "\<exists>m1 m2. set_or_clear_slab_in_page m s SIZE_OF_ONE_SLAB False = Some m1 \<and>
    free_pages_without_record m1 s = Some m2 \<and> slab_pages m2 (S - {s}) C"
proof -
  note D = slab_pagesD [OF inv]
  let ?C = "C \<union> slab_chunk ` S"
  define F where "F = unat s div 4096"
  have sF: "s = frame_addr F" "slab_chunk s = (F, 6)"
    using slab_frame_addr [OF D(3) [OF s]] by (simp_all add: F_def slab_chunk_def)
  have FC: "(F, 6) \<in> ?C" using s sF(2) by (metis UnI2 imageI)
  from set_or_clear_ok [OF D(1) FC, of False] obtain m1 where
    1: "set_or_clear_slab_in_page m s SIZE_OF_ONE_SLAB False = Some m1" "pages_inv m1 ?C"
      "\<forall>G. frame_known m1 G = frame_known m G"
      "\<forall>G. frame_known m G \<longrightarrow> slab_at m1 G = (if G \<in> blk (F, 6) then Some NULL else slab_at m G)"
    unfolding sF(1) by auto
  from free_pages'_ok [OF 1(2) FC] obtain m2 pl where
    2: "free_pages_without_record m1 s = Some m2" "pages_inv m2 (?C - {(F, 6)})" "same_frame pl m1 m2"
    unfolding free_pages_without_record_def sF(1) by blast
  have known: "frame_known m2 G = frame_known m G" for G using same_frame_known [OF 2(3)] 1(3) by simp
  have at: "slab_at m2 G = (if G \<in> blk (F, 6) then Some NULL else slab_at m G)" if "frame_known m G" for G
    using same_frame_slab_at [OF pages_inv_mem_wf [OF 1(2)] 2(3)] 1(3,4) that by simp
  have inj: "slab_chunk t \<noteq> (F, 6)" if "t \<in> S - {s}" for t
    using slab_chunk_inj [OF D(3) D(3) [OF s], of t] that sF(2) by auto
  have chunks: "?C - {(F, 6)} = C \<union> slab_chunk ` (S - {s})"
  proof -
    have "(F, 6) \<notin> C" using D(2) s sF(2) by (metis IntI empty_iff imageI)
    moreover have "slab_chunk ` S - {(F, 6)} = slab_chunk ` (S - {s})"
    proof (intro equalityI subsetI)
      fix c assume "c \<in> slab_chunk ` S - {(F, 6)}"
      then show "c \<in> slab_chunk ` (S - {s})" using sF(2) by blast
    next
      fix c assume "c \<in> slab_chunk ` (S - {s})"
      then obtain t where t: "t \<in> S - {s}" "c = slab_chunk t" by blast
      then show "c \<in> slab_chunk ` S - {(F, 6)}" using inj [OF t(1)] by simp
    qed
    ultimately show ?thesis by blast
  qed
  have dis: "G \<notin> blk (F, 6)" if "t \<in> S - {s}" "G \<in> blk (slab_chunk t)" for t G
    using slab_apart [OF inv, of t s] that s sF(2) by auto
  have "slab_pages m2 (S - {s}) C"
    unfolding slab_pages_def
  proof (intro conjI ballI allI impI)
    show "pages_inv m2 (C \<union> slab_chunk ` (S - {s}))" using 2(2) chunks by simp
    show "C \<inter> slab_chunk ` (S - {s}) = {}" using D(2) by blast
    show "slab_addr_ok t" if "t \<in> S - {s}" for t using D(3) that by blast
    show "slab_at m2 G = Some t" if "t \<in> S - {s}" "G \<in> blk (slab_chunk t)" for t G
      using at [of G] D(4,6) [of t G] dis [OF that] that by (simp del: in_blk)
    show "slab_at m2 G = Some NULL" if G: "frame_known m2 G" "\<forall>t \<in> S - {s}. G \<notin> blk (slab_chunk t)" for G
    proof (cases "G \<in> blk (F, 6)")
      case True
      then show ?thesis using at [of G] G(1) known by (simp del: in_blk)
    next
      case False
      then have "\<And>t. t \<in> S \<Longrightarrow> G \<notin> blk (slab_chunk t)" using G(2) sF(2) by (metis DiffI singletonD)
      then show ?thesis using D(5) [of G] at [of G] G(1) known False by (simp del: in_blk)
    qed
  qed
  then show ?thesis using 1(1) 2(1) by blast
qed

lemma push_slot_ok:
  assumes inv: "kmem_inv st T C" and T: "T s = Some (ord, fl)" and x: "x \<in> slots s ord" "x \<notin> set fl"
  obtains st1 h st3 where "try_insert_full_slab_to_partial st s = Some st1" "slab_headers st s = Some h"
    "slab_order h = ord" "slab_headers st1 s = Some h"
    "st3 = upd_header s (h\<lparr>free_list_head := x, current_free_cnt := current_free_cnt h + 1\<rparr>)
       (st1\<lparr>next_free := (next_free st1)(x := free_list_head h)\<rparr>)"
    "kmem_inv st3 (T(s \<mapsto> (ord, x # fl))) C"
proof -
  note I = kmem_invD [OF inv]
  note D = slab_heapD [OF I(2) T]
  have ok: "slab_addr_ok s" "s \<in> dom T" using slab_pagesD(3) [OF I(1)] T by auto
  have nz: "s \<noteq> NULL" using ok(1) by (auto simp: slab_addr_ok_def)
  obtain h where h: "slab_headers st s = Some h" "slab_order h = ord" "total_free_cnt h = word_of_nat (slab_cnt ord)"
    "current_free_cnt h = word_of_nat (length fl)" "chain (next_free st) (free_list_head h) fl"
    using D(4) by (auto simp: header_ok_def)
  note P = slab_pools_get [OF I(3) D(1)]
  let ?T = "T(s \<mapsto> (ord, x # fl))"
  define st1 where "st1 = (if fl \<noteq> [] then st
    else upd_slab_pool ord (\<lambda>p. p\<lparr>partial_slab_list := partial_slab_list p @ [s]\<rparr>) st)"
  have z: "current_free_cnt h = 0 \<longleftrightarrow> fl = []"
    using free_count_nonzero(3) [OF D(1) ok(1) D(2,3), of 0] by (simp add: h(4))
  have try1: "try_insert_full_slab_to_partial st s = Some st1"
    using h z P(1) by (simp add: try_insert_full_slab_to_partial_def st1_def)
  have sel: "slab_headers st1 = slab_headers st" "next_free st1 = next_free st" "mm_phys st1 = mm_phys st"
    by (simp_all add: st1_def upd_slab_pool_def)
  define st3 where "st3 = upd_header s (h\<lparr>free_list_head := x, current_free_cnt := current_free_cnt h + 1\<rparr>)
       (st1\<lparr>next_free := (next_free st1)(x := free_list_head h)\<rparr>)"
  have heap: "slab_heap (slab_headers st3) (next_free st3) ?T"
  proof (rule slab_heap_upd [OF I(2) _ _ ok(1) D(1)])
    show "slab_addr_ok t" if "t \<in> dom T" for t using slab_pagesD(3) [OF I(1)] that .
    show "blk (slab_chunk s) \<inter> blk (slab_chunk t) = {}" if "t \<in> dom T" "t \<noteq> s" for t
      using slab_apart [OF I(1), of s t] that ok(2) by blast
    show "header_ok (slab_headers st3) (next_free st3) s ord (x # fl)"
      using h x(2) slot_bounds(3) [OF ok(1) D(1) x(1)]
      by (simp add: header_ok_def st3_def upd_header_def sel)
  qed (use D x in \<open>auto simp: st3_def upd_header_def sel\<close>)
  have "slab_pool_ok (slab_pool st1 ! ord) ord ?T"
  proof (cases "fl = []")
    case True
    then show ?thesis using slab_pool_append [OF P(2), of s "x # fl"] T nz P(3)
      by (auto simp: st1_def upd_slab_pool_def)
  next
    case False
    then show ?thesis using slab_pool_keep [OF P(2) T False] by (simp add: st1_def)
  qed
  moreover have "slab_pool st3 = (slab_pool st)[ord := slab_pool st1 ! ord]"
    using P(3) by (auto simp: st3_def st1_def upd_slab_pool_def upd_header_def)
  ultimately have "slab_pools (slab_pool st3) ?T"
    using slab_pools_upd [OF I(3) D(1), of "slab_pool st1 ! ord" ?T] T by auto
  moreover have "dom ?T = dom T" using T by auto
  ultimately have "kmem_inv st3 ?T C"
    using I(1) heap by (simp add: kmem_inv_def st3_def upd_header_def sel)
  then show ?thesis using that [OF try1 h(1,2) _ st3_def] h(1) sel(1) by simp
qed

lemma slab_heap_remove: "slab_heap hs nf T \<Longrightarrow> slab_heap hs nf (T(s := None))"
  unfolding slab_heap_def by auto

lemma return_slab_ok:
  assumes inv: "kmem_inv st T C" and T: "T s = Some (ord, fl)" "fl \<noteq> []"
  shows "\<exists>st'. try_return_slab_to_buddy st s ord = Some st' \<and>
    kmem_inv st' (if length fl = slab_cnt ord then T(s := None) else T) C"
proof -
  note I = kmem_invD [OF inv]
  note D = slab_heapD [OF I(2) T(1)]
  have ok: "slab_addr_ok s" "s \<in> dom T" using slab_pagesD(3) [OF I(1)] T by auto
  obtain h where h: "slab_headers st s = Some h" "total_free_cnt h = word_of_nat (slab_cnt ord)"
    "current_free_cnt h = word_of_nat (length fl)" using D(4) by (auto simp: header_ok_def)
  note P = slab_pools_get [OF I(3) D(1)]
  have z: "current_free_cnt h = total_free_cnt h \<longleftrightarrow> length fl = slab_cnt ord"
    using free_count_nonzero(3) [OF D(1) ok(1) D(2,3), of "slab_cnt ord"] slab_cnt_bounds(2) [OF D(1)]
    by (simp add: h)
  show ?thesis
  proof (cases "length fl = slab_cnt ord")
    case False
    then show ?thesis using z h(1) inv by (simp add: try_return_slab_to_buddy_def)
  next
    case True
    let ?p = "slab_pool st ! ord"
    let ?f = "if s = current_slab ?p then choose_new_current_slab
        else (\<lambda>p. p\<lparr>partial_slab_list := remove1 s (partial_slab_list p)\<rparr>)"
    let ?st1 = "upd_slab_pool ord ?f st"
    have mem: "s \<in> set (partial_slab_list ?p)" if "s \<noteq> current_slab ?p"
      using slab_pool_member [OF P(2) T] that by blast
    from slab_pages_remove [OF I(1) ok(2)] obtain m1 m2 where
      m: "set_or_clear_slab_in_page (mm_phys st) s SIZE_OF_ONE_SLAB False = Some m1"
        "free_pages_without_record m1 s = Some m2" "slab_pages m2 (dom T - {s}) C" by blast
    have r: "try_return_slab_to_buddy st s ord = Some (?st1\<lparr>mm_phys := m2\<rparr>)"
      using True z h(1) P(1) mem m(1,2)
      by (cases "s = current_slab ?p") (auto simp: try_return_slab_to_buddy_def upd_slab_pool_def)
    have pool: "slab_pool_ok (?f ?p) ord (T(s := None))"
    proof (cases "s = current_slab ?p")
      case True
      moreover have "slab_pool_ok (choose_new_current_slab ?p) ord (T(s := None))"
        by (rule slab_pool_choose [OF P(2) True]) (use ok(1) in \<open>auto simp: slab_addr_ok_def\<close>)
      ultimately show ?thesis by simp
    next
      case False
      then show ?thesis using slab_pool_remove [OF P(2) False] by simp
    qed
    have "slab_pools ((slab_pool st)[ord := ?f ?p]) (T(s := None))"
      by (rule slab_pools_upd [OF I(3) D(1) pool]) (use T(1) in auto)
    then have "kmem_inv (?st1\<lparr>mm_phys := m2\<rparr>) (T(s := None)) C"
      using m(3) slab_heap_remove [OF I(2)] by (simp add: kmem_inv_def upd_slab_pool_def)
    then show ?thesis using r True by simp
  qed
qed

lemma free_in_slab_ok:
  assumes inv: "kmem_inv st T C" and T: "T s = Some (ord, fl)" and x: "x \<in> slots s ord" "x \<notin> set fl"
  shows "\<exists>st'. free_in_slab st x = Some st' \<and>
    kmem_inv st' (if Suc (length fl) = slab_cnt ord then T(s := None) else T(s \<mapsto> (ord, x # fl))) C"
proof -
  note I = kmem_invD [OF inv]
  have ok: "slab_addr_ok s" "s \<in> dom T" using slab_pagesD(3) [OF I(1)] T by auto
  have F: "unat x div 4096 \<in> blk (slab_chunk s)" by (rule slot_frame [OF ok(1) slab_heapD(1) [OF I(2) T] x(1)])
  obtain p pg where p: "virt_to_page (mm_phys st) x = Some p" "get_page (mm_phys st) p = Some pg" "slab pg = s"
    by (rule slab_at_byte [OF pages_inv_mem_wf [OF slab_pagesD(1) [OF I(1)]]
          slab_pagesD(6) [OF I(1) ok(2) F] slab_pagesD(4) [OF I(1) ok(2) F]])
  obtain st1 h st3 where t: "try_insert_full_slab_to_partial st s = Some st1" "slab_headers st s = Some h"
    "slab_order h = ord" "slab_headers st1 s = Some h"
    "st3 = upd_header s (h\<lparr>free_list_head := x, current_free_cnt := current_free_cnt h + 1\<rparr>)
       (st1\<lparr>next_free := (next_free st1)(x := free_list_head h)\<rparr>)"
    "kmem_inv st3 (T(s \<mapsto> (ord, x # fl))) C"
    by (rule push_slot_ok [OF inv T x])
  have "(T(s \<mapsto> (ord, x # fl))) s = Some (ord, x # fl)" by simp
  from return_slab_ok [OF t(6) this] obtain st' where st': "try_return_slab_to_buddy st3 s ord = Some st'"
    "kmem_inv st' (if length (x # fl) = slab_cnt ord then (T(s \<mapsto> (ord, x # fl)))(s := None)
       else T(s \<mapsto> (ord, x # fl))) C" by blast
  have "free_in_slab st x = Some st'"
    using p t(1-4) st'(1) by (simp add: free_in_slab_def Let_def t(5) [symmetric])
  then show ?thesis using st'(2) by auto
qed

end
