(* ===== verification/Kmalloc.thy ===== *)
theory Kmalloc
  imports Slab_Correct
begin

text \<open>
  The kernel heap, \<open>kernel/mm/kmalloc.c\<close>: small requests go to the slab allocator, larger ones to
  the buddy system, and \<open>kfree\<close> finds out from the page which one to return the memory to. The
  contract is the locale \<open>kernel_heap\<close>: the set of live blocks, no two of which overlap.

  \<open>_kmalloc\<close> stops in \<open>BUG_ON\<close> when no memory is left, so its result is \<open>None\<close> then. The contents of
  blocks are not part of the state, so \<open>kzalloc\<close> is not modelled apart from the \<open>kmalloc\<close> it calls.
\<close>

section \<open>Operations\<close>

definition SLAB_MAX_SIZE :: nat where "SLAB_MAX_SIZE = 2 ^ SLAB_MAX_ORDER"

definition ZERO_SIZE_PTR :: addr where "ZERO_SIZE_PTR = - 1"

definition size_to_page_order :: "nat \<Rightarrow> nat option" where
  "size_to_page_order sz =
     (let pg_num = unat (ROUND_UP (word_of_nat sz) (word_of_nat BUDDY_PAGE_SIZE) div word_of_nat BUDDY_PAGE_SIZE);
          ord = log2_loop pg_num
      in if ord < 31 then Some (if 2 ^ ord < pg_num then ord + 1 else ord) else None)"

definition kmalloc' :: "mm_state \<Rightarrow> nat \<Rightarrow> (addr \<times> mm_state) option" where
  "kmalloc' st sz =
     (if sz = 0 then Some (ZERO_SIZE_PTR, st)
      else do {
        (a, st1) \<leftarrow>
          (if sz \<le> SLAB_MAX_SIZE then alloc_in_slab st sz
           else do {
             ord \<leftarrow> (if sz \<le> BUDDY_PAGE_SIZE then Some 0 else size_to_page_order sz);
             (a, m1) \<leftarrow> get_pages (mm_phys st) ord;
             Some (a, st\<lparr>mm_phys := m1\<rparr>) });
        BUG_ON (a = NULL);
        Some (a, st1) })"

definition kmalloc :: "mm_state \<Rightarrow> nat \<Rightarrow> (addr \<times> mm_state) option" where
  "kmalloc st sz = kmalloc' st sz"

definition kfree' :: "mm_state \<Rightarrow> addr \<Rightarrow> mm_state option" where
  "kfree' st ptr =
     (if ptr = ZERO_SIZE_PTR then Some st
      else do {
        p \<leftarrow> virt_to_page (mm_phys st) ptr;
        pg \<leftarrow> get_page (mm_phys st) p;
        if slab pg \<noteq> NULL then free_in_slab st ptr
        else (case page_pool pg of
                Some pl \<Rightarrow> do { m1 \<leftarrow> buddy_free_pages (mm_phys st) pl p; Some (st\<lparr>mm_phys := m1\<rparr>) }
              | None \<Rightarrow> Some st) })"

definition kfree :: "mm_state \<Rightarrow> addr \<Rightarrow> mm_state option" where
  "kfree st ptr = kfree' st ptr"

section \<open>Live blocks\<close>

text \<open>A block is its address and its size in bytes.\<close>

definition slab_blocks :: "slab_table \<Rightarrow> (addr \<times> nat) set" where
  "slab_blocks T = {(x, 2 ^ ord) | x s ord fl. T s = Some (ord, fl) \<and> x \<in> slots s ord \<and> x \<notin> set fl}"

definition page_blocks :: "(nat \<times> nat) set \<Rightarrow> (addr \<times> nat) set" where
  "page_blocks C = (\<lambda>(F, k). (frame_addr F, 4096 * 2 ^ k)) ` C"

definition heap_inv :: "mm_state \<Rightarrow> (addr \<times> nat) set \<Rightarrow> bool" where
  "heap_inv st L \<longleftrightarrow> (\<exists>T C. kmem_inv st T C \<and> L = slab_blocks T \<union> page_blocks C)"

lemma and_not_page_mask: "(y :: u64) AND NOT 4095 = push_bit 12 (drop_bit 12 y)"
proof -
  have m: "(4095 :: u64) = mask 12" by (simp add: mask_eq_exp_minus_1)
  have "y AND NOT (mask 12) = push_bit 12 (drop_bit 12 y)"
  proof (rule bit_eqI)
    fix i assume "possible_bit TYPE(u64) i"
    then show "bit (y AND NOT (mask 12)) i = bit (push_bit 12 (drop_bit 12 y)) i"
      by (auto simp: bit_and_iff bit_not_iff bit_mask_iff bit_push_bit_iff bit_drop_bit_eq)
  qed
  then show ?thesis unfolding m .
qed

lemma ROUND_UP_page:
  assumes "n + 4095 < 2 ^ 64"
  shows "unat (ROUND_UP (word_of_nat n) (word_of_nat BUDDY_PAGE_SIZE) div word_of_nat BUDDY_PAGE_SIZE :: u64) =
    (n + 4095) div 4096"
proof -
  let ?x = "word_of_nat (n + 4095) :: u64"
  have "(?x AND NOT 4095) = push_bit 12 (drop_bit 12 ?x)"
    by (rule and_not_page_mask)
  moreover have "ROUND_UP (word_of_nat n) (word_of_nat BUDDY_PAGE_SIZE) = ?x AND NOT (4095 :: u64)"
    by (simp add: ROUND_UP_def BUDDY_PAGE_SIZE_def add.commute)
  ultimately have r: "ROUND_UP (word_of_nat n) (word_of_nat BUDDY_PAGE_SIZE) = push_bit 12 (drop_bit 12 ?x)" by simp
  have "push_bit 12 (drop_bit 12 ?x) div (4096 :: u64) = drop_bit 12 ?x"
  proof -
    have "drop_bit 12 (push_bit 12 (drop_bit 12 ?x)) = drop_bit 12 ?x"
      by (rule bit_eqI) (auto simp: bit_simps dest: bit_imp_le_length)
    then show ?thesis by (simp add: drop_bit_eq_div)
  qed
  then have "unat (ROUND_UP (word_of_nat n) (word_of_nat BUDDY_PAGE_SIZE) div word_of_nat BUDDY_PAGE_SIZE :: u64) =
    unat (drop_bit 12 ?x)" unfolding r by (simp add: BUDDY_PAGE_SIZE_def)
  also have "\<dots> = (n + 4095) div 4096"
    using unat_word_of_nat64 [OF assms] by (simp add: drop_bit_eq_div unat_div)
  finally show ?thesis .
qed

lemma size_to_page_order_eq:
  assumes "n + 4095 < 2 ^ 64"
  shows "size_to_page_order n = size_to_order ((n + 4095) div 4096)"
  by (simp add: size_to_page_order_def size_to_order_def Let_def ROUND_UP_page [OF assms])

text \<open>Every block lies inside one chunk of the page allocator.\<close>

definition block_bytes :: "addr \<times> nat \<Rightarrow> nat set" where
  "block_bytes b = {unat (fst b) ..< unat (fst b) + snd b}"

definition chunk_bytes :: "nat \<times> nat \<Rightarrow> nat set" where
  "chunk_bytes c = {4096 * fst c ..< 4096 * (fst c + 2 ^ snd c)}"

lemma chunk_bytes_disjoint:
  assumes "blk c \<inter> blk d = {}"
  shows "chunk_bytes c \<inter> chunk_bytes d = {}"
proof -
  have "fst c + 2 ^ snd c \<le> fst d \<or> fst d + 2 ^ snd d \<le> fst c" using assms by (auto simp: blk_def)
  then have "4096 * (fst c + 2 ^ snd c) \<le> 4096 * fst d \<or> 4096 * (fst d + 2 ^ snd d) \<le> 4096 * fst c"
    using mult_le_mono2 by blast
  then show ?thesis unfolding chunk_bytes_def by fastforce
qed

lemma slab_blockE:
  assumes "b \<in> slab_blocks T"
  obtains x s ord fl where "b = (x, 2 ^ ord)" "T s = Some (ord, fl)" "x \<in> slots s ord" "x \<notin> set fl"
  using assms by (auto simp: slab_blocks_def)

lemma slab_blockI: "T s = Some (ord, fl) \<Longrightarrow> x \<in> slots s ord \<Longrightarrow> x \<notin> set fl \<Longrightarrow> (x, 2 ^ ord) \<in> slab_blocks T"
  unfolding slab_blocks_def by blast

lemma slab_block_home:
  assumes inv: "kmem_inv st T C" and T: "T s = Some (ord, fl)" and x: "x \<in> slots s ord"
  shows "block_bytes (x, 2 ^ ord) \<subseteq> chunk_bytes (slab_chunk s)"
proof -
  note I = kmem_invD [OF inv]
  have ok: "slab_addr_ok s" using slab_pagesD(3) [OF I(1)] T by auto
  then obtain F where F: "unat s = 4096 * F" by (auto simp: slab_addr_ok_def)
  note b = slot_bounds(1,2) [OF ok slab_heapD(1) [OF I(2) T] x]
  have "4096 * F \<le> unat x" using b(1) F by linarith
  moreover have "unat x + 2 ^ ord \<le> 4096 * (F + 64)" using b(2) F by (simp add: SIZE_OF_ONE_SLAB_def)
  ultimately show ?thesis by (auto simp: block_bytes_def chunk_bytes_def slab_chunk_def F)
qed

lemma page_block_home:
  assumes inv: "pages_inv m C" and F: "(F, k) \<in> C"
  shows "block_bytes (frame_addr F, 4096 * 2 ^ k) = chunk_bytes (F, k)"
  using pages_inv_range(2) [OF inv F] by (simp add: block_bytes_def chunk_bytes_def)

lemma slots_apart:
  assumes "slab_addr_ok s" "slab_order_ok ord" "x \<in> slots s ord" "y \<in> slots s ord" "x \<noteq> y"
  shows "block_bytes (x, 2 ^ ord) \<inter> block_bytes (y, 2 ^ ord) = {}"
proof -
  obtain i where i: "x = slot_addr s ord i" "i \<le> slab_cnt ord" using assms(3) by (auto elim: slotE)
  obtain j where j: "y = slot_addr s ord j" "j \<le> slab_cnt ord" using assms(4) by (auto elim: slotE)
  have u: "unat x = unat s + i * 2 ^ ord" "unat y = unat s + j * 2 ^ ord"
    using unat_slot_addr(1) [OF assms(1,2)] i j by blast+
  have "i \<noteq> j" using assms(5) i(1) j(1) by blast
  then have "Suc i * 2 ^ ord \<le> j * 2 ^ ord \<or> Suc j * 2 ^ ord \<le> i * 2 ^ ord"
    by (metis Suc_leI linorder_neqE_nat mult_le_mono1)
  then have "unat x + 2 ^ ord \<le> unat y \<or> unat y + 2 ^ ord \<le> unat x" unfolding u by auto
  then show ?thesis unfolding block_bytes_def fst_conv snd_conv by auto
qed

lemma blocks_apart:
  assumes inv: "kmem_inv st T C" and b: "b \<in> slab_blocks T \<union> page_blocks C" and c: "c \<in> slab_blocks T \<union> page_blocks C"
    and ne: "b \<noteq> c"
  shows "block_bytes b \<inter> block_bytes c = {}"
proof -
  note I = kmem_invD [OF inv]
  note P = slab_pagesD [OF I(1)]
  let ?C = "C \<union> slab_chunk ` dom T"
  have home: "\<exists>h \<in> ?C. block_bytes b \<subseteq> chunk_bytes h \<and>
      (h \<in> C \<longrightarrow> b = (frame_addr (fst h), 4096 * 2 ^ snd h)) \<and>
      (h \<notin> C \<longrightarrow> (\<exists>s ord fl x. h = slab_chunk s \<and> T s = Some (ord, fl) \<and> x \<in> slots s ord \<and> b = (x, 2 ^ ord)))"
    if "b \<in> slab_blocks T \<union> page_blocks C" for b
    using that
  proof
    assume "b \<in> slab_blocks T"
    then obtain x s ord fl where x: "b = (x, 2 ^ ord)" "T s = Some (ord, fl)" "x \<in> slots s ord" by (rule slab_blockE)
    moreover from x(2) have "slab_chunk s \<in> ?C" "slab_chunk s \<notin> C" using P(2) by blast+
    ultimately show ?thesis using slab_block_home [OF inv x(2,3)] by blast
  next
    assume "b \<in> page_blocks C"
    then obtain F k where F: "(F, k) \<in> C" "b = (frame_addr F, 4096 * 2 ^ k)" by (auto simp: page_blocks_def)
    then show ?thesis using page_block_home [OF P(1), of F k] by (intro bexI [of _ "(F, k)"]) auto
  qed
  obtain h where h: "h \<in> ?C" "block_bytes b \<subseteq> chunk_bytes h"
    "h \<in> C \<longrightarrow> b = (frame_addr (fst h), 4096 * 2 ^ snd h)"
    "h \<notin> C \<longrightarrow> (\<exists>s ord fl x. h = slab_chunk s \<and> T s = Some (ord, fl) \<and> x \<in> slots s ord \<and> b = (x, 2 ^ ord))"
    using home [OF b] by blast
  obtain g where g: "g \<in> ?C" "block_bytes c \<subseteq> chunk_bytes g"
    "g \<in> C \<longrightarrow> c = (frame_addr (fst g), 4096 * 2 ^ snd g)"
    "g \<notin> C \<longrightarrow> (\<exists>s ord fl x. g = slab_chunk s \<and> T s = Some (ord, fl) \<and> x \<in> slots s ord \<and> c = (x, 2 ^ ord))"
    using home [OF c] by blast
  show ?thesis
  proof (cases "g = h")
    case False
    then show ?thesis using chunk_bytes_disjoint [OF pages_inv_disjoint [OF P(1) h(1) g(1)]] h(2) g(2) by blast
  next
    case True
    then have "h \<notin> C" using h(3) g(3) ne by auto
    then obtain s ord fl x t o2 fl2 y where x: "h = slab_chunk s" "T s = Some (ord, fl)" "x \<in> slots s ord" "b = (x, 2 ^ ord)"
      and y: "h = slab_chunk t" "T t = Some (o2, fl2)" "y \<in> slots t o2" "c = (y, 2 ^ o2)"
      using h(4) g(4) True by blast
    have "s = t" by (rule slab_chunk_inj) (use P(3) x(1,2) y(1,2) in auto)
    then have "o2 = ord" "y \<in> slots s ord" using x(2) y(2,3) by auto
    then show ?thesis
      using slots_apart [OF P(3) slab_heapD(1) [OF I(2) x(2)] x(3), of y] x(2,4) y(4) ne by auto
  qed
qed

section \<open>Allocation and freeing of blocks\<close>

lemma slab_pages_frame:
  assumes inv: "slab_pages m S C" and fr: "same_frame pl m m'"
    and inv': "pages_inv m' (C' \<union> slab_chunk ` S)" and C': "C' \<inter> slab_chunk ` S = {}"
  shows "slab_pages m' S C'"
proof -
  note D = slab_pagesD [OF inv]
  have at: "frame_known m F \<Longrightarrow> slab_at m' F = slab_at m F" for F
    by (rule same_frame_slab_at [OF pages_inv_mem_wf [OF D(1)] fr])
  show ?thesis
    unfolding slab_pages_def using inv' C' D(3,4,5,6) at same_frame_known [OF fr] by (simp del: in_blk)
qed

lemma slab_blocks_insert:
  assumes heap: "slab_heap hs nf T'" and T': "T' = T(s \<mapsto> (ord, fl))" and s: "slab_addr_ok s" "slab_order_ok ord"
    and T: "T s = Some (ord, x # fl) \<and> distinct (x # fl) \<and> x \<in> slots s ord \<or> T s = None \<and> x # fl = slot_list s ord"
  shows "slab_blocks T' = insert (x, 2 ^ ord) (slab_blocks T)" "x \<in> slots s ord" "x \<notin> set fl"
proof -
  have "distinct (x # fl) \<and> x \<in> slots s ord"
  proof (cases "T s = None")
    case True
    then have e: "x # fl = slot_list s ord" using T by auto
    show ?thesis using distinct_slot_list(1) [OF s] set_slot_list [of s ord] unfolding e [symmetric] by auto
  qed (use T in auto)
  then show x: "x \<in> slots s ord" "x \<notin> set fl" by auto
  show "slab_blocks T' = insert (x, 2 ^ ord) (slab_blocks T)"
  proof (intro equalityI subsetI)
    fix b assume "b \<in> slab_blocks T'"
    then obtain y t o2 fl2 where y: "b = (y, 2 ^ o2)" "T' t = Some (o2, fl2)" "y \<in> slots t o2" "y \<notin> set fl2"
      by (rule slab_blockE)
    show "b \<in> insert (x, 2 ^ ord) (slab_blocks T)"
    proof (cases "t = s")
      case False
      then show ?thesis using y T' slab_blockI [of T t o2 fl2 y] by simp
    next
      case True
      then have eq: "o2 = ord" "fl2 = fl" using y(2) T' by auto
      show ?thesis
      proof (cases "T s = None")
        case True
        then have "x # fl = slot_list s ord" using T by auto
        then have "set (x # fl) = slots s ord" using set_slot_list [of s ord] by simp
        then show ?thesis using y(1,3,4) eq \<open>t = s\<close> by auto
      next
        case False
        then have Ts: "T s = Some (ord, x # fl)" using T by auto
        show ?thesis using y(1,3,4) eq \<open>t = s\<close> Ts slab_blockI [of T s ord "x # fl" y] by (cases "y = x") auto
      qed
    qed
  next
    fix b assume "b \<in> insert (x, 2 ^ ord) (slab_blocks T)"
    then show "b \<in> slab_blocks T'"
    proof
      assume "b = (x, 2 ^ ord)"
      then show ?thesis using x T' slab_blockI [of T' s ord fl x] by simp
    next
      assume "b \<in> slab_blocks T"
      then obtain y t o2 fl2 where y: "b = (y, 2 ^ o2)" "T t = Some (o2, fl2)" "y \<in> slots t o2" "y \<notin> set fl2"
        by (rule slab_blockE)
      show ?thesis
      proof (cases "t = s")
        case False
        then show ?thesis using y T' slab_blockI [of T' t o2 fl2 y] by simp
      next
        case True
        then have "T' s = Some (o2, fl)" "y \<notin> set fl" using y T T' by auto
        then show ?thesis using True y(1,3) slab_blockI [of T' s o2 fl y] by simp
      qed
    qed
  qed
qed

lemma heap_fresh:
  assumes inv: "kmem_inv st T C" and b: "b \<in> slab_blocks T \<union> page_blocks C"
  shows "block_bytes b \<noteq> {}"
  using b
proof
  assume "b \<in> slab_blocks T"
  then show ?thesis by (auto simp: block_bytes_def elim: slab_blockE)
next
  assume "b \<in> page_blocks C"
  then show ?thesis by (auto simp: block_bytes_def page_blocks_def)
qed

lemma alloc_in_slab_ok:
  assumes inv: "kmem_inv st T C" and n: "0 < n" "n \<le> 2048"
  shows "\<exists>ord. slab_order_ok ord \<and> n \<le> 2 ^ ord \<and>
    (if current_slab (slab_pool st ! ord) \<noteq> NULL \<or> can_get (mm_phys st) 6
     then \<exists>x st' T'. alloc_in_slab st n = Some (x, st') \<and> x \<noteq> NULL \<and> kmem_inv st' T' C \<and>
       slab_blocks T' = insert (x, 2 ^ ord) (slab_blocks T) \<and> (x, 2 ^ ord) \<notin> slab_blocks T
     else alloc_in_slab st n = Some (NULL, st))"
proof -
  obtain o0 where o0: "size_to_order n = Some o0" "n \<le> 2 ^ o0" "\<And>k. n \<le> 2 ^ k \<Longrightarrow> o0 \<le> k"
    using size_to_order_spec [of n] n by auto
  define ord where "ord = (if o0 < SLAB_MIN_ORDER then SLAB_MIN_ORDER else o0)"
  have "o0 \<le> 11" using o0(3) [of 11] n by simp
  then have ord: "slab_order_ok ord" by (simp add: ord_def slab_order_ok_def SLAB_MIN_ORDER_def SLAB_MAX_ORDER_def)
  have "(2 :: nat) ^ o0 \<le> 2 ^ ord" by (rule power_increasing) (simp_all add: ord_def)
  then have le: "n \<le> 2 ^ ord" using o0(2) by linarith
  have impl: "alloc_in_slab st n = alloc_in_slab_impl st ord"
    using n o0(1) by (simp add: alloc_in_slab_def ord_def order_to_size_def SLAB_MAX_ORDER_def)
  note A = alloc_in_slab_impl_ok [OF inv ord]
  show ?thesis
  proof (cases "current_slab (slab_pool st ! ord) \<noteq> NULL \<or> can_get (mm_phys st) 6")
    case False
    then show ?thesis using A ord le impl by auto
  next
    case True
    with A obtain s x fl st' where a: "alloc_in_slab_impl st ord = Some (x, st')"
      "kmem_inv st' (T(s \<mapsto> (ord, fl))) C" "x \<noteq> NULL"
      "T s = Some (ord, x # fl) \<or> T s = None \<and> x # fl = slot_list s ord" by auto
    let ?T = "T(s \<mapsto> (ord, fl))"
    note I = kmem_invD [OF a(2)]
    have s: "slab_addr_ok s" using slab_pagesD(3) [OF I(1)] by simp
    have "T s = Some (ord, x # fl) \<and> distinct (x # fl) \<and> x \<in> slots s ord \<or> T s = None \<and> x # fl = slot_list s ord"
      using a(4) slab_heapD(2,3) [OF kmem_invD(2) [OF inv], of s ord "x # fl"] by auto
    note B = slab_blocks_insert [OF I(2) refl s ord this]
    have "(x, 2 ^ ord) \<notin> slab_blocks T"
    proof
      assume "(x, 2 ^ ord) \<in> slab_blocks T"
      then obtain t o2 fl2 where t: "T t = Some (o2, fl2)" "x \<in> slots t o2" "x \<notin> set fl2"
        by (auto elim: slab_blockE)
      show False
      proof (cases "t = s")
        case True
        then show False using t a(4) by auto
      next
        case False
        then have "?T t = Some (o2, fl2)" using t(1) by simp
        then have "slots s ord \<inter> slots t o2 = {}"
          using slots_disjoint [OF s ord _ _ slab_apart [OF I(1), of s t]] slab_pagesD(3) [OF I(1), of t]
            slab_heapD(1) [OF I(2), of t] False by auto
        then show False using B(2) t(2) by blast
      qed
    qed
    then show ?thesis using True ord le impl a(1-3) B(1) by auto
  qed
qed

lemma size_to_order_big:
  assumes "2 ^ 31 \<le> n"
  shows "size_to_order n = None"
proof -
  have "n < 2 ^ Suc (log2_loop n)" using log2_loop_bounds [of n] assms by (simp add: less_le_trans [of 0 "2 ^ 31"])
  then have "(2 :: nat) ^ 31 < 2 ^ Suc (log2_loop n)" using assms by linarith
  then have "31 < Suc (log2_loop n)" by (simp only: power_strict_increasing_iff)
  then show ?thesis by (simp add: size_to_order_def)
qed

lemma can_get_mono: "can_get m k \<Longrightarrow> j \<le> k \<Longrightarrow> can_get m j"
  unfolding can_get_def by (meson le_trans)

lemma can_get_bound: "can_get m k \<Longrightarrow> k < BUDDY_MAX_ORDER"
  unfolding can_get_def fchunks_def by auto

text \<open>When the heap cannot serve a request of \<open>n\<close> bytes.\<close>

definition heap_full :: "mm_state \<Rightarrow> nat \<Rightarrow> bool" where
  "heap_full st n \<longleftrightarrow>
     (if n \<le> SLAB_MAX_SIZE then \<not> can_get (mm_phys st) 6
      else \<not> (\<exists>k. n \<le> 4096 * 2 ^ k \<and> can_get (mm_phys st) k))"

text \<open>The page order that serves a request, when there is one.\<close>

lemma page_order_spec:
  assumes n: "2048 < n" "n + 4095 < 2 ^ 64"
  defines "r \<equiv> (if n \<le> BUDDY_PAGE_SIZE then Some 0 else size_to_page_order n)"
  shows "(\<exists>ord. r = Some ord \<and> n \<le> 4096 * 2 ^ ord \<and> (\<forall>k. n \<le> 4096 * 2 ^ k \<longrightarrow> ord \<le> k)) \<or>
    r = None \<and> (\<forall>k. n \<le> 4096 * 2 ^ k \<longrightarrow> BUDDY_MAX_ORDER \<le> k)"
proof (cases "n \<le> BUDDY_PAGE_SIZE")
  case True
  then show ?thesis by (simp add: r_def BUDDY_PAGE_SIZE_def)
next
  case False
  let ?p = "(n + 4095) div 4096"
  have r: "r = size_to_order ?p" using False size_to_page_order_eq [OF n(2)] by (simp add: r_def)
  have p: "n \<le> 4096 * k \<longleftrightarrow> ?p \<le> k" for k by linarith
  have pos: "0 < ?p" using n(1) by simp
  show ?thesis
  proof (cases "?p < 2 ^ 31")
    case True
    from size_to_order_spec [OF pos True] obtain ord where
      "size_to_order ?p = Some ord" "?p \<le> 2 ^ ord" "\<And>k. ?p \<le> 2 ^ k \<Longrightarrow> ord \<le> k" by blast
    then show ?thesis unfolding r p by blast
  next
    case False
    then have "size_to_order ?p = None" by (intro size_to_order_big) simp
    moreover have "BUDDY_MAX_ORDER \<le> k" if "?p \<le> 2 ^ k" for k
    proof -
      have "(2 :: nat) ^ 31 \<le> 2 ^ k" using False that by linarith
      then have "31 \<le> k" by (simp only: power_increasing_iff)
      then show ?thesis by (simp add: BUDDY_MAX_ORDER_def)
    qed
    ultimately show ?thesis unfolding r p by blast
  qed
qed

lemma page_blocks_insert: "page_blocks (insert (F, k) C) = insert (frame_addr F, 4096 * 2 ^ k) (page_blocks C)"
  by (simp add: page_blocks_def)

lemma page_blocks_inj:
  assumes inv: "pages_inv m C" and F: "(F, k) \<in> C" and G: "(G, l) \<in> C"
    and eq: "(frame_addr F, 4096 * 2 ^ k) = (frame_addr G, 4096 * 2 ^ l :: nat)"
  shows "(F, k) = (G, l)"
proof -
  have u: "unat (frame_addr F) = 4096 * F" "unat (frame_addr G) = 4096 * G"
    using pages_inv_range(2) [OF inv F] pages_inv_range(2) [OF inv G] by simp_all
  have a: "frame_addr F = frame_addr G" and p: "(2 :: nat) ^ k = 2 ^ l" using eq by simp_all
  have "4096 * F = 4096 * G" using u unfolding a by linarith
  moreover have "k = l" using p by simp
  ultimately show ?thesis by simp
qed

lemma kmalloc_pages_ok:
  assumes inv: "kmem_inv st T C"
  shows "if can_get (mm_phys st) ord
    then \<exists>F m'. get_pages (mm_phys st) ord = Some (frame_addr F, m') \<and> frame_addr F \<noteq> NULL \<and>
       kmem_inv (st\<lparr>mm_phys := m'\<rparr>) T (insert (F, ord) C) \<and> (F, ord) \<notin> C
    else get_pages (mm_phys st) ord = Some (NULL, mm_phys st)"
proof (cases "can_get (mm_phys st) ord")
  case False
  then show ?thesis
    using get_pages'_ok [OF slab_pagesD(1) [OF kmem_invD(1) [OF inv]], of ord] by (simp add: get_pages_def)
next
  case True
  note I = kmem_invD [OF inv]
  note P = slab_pagesD [OF I(1)]
  from True get_pages'_ok [OF P(1), of ord] obtain F m' pl where
    g: "get_pages (mm_phys st) ord = Some (frame_addr F, m')" and new: "(F, ord) \<notin> C \<union> slab_chunk ` dom T" and
    inv': "pages_inv m' (insert (F, ord) (C \<union> slab_chunk ` dom T))" and fr: "same_frame pl (mm_phys st) m'"
    by (auto simp: get_pages_def)
  have "slab_pages m' (dom T) (insert (F, ord) C)"
    by (rule slab_pages_frame [OF I(1) fr]) (use inv' new P(2) in auto)
  then have "kmem_inv (st\<lparr>mm_phys := m'\<rparr>) T (insert (F, ord) C)" using I(2,3) by (simp add: kmem_inv_def)
  moreover have "frame_addr F \<noteq> NULL" using pa.frame_addr_chunk(2) [OF inv'] by blast
  ultimately show ?thesis using True g new by auto
qed

lemma kmalloc_ok:
  assumes inv: "heap_inv st L" and n: "0 < n" "n + 4095 < 2 ^ 64"
  shows "(\<exists>a b st'. kmalloc st n = Some (a, st') \<and> n \<le> b \<and> (a, b) \<notin> L \<and> a \<noteq> NULL \<and>
       heap_inv st' (insert (a, b) L)) \<or>
    kmalloc st n = None \<and> heap_full st n"
proof -
  from inv obtain T C where I: "kmem_inv st T C" and L: "L = slab_blocks T \<union> page_blocks C" by (auto simp: heap_inv_def)
  show ?thesis
  proof (cases "n \<le> SLAB_MAX_SIZE")
    case True
    then have n': "n \<le> 2048" by (simp add: SLAB_MAX_SIZE_def SLAB_MAX_ORDER_def)
    from alloc_in_slab_ok [OF I n(1) n'] obtain ord where ord: "n \<le> 2 ^ ord"
      and A: "if current_slab (slab_pool st ! ord) \<noteq> NULL \<or> can_get (mm_phys st) 6
     then \<exists>x st' T'. alloc_in_slab st n = Some (x, st') \<and> x \<noteq> NULL \<and> kmem_inv st' T' C \<and>
       slab_blocks T' = insert (x, 2 ^ ord) (slab_blocks T) \<and> (x, 2 ^ ord) \<notin> slab_blocks T
     else alloc_in_slab st n = Some (NULL, st)" by blast
    show ?thesis
    proof (cases "current_slab (slab_pool st ! ord) \<noteq> NULL \<or> can_get (mm_phys st) 6")
      case False
      then have "alloc_in_slab st n = Some (NULL, st)" using A by (simp only: if_False)
      then show ?thesis using True False n(1) by (simp add: kmalloc_def kmalloc'_def heap_full_def)
    next
      case room: True
      with A obtain x st' T' where a: "alloc_in_slab st n = Some (x, st')" "x \<noteq> NULL" "kmem_inv st' T' C"
       "slab_blocks T' = insert (x, 2 ^ ord) (slab_blocks T)" "(x, 2 ^ ord) \<notin> slab_blocks T" by (simp only: if_True) blast
      have k: "kmalloc st n = Some (x, st')" using a(1,2) True n(1) by (simp add: kmalloc_def kmalloc'_def)
      have "(x, 2 ^ ord) \<notin> page_blocks C"
      proof
        assume "(x, 2 ^ ord) \<in> page_blocks C"
        then obtain F k where F: "(F, k) \<in> C" "x = frame_addr F" by (auto simp: page_blocks_def)
        have "(x, 2 ^ ord) \<in> slab_blocks T'" using a(4) by simp
        then obtain s o2 fl where s: "T' s = Some (o2, fl)" "x \<in> slots s o2" by (auto elim: slab_blockE)
        note P = slab_pagesD [OF kmem_invD(1) [OF a(3)]]
        have c: "slab_chunk s \<in> C \<union> slab_chunk ` dom T'" "slab_chunk s \<notin> C" using s(1) P(2) by blast+
        have "blk (slab_chunk s) \<inter> blk (F, k) = {}"
          by (rule pages_inv_disjoint [OF P(1) c(1)]) (use c(2) F(1) in auto)
        moreover have "unat x div 4096 \<in> blk (slab_chunk s)"
          using slot_frame [OF P(3) slab_heapD(1) [OF kmem_invD(2) [OF a(3)] s(1)] s(2)] s(1) by blast
        moreover have "unat x div 4096 \<in> blk (F, k)" using pages_inv_range(2) [OF P(1), of F k] F by simp
        ultimately show False by blast
      qed
      moreover have "heap_inv st' (insert (x, 2 ^ ord) L)" using a(3,4) L by (auto simp: heap_inv_def)
      ultimately show ?thesis using k ord a(2,5) L by auto
    qed
  next
    case False
    then have big: "2048 < n" by (simp add: SLAB_MAX_SIZE_def SLAB_MAX_ORDER_def)
    define r where "r = (if n \<le> BUDDY_PAGE_SIZE then Some 0 else size_to_page_order n)"
    have unf: "kmalloc st n = do { ord \<leftarrow> r; (a, m1) \<leftarrow> get_pages (mm_phys st) ord; BUG_ON (a = NULL); Some (a, st\<lparr>mm_phys := m1\<rparr>) }"
    proof (cases r)
      case (Some ord)
      then show ?thesis using False n(1)
        by (cases "get_pages (mm_phys st) ord") (auto simp: kmalloc_def kmalloc'_def r_def [symmetric])
    qed (use False n(1) in \<open>simp add: kmalloc_def kmalloc'_def r_def [symmetric]\<close>)
    consider ord where "r = Some ord" "n \<le> 4096 * 2 ^ ord" "\<forall>k. n \<le> 4096 * 2 ^ k \<longrightarrow> ord \<le> k"
      | "r = None" "\<forall>k. n \<le> 4096 * 2 ^ k \<longrightarrow> BUDDY_MAX_ORDER \<le> k"
      using page_order_spec [OF big n(2), folded r_def] by blast
    then show ?thesis
    proof cases
      case 2
      then have "heap_full st n" using False can_get_bound by (fastforce simp: heap_full_def)
      then show ?thesis using 2 by (simp add: unf)
    next
      case 1
      show ?thesis
      proof (cases "can_get (mm_phys st) ord")
        case no: False
        then have "heap_full st n" using False 1(3) can_get_mono by (auto simp: heap_full_def)
        then show ?thesis using no kmalloc_pages_ok [OF I, of ord] 1(1) by (simp add: unf)
      next
        case True
        with kmalloc_pages_ok [OF I, of ord] obtain F m' where g: "get_pages (mm_phys st) ord = Some (frame_addr F, m')"
          "frame_addr F \<noteq> NULL" "kmem_inv (st\<lparr>mm_phys := m'\<rparr>) T (insert (F, ord) C)" "(F, ord) \<notin> C" by auto
        have k: "kmalloc st n = Some (frame_addr F, st\<lparr>mm_phys := m'\<rparr>)" using 1(1) g(1,2) by (simp add: unf)
        let ?b = "(frame_addr F, 4096 * 2 ^ ord :: nat)"
        have inv': "heap_inv (st\<lparr>mm_phys := m'\<rparr>) (insert ?b L)"
          using g(3) L page_blocks_insert [of F ord C] by (auto simp: heap_inv_def)
        have "?b \<notin> L"
        proof
          assume b: "?b \<in> L"
          note P = slab_pagesD [OF kmem_invD(1) [OF g(3)]]
          from b show False unfolding L
          proof
            assume "?b \<in> page_blocks C"
            then obtain G l where "(G, l) \<in> C" "?b = (frame_addr G, 4096 * 2 ^ l)" by (auto simp: page_blocks_def)
            with page_blocks_inj [OF P(1), of F ord G l] g(4) show False by auto
          next
            assume "?b \<in> slab_blocks T"
            then obtain s o2 fl where s: "T s = Some (o2, fl)" "frame_addr F \<in> slots s o2" by (auto elim: slab_blockE)
            have "(F, ord) \<noteq> slab_chunk s" using P(2) s(1) by blast
            then have "blk (F, ord) \<inter> blk (slab_chunk s) = {}"
              using s(1) by (intro pages_inv_disjoint [OF P(1)]) auto
            moreover have "unat (frame_addr F) div 4096 \<in> blk (slab_chunk s)"
              using slot_frame [OF P(3) slab_heapD(1) [OF kmem_invD(2) [OF g(3)] s(1)] s(2)] s(1) by blast
            moreover have "unat (frame_addr F) div 4096 \<in> blk (F, ord)"
              using pages_inv_range(2) [OF P(1), of F ord] by simp
            ultimately show False by blast
          qed
        qed
        then show ?thesis using k 1(2) g(2) inv' by blast
      qed
    qed
  qed
qed

lemma slab_direct_apart:
  assumes inv: "slab_pages m S C" and "s \<in> S" "c \<in> C"
  shows "blk c \<inter> blk (slab_chunk s) = {}"
proof (rule pages_inv_disjoint [OF slab_pagesD(1) [OF inv]])
  show "c \<noteq> slab_chunk s" using slab_pagesD(2) [OF inv] assms(2,3) by blast
qed (use assms(2,3) in auto)

lemma block_addr:
  assumes inv: "kmem_inv st T C" and b: "(a, n) \<in> slab_blocks T \<union> page_blocks C"
  shows "a \<noteq> NULL" "a \<noteq> ZERO_SIZE_PTR" "0 < n" "unat a + n < 2 ^ 64"
proof -
  note P = slab_pagesD [OF kmem_invD(1) [OF inv]]
  have "0 < unat a \<and> 1 < n \<and> unat a + n < 2 ^ 64"
    using b
  proof
    assume "(a, n) \<in> slab_blocks T"
    then obtain s ord fl where s: "n = 2 ^ ord" "T s = Some (ord, fl)" "a \<in> slots s ord" by (auto elim: slab_blockE)
    have ok: "slab_addr_ok s" "slab_order_ok ord" using P(3) s(2) slab_heapD(1) [OF kmem_invD(2) [OF inv] s(2)] by auto
    have "(2 :: nat) ^ 5 \<le> 2 ^ ord" using ok(2) by (intro power_increasing) (auto simp: slab_order_ok_def SLAB_MIN_ORDER_def)
    then show ?thesis using slot_bounds(1,2) [OF ok s(3)] ok(1) s(1) by (simp add: slab_addr_ok_def)
  next
    assume "(a, n) \<in> page_blocks C"
    then obtain F k where F: "(F, k) \<in> C" "a = frame_addr F" "n = 4096 * 2 ^ k" by (auto simp: page_blocks_def)
    have "(1 :: nat) \<le> 2 ^ k" by simp
    then have "Suc 0 < 4096 * 2 ^ k" by linarith
    then show ?thesis using pages_inv_range(1,2) [OF P(1), of F k] F by simp
  qed
  then have u: "0 < unat a" "1 < n" "unat a + n < 2 ^ 64" by auto
  then show "0 < n" "unat a + n < 2 ^ 64" by simp_all
  show "a \<noteq> NULL" using u(1) by auto
  have "unat (- 1 :: u64) = 2 ^ 64 - 1" by (simp add: unsigned_minus_1_eq_mask mask_eq_exp_minus_1)
  then show "a \<noteq> ZERO_SIZE_PTR" using u(2,3) by (auto simp: ZERO_SIZE_PTR_def)
qed

lemma slab_blocks_remove:
  assumes inv: "kmem_inv st T C" and s: "T s = Some (ord, fl)" "x \<in> slots s ord" "x \<notin> set fl"
  shows "slab_blocks (if Suc (length fl) = slab_cnt ord then T(s := None) else T(s \<mapsto> (ord, x # fl))) =
    slab_blocks T - {(x, 2 ^ ord)}" (is "slab_blocks ?T = _")
proof -
  note I = kmem_invD [OF inv]
  note P = slab_pagesD [OF I(1)]
  note D = slab_heapD [OF I(2) s(1)]
  have ok: "slab_addr_ok s" using P(3) s(1) by auto
  have full: "set (x # fl) = slots s ord" if "Suc (length fl) = slab_cnt ord"
  proof (rule card_subset_eq)
    show "finite (slots s ord)" by (simp add: slots_def)
    show "set (x # fl) \<subseteq> slots s ord" using D(3) s(2) by simp
    show "card (set (x # fl)) = card (slots s ord)"
      using that s(3) D(2) distinct_slot_list(2) [OF ok D(1)] by (simp add: distinct_card)
  qed
  have own: "(y, 2 ^ o2) \<noteq> (x, 2 ^ ord :: nat)" if "T t = Some (o2, fl2)" "y \<in> slots t o2" "t \<noteq> s" for y t o2 fl2
  proof -
    have "slots s ord \<inter> slots t o2 = {}"
      using slots_disjoint [OF ok D(1) _ _ slab_apart [OF I(1), of s t]] P(3) [of t]
        slab_heapD(1) [OF I(2) that(1)] that s(1) by blast
    then show ?thesis using that(2) s(2) by blast
  qed
  show ?thesis
  proof (intro equalityI subsetI)
    fix b assume "b \<in> slab_blocks ?T"
    then obtain y t o2 fl2 where y: "b = (y, 2 ^ o2)" "?T t = Some (o2, fl2)" "y \<in> slots t o2" "y \<notin> set fl2"
      by (rule slab_blockE)
    show "b \<in> slab_blocks T - {(x, 2 ^ ord)}"
    proof (cases "t = s")
      case True
      then have "o2 = ord" "fl2 = x # fl" using y(2) by (auto split: if_splits)
      then show ?thesis using True y(1,3,4) s(1) slab_blockI [of T s ord fl y] by auto
    next
      case False
      then have T: "T t = Some (o2, fl2)" using y(2) by (auto split: if_splits)
      then show ?thesis using own [OF T y(3) False] y(1,3,4) slab_blockI [of T t o2 fl2 y] by auto
    qed
  next
    fix b assume b: "b \<in> slab_blocks T - {(x, 2 ^ ord)}"
    then have "b \<in> slab_blocks T" by simp
    then obtain y t o2 fl2 where y: "b = (y, 2 ^ o2)" "T t = Some (o2, fl2)" "y \<in> slots t o2" "y \<notin> set fl2"
      by (rule slab_blockE)
    show "b \<in> slab_blocks ?T"
    proof (cases "t = s")
      case True
      then have yo: "y \<in> slots s ord - set (x # fl)" "o2 = ord" using y s(1) b by auto
      then have "Suc (length fl) \<noteq> slab_cnt ord" using full by blast
      then show ?thesis using y(1) yo slab_blockI [of ?T s ord "x # fl" y] by simp
    next
      case False
      then have "?T t = Some (o2, fl2)" using y(2) by simp
      then show ?thesis using y(1,3,4) slab_blockI [of ?T t o2 fl2 y] by simp
    qed
  qed
qed

lemma kfree_ok:
  assumes inv: "heap_inv st L" and b: "(a, n) \<in> L"
  shows "\<exists>st'. kfree st a = Some st' \<and> heap_inv st' (L - {(a, n)})"
proof -
  from inv obtain T C where I: "kmem_inv st T C" and L: "L = slab_blocks T \<union> page_blocks C" by (auto simp: heap_inv_def)
  note P = slab_pagesD [OF kmem_invD(1) [OF I]]
  have z: "a \<noteq> ZERO_SIZE_PTR" using block_addr(2) [OF I] b L by blast
  have dis: "(a, n) \<notin> slab_blocks T \<or> (a, n) \<notin> page_blocks C"
  proof (rule ccontr)
    assume "\<not> ?thesis"
    then obtain s ord fl F k where s: "T s = Some (ord, fl)" "a \<in> slots s ord" and F: "(F, k) \<in> C" "a = frame_addr F"
      by (auto simp: page_blocks_def elim: slab_blockE)
    have "blk (F, k) \<inter> blk (slab_chunk s) = {}"
      using slab_direct_apart [OF kmem_invD(1) [OF I] _ F(1)] s(1) by blast
    moreover have "unat a div 4096 \<in> blk (slab_chunk s)"
      using slot_frame [OF P(3) slab_heapD(1) [OF kmem_invD(2) [OF I] s(1)] s(2)] s(1) by blast
    moreover have "unat a div 4096 \<in> blk (F, k)" using pages_inv_range(2) [OF P(1), of F k] F by simp
    ultimately show False by blast
  qed
  show ?thesis
  proof (cases "(a, n) \<in> slab_blocks T")
    case True
    then obtain s ord fl where s: "n = 2 ^ ord" "T s = Some (ord, fl)" "a \<in> slots s ord" "a \<notin> set fl"
      by (auto elim: slab_blockE)
    have sd: "s \<in> dom T" and ok: "slab_addr_ok s" using s(2) P(3) by auto
    have F: "unat a div 4096 \<in> blk (slab_chunk s)"
      by (rule slot_frame [OF ok slab_heapD(1) [OF kmem_invD(2) [OF I] s(2)] s(3)])
    obtain p pg where p: "virt_to_page (mm_phys st) a = Some p" "get_page (mm_phys st) p = Some pg" "slab pg = s"
      by (rule slab_at_byte [OF pages_inv_mem_wf [OF P(1)] P(6) [OF sd F] P(4) [OF sd F]])
    have "s \<noteq> NULL" using ok by (auto simp: slab_addr_ok_def)
    then have "kfree st a = free_in_slab st a" using p z by (simp add: kfree_def kfree'_def)
    with free_in_slab_ok [OF I s(2-4)] slab_blocks_remove [OF I s(2-4)] obtain st' T' where
      "kfree st a = Some st'" "kmem_inv st' T' C" "slab_blocks T' = slab_blocks T - {(a, n)}" unfolding s(1) by metis
    moreover have "L - {(a, n)} = (slab_blocks T - {(a, n)}) \<union> page_blocks C" using L dis True by blast
    ultimately show ?thesis unfolding heap_inv_def by metis
  next
    case False
    then have "(a, n) \<in> page_blocks C" using b L by blast
    then obtain F k where F: "(F, k) \<in> C" "a = frame_addr F" "n = 4096 * 2 ^ k" by (auto simp: page_blocks_def)
    have FC: "(F, k) \<in> C \<union> slab_chunk ` dom T" using F(1) by blast
    have uncov: "F \<notin> blk (slab_chunk s)" if "s \<in> dom T" for s
    proof -
      have "blk (F, k) \<inter> blk (slab_chunk s) = {}"
        by (rule slab_direct_apart [OF kmem_invD(1) [OF I] that F(1)])
      moreover have "F \<in> blk (F, k)" by simp
      ultimately show ?thesis by blast
    qed
    have "F \<in> blk (F, k)" by simp
    then have "slab_at (mm_phys st) F = Some NULL" using P(5) uncov pages_inv_range(4) [OF P(1) FC] by blast
    then obtain p pg where p: "virt_to_page (mm_phys st) a = Some p" "get_page (mm_phys st) p = Some pg" "slab pg = NULL"
      unfolding slab_at_def F(2) by (auto simp: bind_eq_Some_conv)
    from free_pages'_ok [OF P(1) FC] obtain m' pl where m': "free_pages' (mm_phys st) a = Some m'"
      "pages_inv m' (C \<union> slab_chunk ` dom T - {(F, k)})" "same_frame pl (mm_phys st) m'" unfolding F(2) by blast
    have "kfree st a = Some (st\<lparr>mm_phys := m'\<rparr>)"
      using m'(1) p z by (auto simp: free_pages'_def kfree_def kfree'_def bind_eq_Some_conv)
    moreover have "C \<union> slab_chunk ` dom T - {(F, k)} = (C - {(F, k)}) \<union> slab_chunk ` dom T" using P(2) F(1) by blast
    then have "slab_pages m' (dom T) (C - {(F, k)})"
      using slab_pages_frame [OF kmem_invD(1) [OF I] m'(3), of "C - {(F, k)}"] m'(2) P(2) by auto
    then have "kmem_inv (st\<lparr>mm_phys := m'\<rparr>) T (C - {(F, k)})" using kmem_invD(2,3) [OF I] by (simp add: kmem_inv_def)
    moreover have "page_blocks (C - {(F, k)}) = page_blocks C - {(a, n)}"
    proof (intro equalityI subsetI)
      fix c assume "c \<in> page_blocks (C - {(F, k)})"
      then obtain G l where G: "(G, l) \<in> C" "(G, l) \<noteq> (F, k)" "c = (frame_addr G, 4096 * 2 ^ l)" by (auto simp: page_blocks_def)
      then have "c \<noteq> (a, n)" using page_blocks_inj [OF P(1), of G l F k] FC F(2,3) by auto
      then show "c \<in> page_blocks C - {(a, n)}" using G(1,3) by (auto simp: page_blocks_def)
    next
      fix c assume "c \<in> page_blocks C - {(a, n)}"
      then show "c \<in> page_blocks (C - {(F, k)})" using F(2,3) by (auto simp: page_blocks_def)
    qed
    moreover have "L - {(a, n)} = slab_blocks T \<union> (page_blocks C - {(a, n)})" using L False by blast
    ultimately show ?thesis unfolding heap_inv_def by metis
  qed
qed

section \<open>The contract of the kernel heap\<close>

text \<open>
  \<open>hinv st L\<close>: the heap is consistent and \<open>L\<close> is the set of live blocks. A request that succeeds
  returns a new block; sizes from \<open>2 ^ 64 - 4095\<close> on wrap in the rounding and are excluded.
\<close>

locale kernel_heap =
  fixes hinv :: "'s \<Rightarrow> (addr \<times> nat) set \<Rightarrow> bool"
    and malloc :: "'s \<Rightarrow> nat \<Rightarrow> (addr \<times> 's) option"
    and free :: "'s \<Rightarrow> addr \<Rightarrow> 's option"
  assumes malloc_ok: "hinv st L \<Longrightarrow> 0 < n \<Longrightarrow> n + 4095 < 2 ^ 64 \<Longrightarrow> malloc st n = Some (a, st') \<Longrightarrow>
      \<exists>b. n \<le> b \<and> (a, b) \<notin> L \<and> hinv st' (insert (a, b) L)"
    and free_ok: "hinv st L \<Longrightarrow> (a, b) \<in> L \<Longrightarrow> \<exists>st'. free st a = Some st' \<and> hinv st' (L - {(a, b)})"
    and live_block: "hinv st L \<Longrightarrow> (a, b) \<in> L \<Longrightarrow> a \<noteq> NULL \<and> 0 < b \<and> unat a + b < 2 ^ 64"
    and live_apart: "hinv st L \<Longrightarrow> c \<in> L \<Longrightarrow> d \<in> L \<Longrightarrow> c \<noteq> d \<Longrightarrow> block_bytes c \<inter> block_bytes d = {}"
begin

lemma live_addr_inj:
  assumes inv: "hinv st L" and "(a, b) \<in> L" "(a, c) \<in> L"
  shows "b = c"
proof (rule ccontr)
  assume "b \<noteq> c"
  then have "block_bytes (a, b) \<inter> block_bytes (a, c) = {}" using live_apart [OF inv assms(2,3)] by blast
  then show False using live_block [OF inv assms(2)] live_block [OF inv assms(3)] by (auto simp: block_bytes_def)
qed

text \<open>A new block overlaps no block in use.\<close>

lemma malloc_fresh:
  assumes inv: "hinv st L" and n: "0 < n" "n + 4095 < 2 ^ 64" and m: "malloc st n = Some (a, st')" and c: "c \<in> L"
  shows "{unat a ..< unat a + n} \<inter> block_bytes c = {}"
proof -
  obtain b where b: "n \<le> b" "(a, b) \<notin> L" "hinv st' (insert (a, b) L)" using malloc_ok [OF inv n m] by blast
  have "block_bytes (a, b) \<inter> block_bytes c = {}" by (rule live_apart [OF b(3)]) (use b(2) c in auto)
  moreover have "{unat a ..< unat a + n} \<subseteq> block_bytes (a, b)" using b(1) by (auto simp: block_bytes_def)
  ultimately show ?thesis by blast
qed

text \<open>Two requests in a row get disjoint memory, and both can be freed in either order.\<close>

lemma malloc_twice:
  assumes inv: "hinv st L" and n: "0 < n" "n + 4095 < 2 ^ 64" "0 < k" "k + 4095 < 2 ^ 64"
    and m: "malloc st n = Some (a, st1)" "malloc st1 k = Some (c, st2)"
  shows "{unat a ..< unat a + n} \<inter> {unat c ..< unat c + k} = {}"
    "\<exists>st3 st4. free st2 a = Some st3 \<and> free st3 c = Some st4 \<and> hinv st4 L"
proof -
  obtain b where b: "n \<le> b" "(a, b) \<notin> L" "hinv st1 (insert (a, b) L)" using malloc_ok [OF inv n(1,2) m(1)] by blast
  obtain d where d: "k \<le> d" "(c, d) \<notin> insert (a, b) L" "hinv st2 (insert (c, d) (insert (a, b) L))"
    using malloc_ok [OF b(3) n(3,4) m(2)] by blast
  have "{unat c ..< unat c + k} \<inter> block_bytes (a, b) = {}" by (rule malloc_fresh [OF b(3) n(3,4) m(2)]) simp
  then show "{unat a ..< unat a + n} \<inter> {unat c ..< unat c + k} = {}"
    using b(1) unfolding block_bytes_def fst_conv snd_conv by auto
  obtain st3 where st3: "free st2 a = Some st3" "hinv st3 (insert (c, d) (insert (a, b) L) - {(a, b)})"
    using free_ok [OF d(3), of a b] by blast
  have e: "insert (c, d) (insert (a, b) L) - {(a, b)} = insert (c, d) L" using b(2) d(2) by auto
  obtain st4 where "free st3 c = Some st4" "hinv st4 (insert (c, d) L - {(c, d)})"
    using free_ok [OF st3(2), of c d] unfolding e by blast
  moreover have "insert (c, d) L - {(c, d)} = L" using d(2) by blast
  ultimately show "\<exists>st3 st4. free st2 a = Some st3 \<and> free st3 c = Some st4 \<and> hinv st4 L" using st3(1) by auto
qed

end

interpretation kh: kernel_heap heap_inv kmalloc kfree
proof
  fix st L n a st'
  assume "heap_inv st L" "0 < n" "n + 4095 < 2 ^ 64" and k: "kmalloc st n = Some (a, st')"
  from kmalloc_ok [OF this(1-3)] show "\<exists>b. n \<le> b \<and> (a, b) \<notin> L \<and> heap_inv st' (insert (a, b) L)"
    unfolding k by auto
next
  fix st L a b
  assume "heap_inv st L" "(a, b) \<in> L"
  then show "\<exists>st'. kfree st a = Some st' \<and> heap_inv st' (L - {(a, b)})" by (rule kfree_ok)
next
  fix st L a b
  assume "heap_inv st L" "(a, b) \<in> L"
  then show "a \<noteq> NULL \<and> 0 < b \<and> unat a + b < 2 ^ 64" using block_addr unfolding heap_inv_def by blast
next
  fix st L and c d :: "addr \<times> nat"
  assume "heap_inv st L" "c \<in> L" "d \<in> L" "c \<noteq> d"
  then show "block_bytes c \<inter> block_bytes d = {}" using blocks_apart unfolding heap_inv_def by blast
qed

section \<open>A heap on one free slab-sized chunk\<close>

definition demo_pool :: phys_mem_pool where
  "demo_pool = \<lparr>
     pool_start_addr = 0x1000000,
     pool_mem_size = 0x40000,
     page_metadata = \<lparr>allocated = 0, order = 6, slab = NULL, page_pool = Some 0\<rparr> # replicate 63 (init_page 0),
     free_lists = (replicate BUDDY_MAX_ORDER \<lparr>free_list = [], nr_free = 0\<rparr>)[6 := \<lparr>free_list = [(0, 0)], nr_free = 1\<rparr>],
     pool_phys_page_num = 64\<rparr>"

definition demo_heap :: mm_state where
  "demo_heap = init_slab \<lparr>mm_phys = \<lparr>global_mem = [demo_pool], physmem_map_num = 1\<rparr>, slab_headers = (\<lambda>_. None),
     next_free = (\<lambda>_. NULL), slab_pool = replicate (Suc SLAB_MAX_ORDER) \<lparr>current_slab = NULL, partial_slab_list = []\<rparr>\<rparr>"

lemma demo_pool_fchunks: "fchunks 0 demo_pool = {(0, 6)}"
proof -
  have "flist demo_pool k = (if k = 6 then [(0, 0)] else [])" if "k < BUDDY_MAX_ORDER" for k
    using that by (simp add: demo_pool_def nth_list_update)
  then show ?thesis by (auto simp: fchunks_def BUDDY_MAX_ORDER_def split: if_splits)
qed

lemma demo_pool_inv: "buddy_inv 0 demo_pool {} {}"
proof (rule buddy_invI)
  show "lists_ok 0 demo_pool"
    by (auto simp: lists_ok_def demo_pool_def nth_list_update BUDDY_MAX_ORDER_def)
  have "tiling 4096 64 {(0, 6)}" by (rule tilingI) (auto simp: BUDDY_MAX_ORDER_def blk_def)
  then show "tiling (pool_base demo_pool) (npages demo_pool) ({} \<union> {} \<union> fchunks 0 demo_pool)"
    unfolding demo_pool_fchunks by (simp add: demo_pool_def pool_base_def)
  show "coalesced 0 demo_pool" unfolding coalesced_def demo_pool_fchunks
    by auto (metis add.right_neutral flip_neq(2) gr0I)
  show "pg_alc demo_pool i = 0 \<and> pg_ord demo_pool i = k" if "(i, k) \<in> fchunks 0 demo_pool" for i k
    using that unfolding demo_pool_fchunks by (simp add: demo_pool_def)
qed auto

lemma init_slab_sel [simp]:
  "mm_phys (init_slab st) = mm_phys st" "slab_headers (init_slab st) = slab_headers st"
  "next_free (init_slab st) = next_free st" "length (slab_pool (init_slab st)) = length (slab_pool st)"
proof -
  have "mm_phys (fold (\<lambda>n. upd_slab_pool n f) ns st) = mm_phys st \<and>
      slab_headers (fold (\<lambda>n. upd_slab_pool n f) ns st) = slab_headers st \<and>
      next_free (fold (\<lambda>n. upd_slab_pool n f) ns st) = next_free st \<and>
      length (slab_pool (fold (\<lambda>n. upd_slab_pool n f) ns st)) = length (slab_pool st)" for f ns
    by (induction ns arbitrary: st) (simp_all add: upd_slab_pool_def)
  then show "mm_phys (init_slab st) = mm_phys st" "slab_headers (init_slab st) = slab_headers st"
    "next_free (init_slab st) = next_free st" "length (slab_pool (init_slab st)) = length (slab_pool st)"
    unfolding init_slab_def by blast+
qed

lemma fold_upd_slab_pool:
  assumes "n < length (slab_pool st)" "n \<in> set ns"
  shows "slab_pool (fold (\<lambda>n. upd_slab_pool n (\<lambda>_. v)) ns st) ! n = v"
  using assms
proof (induction ns arbitrary: st rule: rev_induct)
  case (snoc k ns)
  have "length (slab_pool (fold (\<lambda>n. upd_slab_pool n (\<lambda>_. v)) ns st)) = length (slab_pool st)"
    by (induction ns arbitrary: st) (simp_all add: upd_slab_pool_def)
  moreover have "slab_pool (upd_slab_pool k (\<lambda>_. v) s) ! n = (if n = k \<and> k < length (slab_pool s) then v else slab_pool s ! n)" for s
    by (cases "k < length (slab_pool s)"; cases "n = k") (simp_all add: upd_slab_pool_def list_update_beyond)
  ultimately show ?case using snoc by auto
qed simp

text \<open>After \<open>init_slab\<close> on pages that are all free, the heap has no slab and no live block.\<close>

lemma init_slab_kmem_inv:
  assumes pages: "pages_inv (mm_phys st) {}" and len: "length (slab_pool st) = Suc SLAB_MAX_ORDER"
    and null: "\<And>pl i. pl < physmem_map_num (mm_phys st) \<Longrightarrow> i < npages (global_mem (mm_phys st) ! pl) \<Longrightarrow>
      slab (page_metadata (global_mem (mm_phys st) ! pl) ! i) = NULL"
  shows "kmem_inv (init_slab st) (\<lambda>_. None) {}"
proof -
  let ?m = "mm_phys st"
  have at: "slab_at ?m F = Some NULL" if "frame_known ?m F" for F
    using that
  proof (rule frame_knownE)
    fix pl i assume p: "pl < physmem_map_num ?m" "i < npages (global_mem ?m ! pl)" "F = pool_base (global_mem ?m ! pl) + i"
    then show ?thesis using slab_at_eq [OF pages_inv_mem_wf [OF pages] p(1,2)] null [OF p(1,2)] by simp
  qed
  have "slab_pages ?m {} {}" using pages at by (simp add: slab_pages_def)
  moreover have "slab_pools (slab_pool (init_slab st)) (\<lambda>_. None)"
  proof -
    have "slab_pool (init_slab st) ! n = \<lparr>current_slab = NULL, partial_slab_list = []\<rparr>" if "slab_order_ok n" for n
      unfolding init_slab_def using that len
      by (intro fold_upd_slab_pool) (auto simp: slab_order_ok_def)
    then show ?thesis using len by (simp add: slab_pools_def slab_pool_ok_def)
  qed
  ultimately show ?thesis unfolding kmem_inv_def by (simp add: slab_heap_def)
qed

lemma kmem_inv_no_slabs:
  assumes "kmem_inv st (\<lambda>_. None) {}"
  shows "heap_inv st {}"
proof -
  have "slab_blocks (\<lambda>_. None) = {}" "page_blocks {} = {}" by (simp_all add: slab_blocks_def page_blocks_def)
  then show ?thesis using assms unfolding heap_inv_def by (metis Un_empty)
qed

lemmas init_slab_heap_inv = init_slab_kmem_inv [THEN kmem_inv_no_slabs]

lemma demo_heap_kmem: "kmem_inv demo_heap (\<lambda>_. None) {}"
proof -
  let ?m = "\<lparr>global_mem = [demo_pool], physmem_map_num = 1\<rparr>"
  have wf: "pool_wf 0 demo_pool"
    by (auto simp: pool_wf_def demo_pool_def pool_base_def BUDDY_MAX_ORDER_def init_page_def)
  then have "mem_inv ?m (\<lambda>_. {})" using demo_pool_inv by (simp add: mem_inv_def mem_wf_def)
  moreover have "0 < pool_base demo_pool" by (simp add: demo_pool_def pool_base_def)
  ultimately have pages: "pages_inv ?m {}" unfolding pages_inv_def by (auto simp: chunks_def intro!: exI [of _ "\<lambda>_. {}"])
  have "slab (page_metadata demo_pool ! i) = NULL" if "i < npages demo_pool" for i
    using that by (cases i) (auto simp: demo_pool_def init_page_def)
  then show ?thesis unfolding demo_heap_def
    by (intro init_slab_kmem_inv) (use pages in simp_all)
qed

lemma demo_heap_inv: "heap_inv demo_heap {}" "can_get (mm_phys demo_heap) 6"
  by (rule kmem_inv_no_slabs [OF demo_heap_kmem]) (auto simp: demo_heap_def can_get_def demo_pool_fchunks)

lemma demo_heap_not_full: "\<not> heap_full demo_heap 100"
  using demo_heap_inv(2) by (simp add: heap_full_def SLAB_MAX_SIZE_def SLAB_MAX_ORDER_def)

lemma demo_heap_kmalloc: "\<exists>a b st'. kmalloc demo_heap 100 = Some (a, st') \<and> 100 \<le> b \<and> heap_inv st' {(a, b)}"
  using kmalloc_ok [OF demo_heap_inv(1), of 100] demo_heap_not_full by fastforce

section \<open>Properties\<close>

text \<open>
  C9. \<open>kmalloc\<close> of \<open>n\<close> bytes, for every \<open>n\<close> that rounds up to whole pages without overflow, either returns a
  new block of at least \<open>n\<close> bytes and leaves the heap consistent, or stops because no memory of the
  needed size is left.
\<close>

theorem kmalloc_correct:
  assumes "heap_inv st L" "0 < n" "n + 4095 < 2 ^ 64"
  shows "(\<exists>a b st'. kmalloc st n = Some (a, st') \<and> n \<le> b \<and> (a, b) \<notin> L \<and> a \<noteq> NULL \<and>
       heap_inv st' (insert (a, b) L)) \<or>
    kmalloc st n = None \<and> heap_full st n"
  using assms by (rule kmalloc_ok)

theorem kmalloc_correct_witness:
  "heap_inv demo_heap {} \<and> (\<exists>a b st'. kmalloc demo_heap 100 = Some (a, st') \<and> 100 \<le> b \<and> heap_inv st' {(a, b)})"
  using kmalloc_correct [OF demo_heap_inv(1), of 100] demo_heap_inv(1) demo_heap_not_full by fastforce

text \<open>
  C10. Freeing a live block never stops, whether it came from a slab or from the page allocator, and the
  heap stays consistent with exactly that block gone.
\<close>

theorem kfree_correct:
  assumes "heap_inv st L" "(a, n) \<in> L"
  shows "\<exists>st'. kfree st a = Some st' \<and> heap_inv st' (L - {(a, n)})"
  using assms by (rule kfree_ok)

theorem kfree_correct_witness:
  "\<exists>a b st st'. kmalloc demo_heap 100 = Some (a, st) \<and> (a, b) \<in> {(a, b)} \<and> kfree st a = Some st' \<and> heap_inv st' {}"
proof -
  obtain a b st where st: "kmalloc demo_heap 100 = Some (a, st)" "heap_inv st {(a, b)}" using demo_heap_kmalloc by blast
  from kfree_correct [OF st(2), of a b] st(1) show ?thesis by auto
qed

text \<open>
  C11. Memory safety of the heap: the memory that \<open>kmalloc\<close> returns overlaps no live block, a second request
  gets memory disjoint from the first, and both can be freed again, which restores the heap.
\<close>

theorem kmalloc_safe:
  assumes "heap_inv st L" "0 < n" "n + 4095 < 2 ^ 64" "kmalloc st n = Some (a, st1)"
  shows "(\<forall>d \<in> L. {unat a ..< unat a + n} \<inter> block_bytes d = {}) \<and>
    (\<forall>k c st2. 0 < k \<longrightarrow> k + 4095 < 2 ^ 64 \<longrightarrow> kmalloc st1 k = Some (c, st2) \<longrightarrow>
       {unat a ..< unat a + n} \<inter> {unat c ..< unat c + k} = {} \<and>
       (\<exists>st3 st4. kfree st2 a = Some st3 \<and> kfree st3 c = Some st4 \<and> heap_inv st4 L))"
  using kh.malloc_twice [OF assms(1-3) _ _ assms(4)] kh.malloc_fresh [OF assms] by blast

theorem kmalloc_safe_witness:
  "\<exists>a st1. kmalloc demo_heap 100 = Some (a, st1) \<and>
    (\<forall>k c st2. 0 < k \<longrightarrow> k + 4095 < 2 ^ 64 \<longrightarrow> kmalloc st1 k = Some (c, st2) \<longrightarrow>
       {unat a ..< unat a + 100} \<inter> {unat c ..< unat c + k} = {})"
proof -
  obtain a st where st: "kmalloc demo_heap 100 = Some (a, st)" using demo_heap_kmalloc by blast
  have n: "0 < (100 :: nat)" "100 + 4095 < (2 :: nat) ^ 64" by simp_all
  from kmalloc_safe [OF demo_heap_inv(1) n st] st show ?thesis by blast
qed

text \<open>
  C12. A request so large that rounding it up to whole pages overflows is answered with a single page, so
  the caller gets a block smaller than what was asked for.
\<close>

theorem kmalloc_size_wraps:
  assumes "2 ^ 64 \<le> n + 4095" "n < 2 ^ 64"
  shows "kmalloc st n = kmalloc st BUDDY_PAGE_SIZE"
proof -
  have "word_of_nat n + (4095 :: u64) = word_of_nat (n + 4095)" by simp
  also have "\<dots> = word_of_nat (n + 4095 - 2 ^ 64)"
    using assms(1) by (intro word_of_nat_eq_iff [THEN iffD2]) (simp add: take_bit_eq_mod le_mod_geq)
  finally have w: "word_of_nat n + (4095 :: u64) = word_of_nat (n + 4095 - 2 ^ 64)" .
  let ?x = "word_of_nat (n + 4095 - 2 ^ 64) :: u64"
  have "drop_bit 12 ?x = 0"
    using assms(2) by (simp add: drop_bit_eq_div word_unat_eq_iff unat_div unat_word_of_nat64)
  then have "?x AND NOT 4095 = 0" unfolding and_not_page_mask by simp
  then have "ROUND_UP (word_of_nat n) (word_of_nat BUDDY_PAGE_SIZE) = 0"
    using w by (simp add: ROUND_UP_def BUDDY_PAGE_SIZE_def algebra_simps)
  then have "size_to_page_order n = Some 0"
    by (simp add: size_to_page_order_def Let_def log2_loop.simps)
  then show ?thesis using assms
    by (simp add: kmalloc_def kmalloc'_def SLAB_MAX_SIZE_def SLAB_MAX_ORDER_def BUDDY_PAGE_SIZE_def)
qed

theorem kmalloc_size_wraps_witness:
  "kmalloc demo_heap (2 ^ 64 - 1) = kmalloc demo_heap BUDDY_PAGE_SIZE"
  by (rule kmalloc_size_wraps) simp_all

end
