(* ===== verification/Mm.thy ===== *)
theory Mm
  imports Kmalloc
begin

text \<open>
  Start-up of the memory subsystem and its accounting, \<open>kernel/mm/mm.c\<close>. The ranges of free
  physical memory that the platform's \<open>parse_mem_map\<close> writes into \<open>physmem_map\<close> are an argument.
\<close>

section \<open>Operations\<close>

definition KSTACK_BASE :: addr where "KSTACK_BASE = 0xFFFFFE8000000000"
definition SIZEOF_PAGE_STRUCT :: u64 where "SIZEOF_PAGE_STRUCT = 40"

definition init_buddy_for_one_physmem_map :: "phys_mem \<Rightarrow> (u64 \<times> u64) list \<Rightarrow> nat \<Rightarrow> phys_mem option" where
  "init_buddy_for_one_physmem_map m physmem_map idx =
     do { _ \<leftarrow> (if idx < length physmem_map then Some () else None);
          let (free_mem_start, free_mem_end) = physmem_map ! idx;
          BUG_ON (phys_to_virt free_mem_start \<le> KSTACK_BASE \<and> KSTACK_BASE < phys_to_virt free_mem_end);
          let npages = (free_mem_end - free_mem_start) div (4096 + SIZEOF_PAGE_STRUCT);
          let free_page_start = ROUND_UP (free_mem_start + npages * SIZEOF_PAGE_STRUCT) 4096;
          let npages1 = (free_mem_end - free_page_start) div 4096;
          let npages = (if npages < npages1 then npages else npages1);
          init_buddy m idx (phys_to_virt free_page_start) (unat npages) }"

fun init_pools :: "phys_mem \<Rightarrow> (u64 \<times> u64) list \<Rightarrow> nat list \<Rightarrow> phys_mem option" where
  "init_pools m physmem_map [] = Some m"
| "init_pools m physmem_map (idx # js) =
     do { m1 \<leftarrow> init_buddy_for_one_physmem_map m physmem_map idx; init_pools m1 physmem_map js }"

definition mm_init :: "mm_state \<Rightarrow> (u64 \<times> u64) list \<Rightarrow> mm_state option" where
  "mm_init st physmem_map =
     do { m1 \<leftarrow> init_pools ((mm_phys st)\<lparr>physmem_map_num := length physmem_map\<rparr>) physmem_map [0..<length physmem_map];
          Some (init_slab (st\<lparr>mm_phys := m1\<rparr>)) }"

definition get_free_mem_size :: "mm_state \<Rightarrow> u64 option" where
  "get_free_mem_size st =
     do { sz \<leftarrow> get_free_mem_size_from_slab st;
          Some (fold (\<lambda>i sz. sz + get_free_mem_size_from_buddy (global_mem (mm_phys st) ! i))
                 [0..<physmem_map_num (mm_phys st)] (word_of_nat sz)) }"

definition get_total_mem_size :: "mm_state \<Rightarrow> u64" where
  "get_total_mem_size st =
     fold (\<lambda>i sz. sz + get_total_mem_size_from_buddy (global_mem (mm_phys st) ! i))
       [0..<physmem_map_num (mm_phys st)] 0"

section \<open>Layout of one range\<close>

text \<open>The page metadata and the pages fit into the range and do not overlap.\<close>

definition range_ok :: "u64 \<times> u64 \<Rightarrow> bool" where
  "range_ok r \<longleftrightarrow> 4096 dvd unat (fst r) \<and> unat (fst r) \<le> unat (snd r) \<and> unat (snd r) + 2 ^ 28 \<le> 2 ^ 40"

definition range_npages :: "u64 \<times> u64 \<Rightarrow> nat" where
  "range_npages r = (unat (snd r) - unat (fst r)) div 4136"

definition range_first :: "u64 \<times> u64 \<Rightarrow> nat" where
  "range_first r = (unat (fst r) + 40 * range_npages r + 4095) div 4096"

definition range_count :: "u64 \<times> u64 \<Rightarrow> nat" where
  "range_count r = min (range_npages r) ((unat (snd r) - 4096 * range_first r) div 4096)"

lemma range_layout:
  assumes "range_ok r"
  shows "unat (fst r) + 40 * range_count r \<le> 4096 * range_first r"
    "4096 * range_first r \<le> unat (snd r)"
    "4096 * (range_first r + range_count r) \<le> unat (snd r)"
    "unat (fst r) \<le> 4096 * range_first r"
proof -
  let ?s = "unat (fst r)" and ?e = "unat (snd r)"
  define q where "q = range_npages r"
  have q: "4136 * q \<le> ?e - ?s" by (simp add: q_def range_npages_def)
  have f: "?s + 40 * q \<le> 4096 * range_first r" "4096 * range_first r \<le> ?s + 40 * q + 4095"
    by (simp_all add: range_first_def q_def)
  have c: "range_count r \<le> q" "4096 * range_count r \<le> ?e - 4096 * range_first r"
    using div_times_less_eq_dividend [of "?e - 4096 * range_first r" 4096]
    by (auto simp: range_count_def q_def min_def)
  show "?s + 40 * range_count r \<le> 4096 * range_first r" using f(1) c(1) by linarith
  show "?s \<le> 4096 * range_first r" using f(1) by linarith
  have le: "?s \<le> ?e" using assms by (simp add: range_ok_def)
  show e: "4096 * range_first r \<le> ?e"
  proof (cases "q = 0")
    case True
    obtain b where "?s = 4096 * b" using assms by (auto simp: range_ok_def)
    then have "4096 * range_first r = ?s" using True by (simp add: range_first_def q_def)
    then show ?thesis using le by simp
  next
    case False
    then show ?thesis using f(2) q le by linarith
  qed
  then show "4096 * (range_first r + range_count r) \<le> ?e" using c(2) by simp
qed

lemma unat_ROUND_UP_page:
  assumes "unat x + 4095 < 2 ^ 64"
  shows "unat (ROUND_UP x 4096) = 4096 * ((unat x + 4095) div 4096)"
proof -
  have "ROUND_UP x 4096 = push_bit 12 (drop_bit 12 (x + 4095))"
    by (simp add: ROUND_UP_def add.commute flip: and_not_page_mask)
  also have "\<dots> = (x + 4095) div 4096 * 4096" by (simp add: drop_bit_eq_div push_bit_eq_mult)
  also have "unat \<dots> = 4096 * ((unat x + 4095) div 4096)"
  proof -
    have "unat (x + 4095) = unat x + 4095" using assms by (subst unat_plus_if_size) (simp add: word_size)
    then show ?thesis using assms by (simp add: unat_mult_lem [THEN iffD1] unat_div)
  qed
  finally show ?thesis .
qed

definition KBASE_FRAME :: nat where "KBASE_FRAME = 2 ^ 52 - 2 ^ 28"

lemma init_one_layout:
  assumes "range_ok (s, e)"
  defines "np \<equiv> (e - s) div (4096 + SIZEOF_PAGE_STRUCT)"
  defines "fps \<equiv> ROUND_UP (s + np * SIZEOF_PAGE_STRUCT) 4096"
  defines "np1 \<equiv> (e - fps) div 4096"
  shows "unat (phys_to_virt fps) = 4096 * (KBASE_FRAME + range_first (s, e))"
    "unat (if np < np1 then np else np1) = range_count (s, e)"
proof -
  have se: "unat s \<le> unat e" "unat e + 2 ^ 28 \<le> 2 ^ 40" using assms(1) by (simp_all add: range_ok_def)
  have np: "unat np = range_npages (s, e)"
    using se unfolding np_def range_npages_def by (simp add: unat_div unat_sub word_le_nat_alt SIZEOF_PAGE_STRUCT_def)
  have b: "range_npages (s, e) * 40 \<le> unat e" unfolding range_npages_def by simp
  have 1: "unat (np * SIZEOF_PAGE_STRUCT) = range_npages (s, e) * 40"
    using b se np by (subst unat_mult_lem [THEN iffD1]) (simp_all add: SIZEOF_PAGE_STRUCT_def)
  have 2: "unat (s + np * SIZEOF_PAGE_STRUCT) = unat s + 40 * range_npages (s, e)"
    using b se 1 by (subst unat_plus_if_size) (simp add: word_size)
  have f: "unat fps = 4096 * range_first (s, e)"
    unfolding fps_def using b se 2 by (subst unat_ROUND_UP_page) (simp_all add: range_first_def)
  note L = range_layout [OF assms(1), unfolded fst_conv snd_conv]
  have K: "unat KBASE = 4096 * KBASE_FRAME" by (simp add: KBASE_def KBASE_FRAME_def)
  have "unat fps + unat KBASE < 2 ^ 64" using L(2) se f by (simp add: K KBASE_FRAME_def)
  then have "unat (fps + KBASE) = unat fps + unat KBASE" by (simp add: unat_add_lem [THEN iffD1])
  then show "unat (phys_to_virt fps) = 4096 * (KBASE_FRAME + range_first (s, e))"
    unfolding phys_to_virt_def f K by simp
  have "unat np1 = (unat e - 4096 * range_first (s, e)) div 4096"
    unfolding np1_def using L(2) f by (simp add: unat_div unat_sub word_le_nat_alt)
  then show "unat (if np < np1 then np else np1) = range_count (s, e)"
    using np by (simp add: range_count_def word_less_nat_alt min_def)
qed

text \<open>The frames of a range, as kernel addresses.\<close>

definition range_frames :: "u64 \<times> u64 \<Rightarrow> nat set" where
  "range_frames r = {KBASE_FRAME + range_first r ..< KBASE_FRAME + range_first r + range_count r}"

lemma range_frames_apart:
  assumes ok: "range_ok r" "range_ok q" and dis: "{unat (fst r) ..< unat (snd r)} \<inter> {unat (fst q) ..< unat (snd q)} = {}"
  shows "range_frames r \<inter> range_frames q = {}"
proof (rule ccontr)
  assume "range_frames r \<inter> range_frames q \<noteq> {}"
  then obtain G where "G \<in> range_frames r" "G \<in> range_frames q" by blast
  then obtain F where F: "range_first r \<le> F" "F < range_first r + range_count r"
      "range_first q \<le> F" "F < range_first q + range_count q"
    unfolding range_frames_def by (intro that [of "G - KBASE_FRAME"]) auto
  have "4096 * F \<in> {unat (fst r) ..< unat (snd r)}" "4096 * F \<in> {unat (fst q) ..< unat (snd q)}"
    using F range_layout(3,4) [OF ok(1)] range_layout(3,4) [OF ok(2)] by auto
  then show False using dis by blast
qed

section \<open>Start-up\<close>

lemma init_one_ok:
  assumes wf: "mem_wf m" and idx: "idx < physmem_map_num m" "idx < length rs" and ok: "range_ok (rs ! idx)"
    and dis: "\<And>j. j < physmem_map_num m \<Longrightarrow> j \<noteq> idx \<Longrightarrow> pool_frames (global_mem m ! j) \<inter> range_frames (rs ! idx) = {}"
  shows "\<exists>m'. init_buddy_for_one_physmem_map m rs idx = Some m' \<and> mem_wf m' \<and>
    buddy_inv idx (global_mem m' ! idx) {} {} \<and> pool_frames (global_mem m' ! idx) = range_frames (rs ! idx) \<and>
    0 < pool_base (global_mem m' ! idx) \<and>
    (\<forall>i < npages (global_mem m' ! idx). slab (page_metadata (global_mem m' ! idx) ! i) = NULL) \<and>
    physmem_map_num m' = physmem_map_num m \<and> (\<forall>j. j \<noteq> idx \<longrightarrow> global_mem m' ! j = global_mem m ! j)"
proof -
  obtain s e where r: "rs ! idx = (s, e)" by fastforce
  let ?b = "KBASE_FRAME + range_first (s, e)" and ?n = "range_count (s, e)"
  let ?a = "phys_to_virt (ROUND_UP (s + (e - s) div (4096 + SIZEOF_PAGE_STRUCT) * SIZEOF_PAGE_STRUCT) 4096)"
  note lay = init_one_layout [OF ok [unfolded r]]
  have se: "unat s \<le> unat e" "unat e + 2 ^ 28 \<le> 2 ^ 40" using ok by (simp_all add: r range_ok_def)
  have K: "\<not> phys_to_virt s \<le> KSTACK_BASE"
  proof -
    have K: "unat KBASE = 2 ^ 64 - 2 ^ 40" by (simp add: KBASE_def)
    then have "unat s + unat KBASE < 2 ^ 64" using se by simp
    then have "unat (s + KBASE) = unat s + unat KBASE" by (simp add: unat_add_lem [THEN iffD1])
    then show ?thesis unfolding phys_to_virt_def word_le_nat_alt K by (simp add: KSTACK_BASE_def)
  qed
  have bnd: "4096 * (?b + ?n + 2 ^ BUDDY_MAX_ORDER) \<le> 2 ^ 64"
    using range_layout(3) [OF ok] se by (simp add: r KBASE_FRAME_def BUDDY_MAX_ORDER_def)
  have int: "?n < 2 ^ 31" using range_layout(3) [OF ok] se by (simp add: r)
  have "pool_frames (global_mem m ! j) \<inter> {?b ..< ?b + ?n} = {}" if "j < physmem_map_num m" "j \<noteq> idx" for j
    using dis [OF that] by (simp add: r range_frames_def)
  from init_buddy_ok [OF wf idx(1) lay(1) bnd int this] obtain m' where
    m': "init_buddy m idx ?a ?n = Some m'" "mem_wf m'" "buddy_inv idx (global_mem m' ! idx) {} {}"
      "pool_shape (global_mem m' ! idx) = pool_shape (init_pool idx ?a ?n)"
      "physmem_map_num m' = physmem_map_num m" "\<forall>j. j \<noteq> idx \<longrightarrow> global_mem m' ! j = global_mem m ! j" by blast
  have "init_buddy_for_one_physmem_map m rs idx = Some m'"
    using m'(1) idx(2) K lay(2) by (simp add: init_buddy_for_one_physmem_map_def r Let_def)
  moreover have fr: "pool_frames (global_mem m' ! idx) = {?b ..< ?b + ?n}" "pool_base (global_mem m' ! idx) = ?b"
    using m'(4) lay(1) same_shape_npages [OF m'(4)]
    by (simp_all add: pool_shape_def pool_frames_def pool_base_def init_pool_def)
  moreover have "slab (page_metadata (global_mem m' ! idx) ! i) = NULL" if "i < npages (global_mem m' ! idx)" for i
  proof -
    have "map (\<lambda>g. (slab g, page_pool g)) (page_metadata (global_mem m' ! idx)) ! i = (NULL, Some idx)"
      using m'(4) that same_shape_npages [OF m'(4)] by (simp add: pool_shape_def init_pool_def init_page_def)
    then show ?thesis using that by simp
  qed
  moreover have "0 < ?b" by (simp add: KBASE_FRAME_def)
  ultimately show ?thesis using m' by (simp add: r range_frames_def)
qed

text \<open>The state of the pools when the first \<open>k\<close> ranges are initialised.\<close>

definition pools_ready :: "(u64 \<times> u64) list \<Rightarrow> phys_mem \<Rightarrow> nat \<Rightarrow> bool" where
  "pools_ready rs m k \<longleftrightarrow> mem_wf m \<and> physmem_map_num m = length rs \<and>
     (\<forall>j < length rs. if j < k then buddy_inv j (global_mem m ! j) {} {} \<and> 0 < pool_base (global_mem m ! j) \<and>
        pool_frames (global_mem m ! j) = range_frames (rs ! j) \<and>
        (\<forall>i < npages (global_mem m ! j). slab (page_metadata (global_mem m ! j) ! i) = NULL)
      else pool_frames (global_mem m ! j) = {})"

definition ranges_ok :: "(u64 \<times> u64) list \<Rightarrow> bool" where
  "ranges_ok rs \<longleftrightarrow> (\<forall>r \<in> set rs. range_ok r) \<and>
     (\<forall>i < length rs. \<forall>j < length rs. i \<noteq> j \<longrightarrow>
        {unat (fst (rs ! i)) ..< unat (snd (rs ! i))} \<inter> {unat (fst (rs ! j)) ..< unat (snd (rs ! j))} = {})"

lemma init_pools_step:
  assumes rs: "ranges_ok rs" and m: "pools_ready rs m k" and k: "k < length rs"
  shows "\<exists>m'. init_buddy_for_one_physmem_map m rs k = Some m' \<and> pools_ready rs m' (Suc k)"
proof -
  have "range_frames (rs ! j) \<inter> range_frames (rs ! k) = {}" if "j < length rs" "j \<noteq> k" for j
    using rs that k by (intro range_frames_apart) (auto simp: ranges_ok_def)
  then have "pool_frames (global_mem m ! j) \<inter> range_frames (rs ! k) = {}" if "j < physmem_map_num m" "j \<noteq> k" for j
    using m that by (cases "j < k") (auto simp: pools_ready_def)
  moreover have "range_ok (rs ! k)" using rs k by (simp add: ranges_ok_def)
  moreover have "mem_wf m" "k < physmem_map_num m" using m k by (simp_all add: pools_ready_def)
  ultimately obtain m' where m': "init_buddy_for_one_physmem_map m rs k = Some m'" "mem_wf m'"
    "buddy_inv k (global_mem m' ! k) {} {}" "pool_frames (global_mem m' ! k) = range_frames (rs ! k)"
    "0 < pool_base (global_mem m' ! k)"
    "\<forall>i < npages (global_mem m' ! k). slab (page_metadata (global_mem m' ! k) ! i) = NULL"
    "physmem_map_num m' = physmem_map_num m" "\<forall>j. j \<noteq> k \<longrightarrow> global_mem m' ! j = global_mem m ! j"
    using init_one_ok [OF _ _ k] by blast
  have "pools_ready rs m' (Suc k)"
    unfolding pools_ready_def
  proof (intro conjI allI impI)
    fix j assume "j < length rs"
    then show "if j < Suc k then buddy_inv j (global_mem m' ! j) {} {} \<and> 0 < pool_base (global_mem m' ! j) \<and>
        pool_frames (global_mem m' ! j) = range_frames (rs ! j) \<and>
        (\<forall>i < npages (global_mem m' ! j). slab (page_metadata (global_mem m' ! j) ! i) = NULL)
      else pool_frames (global_mem m' ! j) = {}"
      using m m' unfolding pools_ready_def by (cases "j = k") (simp_all split: if_splits)
  qed (use m m' in \<open>simp_all add: pools_ready_def\<close>)
  then show ?thesis using m'(1) by blast
qed

lemma init_pools_ok:
  assumes rs: "ranges_ok rs" and m: "pools_ready rs m k" and k: "k \<le> length rs"
  shows "\<exists>m'. init_pools m rs [k..<length rs] = Some m' \<and> pools_ready rs m' (length rs)"
  using m k
proof (induction "length rs - k" arbitrary: m k)
  case 0
  then show ?case by simp
next
  case (Suc n)
  then have k: "k < length rs" by simp
  from init_pools_step [OF rs Suc.prems(1) k] obtain m1 where
    m1: "init_buddy_for_one_physmem_map m rs k = Some m1" "pools_ready rs m1 (Suc k)" by blast
  with Suc.hyps(1) [OF _ m1(2)] Suc.hyps(2) k show ?case by (simp add: upt_conv_Cons)
qed

text \<open>The zeroed state in which the kernel image is loaded.\<close>

definition N_PHYS_MEM_POOLS :: nat where "N_PHYS_MEM_POOLS = 8"

definition boot_state :: mm_state where
  "boot_state = \<lparr>mm_phys = boot_mem N_PHYS_MEM_POOLS, slab_headers = (\<lambda>_. None), next_free = (\<lambda>_. NULL),
     slab_pool = replicate (Suc SLAB_MAX_ORDER) \<lparr>current_slab = NULL, partial_slab_list = []\<rparr>\<rparr>"

lemma boot_ready:
  assumes "length rs \<le> N_PHYS_MEM_POOLS"
  shows "pools_ready rs ((boot_mem N_PHYS_MEM_POOLS)\<lparr>physmem_map_num := length rs\<rparr>) 0"
proof -
  have "mem_wf (boot_mem N_PHYS_MEM_POOLS)" by (rule boot_mem_wf)
  then show ?thesis using assms
    by (auto simp: pools_ready_def mem_wf_def boot_mem_def pool_frames_def init_pool_def)
qed

text \<open>
  C13. Start-up: for at most eight disjoint page-aligned ranges of physical memory below the direct map's
  limit, \<open>mm_init\<close> succeeds and yields an empty consistent heap whose pools hold exactly the pages that remain
  in each range behind its page metadata; in particular the pages and the metadata do not overlap.
\<close>

theorem mm_init_correct:
  assumes "ranges_ok rs" "length rs \<le> N_PHYS_MEM_POOLS"
  shows "\<exists>st. mm_init boot_state rs = Some st \<and> heap_inv st {} \<and>
    (\<forall>j < length rs. pool_frames (global_mem (mm_phys st) ! j) = range_frames (rs ! j) \<and>
       unat (fst (rs ! j)) + 40 * range_count (rs ! j) \<le> 4096 * range_first (rs ! j) \<and>
       4096 * (range_first (rs ! j) + range_count (rs ! j)) \<le> unat (snd (rs ! j)))"
proof -
  from init_pools_ok [OF assms(1) boot_ready [OF assms(2)]] obtain m where
    m: "init_pools ((mm_phys boot_state)\<lparr>physmem_map_num := length rs\<rparr>) rs [0..<length rs] = Some m"
      "pools_ready rs m (length rs)" by (auto simp: boot_state_def)
  let ?st = "boot_state\<lparr>mm_phys := m\<rparr>"
  have "mem_inv m (\<lambda>_. {})" using m(2) by (simp add: mem_inv_def pools_ready_def)
  then have "pages_inv (mm_phys ?st) {}"
    using m(2) by (auto simp: pages_inv_def pools_ready_def chunks_def intro!: exI [of _ "\<lambda>_. {}"])
  moreover have "length (slab_pool ?st) = Suc SLAB_MAX_ORDER" by (simp add: boot_state_def)
  ultimately have "heap_inv (init_slab ?st) {}"
    using m(2) by (intro init_slab_heap_inv) (simp_all add: pools_ready_def)
  moreover have "mm_init boot_state rs = Some (init_slab ?st)" using m(1) by (simp add: mm_init_def)
  moreover have "range_ok (rs ! j)" if "j < length rs" for j using assms(1) that by (simp add: ranges_ok_def)
  ultimately show ?thesis using m(2) range_layout(1,3) by (auto simp: pools_ready_def)
qed

theorem mm_init_correct_witness:
  "\<exists>st. mm_init boot_state [(0x200000, 0x400000), (0x8400000, 0x8800000)] = Some st \<and> heap_inv st {}"
proof -
  have "ranges_ok [(0x200000, 0x400000), (0x8400000, 0x8800000)]"
    by (auto simp: ranges_ok_def range_ok_def less_Suc_eq)
  then show ?thesis using mm_init_correct [of "[(0x200000, 0x400000), (0x8400000, 0x8800000)]"]
    by (auto simp: N_PHYS_MEM_POOLS_def)
qed

section \<open>Accounting\<close>

text \<open>The free slots of an order, over all slabs that have some.\<close>

definition free_slots :: "slab_table \<Rightarrow> nat \<Rightarrow> nat" where
  "free_slots T ord = (\<Sum>s | \<exists>fl. T s = Some (ord, fl) \<and> fl \<noteq> []. length (snd (the (T s))))"

lemma count_slabs_ok:
  assumes I: "kmem_inv st T C" and "\<forall>s \<in> set ss. \<exists>fl. T s = Some (ord, fl)"
  shows "count_slabs st ss (n, k) =
    Some (n + (\<Sum>s \<leftarrow> ss. length (snd (the (T s)))), k + (\<Sum>s \<leftarrow> ss. length (snd (the (T s)))))"
  using assms(2)
proof (induction ss arbitrary: n k)
  case (Cons s ss)
  then obtain fl where T: "T s = Some (ord, fl)" by auto
  have H: "slab_order_ok ord" "distinct fl" "set fl \<subseteq> slots s ord" "header_ok (slab_headers st) (next_free st) s ord fl"
    using kmem_invD(2) [OF I] T unfolding slab_heap_def by blast+
  have "slab_addr_ok s" using kmem_invD(1) [OF I] T unfolding slab_pages_def by blast
  then have lt: "length fl < 8192" by (rule free_count_nonzero(2) [OF H(1) _ H(2,3)])
  obtain h where h: "slab_headers st s = Some h" "current_free_cnt h = word_of_nat (length fl)"
    "chain (next_free st) (free_list_head h) fl" using H(4) unfolding header_ok_def by blast
  have "count_slots SLOT_FUEL (next_free st) (free_list_head h) = Some (length fl)"
    by (rule count_slots_chain [OF h(3)]) (simp add: SLOT_FUEL_def lt)
  moreover have "unat (current_free_cnt h) = length fl" using lt by (simp add: h(2) unat_of_nat take_bit_eq_mod)
  ultimately show ?case using Cons h(1) T by (simp add: add.assoc)
qed simp

lemma get_free_slot_number_ok:
  assumes I: "kmem_inv st T C" and ord: "slab_order_ok ord"
  shows "get_free_slot_number st ord = Some (free_slots T ord)"
proof -
  let ?p = "slab_pool st ! ord" and ?f = "\<lambda>s. length (snd (the (T s)))"
  note P = slab_pools_get [OF kmem_invD(3) [OF I] ord]
  let ?ss = "(if current_slab ?p \<noteq> NULL then [current_slab ?p] else []) @ partial_slab_list ?p"
  have mem: "s \<in> set ?ss \<longleftrightarrow> (\<exists>fl. T s = Some (ord, fl) \<and> fl \<noteq> [])" for s
    using P(2) unfolding slab_pool_ok_def by auto
  have "distinct ?ss" using P(2) unfolding slab_pool_ok_def by auto
  then have "(\<Sum>s \<leftarrow> ?ss. ?f s) = (\<Sum>s \<in> set ?ss. ?f s)" by (rule sum_list_distinct_conv_sum_set)
  also have "\<dots> = free_slots T ord" unfolding free_slots_def using mem by (intro sum.cong) auto
  finally have sum: "(\<Sum>s \<leftarrow> ?ss. ?f s) = free_slots T ord" .
  have all: "\<forall>s \<in> set (partial_slab_list ?p). \<exists>fl. T s = Some (ord, fl)"
    "current_slab ?p \<noteq> NULL \<Longrightarrow> \<forall>s \<in> set [current_slab ?p]. \<exists>fl. T s = Some (ord, fl)"
    using mem by fastforce+
  show ?thesis
  proof (cases "current_slab ?p = NULL")
    case True
    then show ?thesis using P(1) sum by (simp add: get_free_slot_number_def count_slabs_ok [OF I all(1)])
  next
    case False
    show ?thesis using P(1) sum False
      by (simp add: get_free_slot_number_def count_slabs_ok [OF I all(1)] count_slabs_ok [OF I all(2)]
        del: count_slabs.simps)
  qed
qed

lemma free_mem_of_orders_ok:
  assumes I: "kmem_inv st T C" and "\<forall>n \<in> set os. slab_order_ok n"
  shows "free_mem_of_orders st os k = Some (k + (\<Sum>n \<leftarrow> os. 2 ^ n * free_slots T n))"
  using assms(2) by (induction os arbitrary: k) (simp_all add: get_free_slot_number_ok [OF I] order_to_size_def)

lemma free_mem_from_slab_ok:
  assumes "kmem_inv st T C"
  shows "get_free_mem_size_from_slab st = Some (\<Sum>n \<in> {SLAB_MIN_ORDER..SLAB_MAX_ORDER}. 2 ^ n * free_slots T n)"
proof -
  have "set [SLAB_MIN_ORDER..<SLAB_MAX_ORDER + 1] = {SLAB_MIN_ORDER..SLAB_MAX_ORDER}" by auto
  then show ?thesis
    unfolding get_free_mem_size_from_slab_def
    by (subst free_mem_of_orders_ok [OF assms]) (auto simp: slab_order_ok_def sum_list_distinct_conv_sum_set
      simp del: upt_Suc)
qed

text \<open>The pages of the free chunks of one pool.\<close>

definition free_pages :: "phys_mem \<Rightarrow> nat \<Rightarrow> nat" where
  "free_pages m pl = (\<Sum>(i, k) \<in> fchunks pl (global_mem m ! pl). 2 ^ k)"

lemma free_mem_from_buddy_ok:
  assumes "kmem_inv st T C" "pl < physmem_map_num (mm_phys st)"
  shows "get_free_mem_size_from_buddy (global_mem (mm_phys st) ! pl) = word_of_nat (4096 * free_pages (mm_phys st) pl)"
proof -
  have "pages_inv (mm_phys st) (C \<union> slab_chunk ` dom T)"
    using kmem_invD(1) [OF assms(1)] unfolding slab_pages_def by (rule conjunct1)
  then obtain A where A: "mem_inv (mm_phys st) A" unfolding pages_inv_def by blast
  have "unat (get_free_mem_size_from_buddy (global_mem (mm_phys st) ! pl)) = 4096 * free_pages (mm_phys st) pl"
    unfolding free_pages_def
    by (rule free_size_chunks(1) [OF mem_wf_pool [OF mem_invD(1) [OF A assms(2)] assms(2)] mem_invD(2) [OF A assms(2)]])
  then have "word_of_nat (unat (get_free_mem_size_from_buddy (global_mem (mm_phys st) ! pl))) =
      (word_of_nat (4096 * free_pages (mm_phys st) pl) :: u64)" by (rule arg_cong)
  then show ?thesis by simp
qed

text \<open>
  C14. On a consistent heap the walk over the free slots of every slab ends and its cross-check against the
  slab headers never fails, and \<open>get_free_mem_size\<close> is, as a 64-bit value, the size of all free slots of all
  slabs plus 4096 bytes for every page of every chunk on a free list.
\<close>

theorem get_free_mem_size_correct:
  assumes "kmem_inv st T C"
  shows "get_free_mem_size st = Some (word_of_nat (
    (\<Sum>n \<in> {SLAB_MIN_ORDER..SLAB_MAX_ORDER}. 2 ^ n * free_slots T n) +
    (\<Sum>pl < physmem_map_num (mm_phys st). \<Sum>(i, k) \<in> fchunks pl (global_mem (mm_phys st) ! pl). 4096 * 2 ^ k)))"
proof -
  let ?n = "physmem_map_num (mm_phys st)" and ?S = "\<Sum>n \<in> {SLAB_MIN_ORDER..SLAB_MAX_ORDER}. 2 ^ n * free_slots T n"
  have "get_free_mem_size st = Some (word_of_nat ?S + (\<Sum>pl < ?n. get_free_mem_size_from_buddy (global_mem (mm_phys st) ! pl)))"
    by (simp add: get_free_mem_size_def free_mem_from_slab_ok [OF assms] fold_add_sum
      sum_list_distinct_conv_sum_set atLeast0LessThan del: of_nat_sum)
  also have "(\<Sum>pl < ?n. get_free_mem_size_from_buddy (global_mem (mm_phys st) ! pl)) =
      word_of_nat (\<Sum>pl < ?n. 4096 * free_pages (mm_phys st) pl)"
    unfolding of_nat_sum by (intro sum.cong) (auto simp: free_mem_from_buddy_ok [OF assms])
  finally show ?thesis
    unfolding free_pages_def sum_distrib_left case_prod_unfold of_nat_add [symmetric] .
qed

theorem get_free_mem_size_correct_witness:
  "kmem_inv demo_heap (\<lambda>_. None) {} \<and> get_free_mem_size demo_heap = Some 0x40000"
proof -
  have "physmem_map_num (mm_phys demo_heap) = 1" "fchunks 0 (global_mem (mm_phys demo_heap) ! 0) = {(0, 6)}"
    by (simp_all add: demo_heap_def demo_pool_fchunks)
  then show ?thesis
    using get_free_mem_size_correct [OF demo_heap_kmem] demo_heap_kmem by (simp add: free_slots_def)
qed

end
