(* ===== verification/Intrusive_List.thy ===== *)
theory Intrusive_List
  imports Kernel_Prelude
begin

text \<open>
  The intrusive lists of \<open>kernel/include/common/list.h\<close> and the hash table of
  \<open>common/hashtable.h\<close>, on an explicit store of \<open>next\<close> and \<open>prev\<close> fields. The other components model
  a \<open>struct list_head\<close> as the HOL list of the objects linked on it; the lemmas here justify that: every
  operation on the linked nodes is the list operation, and the traversal macros visit that list.

  A node stands for the structure that contains it, so \<open>container_of\<close> is the identity.
\<close>

section \<open>Doubly linked lists: operations\<close>

record list_heap =
  list_next :: "addr \<Rightarrow> addr"
  list_prev :: "addr \<Rightarrow> addr"

definition set_next :: "addr \<Rightarrow> addr \<Rightarrow> list_heap \<Rightarrow> list_heap" where
  "set_next a v h = h\<lparr>list_next := (list_next h)(a := v)\<rparr>"

definition set_prev :: "addr \<Rightarrow> addr \<Rightarrow> list_heap \<Rightarrow> list_heap" where
  "set_prev a v h = h\<lparr>list_prev := (list_prev h)(a := v)\<rparr>"

definition init_list_head :: "addr \<Rightarrow> list_heap \<Rightarrow> list_heap" where
  "init_list_head l h = set_prev l l (set_next l l h)"

definition list_add :: "addr \<Rightarrow> addr \<Rightarrow> list_heap \<Rightarrow> list_heap" where
  "list_add new head h =
     (let h1 = set_next new (list_next h head) h;
          h2 = set_prev new head h1;
          h3 = set_prev (list_next h2 head) new h2
      in set_next head new h3)"

definition list_append :: "addr \<Rightarrow> addr \<Rightarrow> list_heap \<Rightarrow> list_heap" where
  "list_append new head h = list_add new (list_prev h head) h"

definition list_del :: "addr \<Rightarrow> list_heap \<Rightarrow> list_heap" where
  "list_del node h =
     (let h1 = set_next (list_prev h node) (list_next h node) h
      in set_prev (list_next h1 node) (list_prev h1 node) h1)"

definition list_empty :: "addr \<Rightarrow> list_heap \<Rightarrow> bool" where
  "list_empty head h \<longleftrightarrow> list_next h head = head"

definition next_container_of_safe :: "list_heap \<Rightarrow> addr \<Rightarrow> addr" where
  "next_container_of_safe h obj = (if obj \<noteq> NULL then list_next h obj else NULL)"

text \<open>
  The two traversal macros with a loop body \<open>f\<close> that updates the store; the result holds the elements
  visited. \<open>for_each_in_list_safe\<close> fetches the successor before it runs the body.
\<close>

fun for_each_in_list :: "nat \<Rightarrow> (addr \<Rightarrow> list_heap \<Rightarrow> list_heap) \<Rightarrow> addr \<Rightarrow> addr \<Rightarrow> list_heap \<Rightarrow> (addr list \<times> list_heap) option" where
  "for_each_in_list 0 f head elem h = None"
| "for_each_in_list (Suc n) f head elem h =
     (if elem = head then Some ([], h)
      else do { let h1 = f elem h;
                (es, h2) \<leftarrow> for_each_in_list n f head (list_next h1 elem) h1;
                Some (elem # es, h2) })"

fun for_each_in_list_safe ::
  "nat \<Rightarrow> (addr \<Rightarrow> list_heap \<Rightarrow> list_heap) \<Rightarrow> addr \<Rightarrow> addr \<Rightarrow> addr \<Rightarrow> list_heap \<Rightarrow> (addr list \<times> list_heap) option" where
  "for_each_in_list_safe 0 f head elem tmp h = None"
| "for_each_in_list_safe (Suc n) f head elem tmp h =
     (if elem = head then Some ([], h)
      else do { let h1 = f elem h;
                (es, h2) \<leftarrow> for_each_in_list_safe n f head tmp (next_container_of_safe h1 tmp) h1;
                Some (elem # es, h2) })"

section \<open>Doubly linked lists: correctness\<close>

lemma list_heap_sel [simp]:
  "list_next (set_next a v h) = (list_next h)(a := v)" "list_prev (set_next a v h) = list_prev h"
  "list_next (set_prev a v h) = list_next h" "list_prev (set_prev a v h) = (list_prev h)(a := v)"
  by (simp_all add: set_next_def set_prev_def)

text \<open>The nodes \<open>xs\<close> are linked between \<open>a\<close> and \<open>b\<close> in both directions.\<close>

fun lseg :: "list_heap \<Rightarrow> addr \<Rightarrow> addr list \<Rightarrow> addr \<Rightarrow> bool" where
  "lseg h a [] b \<longleftrightarrow> list_next h a = b \<and> list_prev h b = a"
| "lseg h a (x # xs) b \<longleftrightarrow> list_next h a = x \<and> list_prev h x = a \<and> lseg h x xs b"

definition dlist :: "list_heap \<Rightarrow> addr \<Rightarrow> addr list \<Rightarrow> bool" where
  "dlist h head xs \<longleftrightarrow> lseg h head xs head \<and> distinct (head # xs)"

text \<open>A segment can be cut between any two nodes.\<close>

lemma lseg_split: "lseg h a (ys @ zs) b \<longleftrightarrow> lseg h a ys (hd (zs @ [b])) \<and> lseg h (last (a # ys)) zs b"
proof (induction ys arbitrary: a)
  case Nil
  then show ?case by (cases zs) auto
qed auto

lemma lseg_ends:
  assumes "lseg h a xs b"
  shows "list_next h a = hd (xs @ [b])" "list_prev h b = last (a # xs)"
  using assms by (induction xs arbitrary: a) auto

text \<open>Both halves when the link between them is redirected to \<open>c\<close> and from \<open>n\<close>.\<close>

lemma lseg_left:
  assumes "lseg h a ys b" "p = last (a # ys)" "distinct (a # ys)" "list_next h' p = c" "list_prev h' c = p"
    "\<forall>y \<in> insert a (set ys) - {p}. list_next h' y = list_next h y" "\<forall>y \<in> set ys. list_prev h' y = list_prev h y"
  shows "lseg h' a ys c"
  using assms
proof (induction ys arbitrary: a)
  case (Cons x ys)
  then have "lseg h x ys b" "p = last (x # ys)" "p \<noteq> a" using last_in_set [of "x # ys"] by auto
  then have "lseg h' x ys c" using Cons.prems by (intro Cons.IH) auto
  then show ?case using Cons.prems \<open>p \<noteq> a\<close> by auto
qed simp

lemma lseg_right:
  assumes "lseg h a zs b" "q = hd (zs @ [b])" "distinct (zs @ [b])" "list_next h' n = q" "list_prev h' q = n"
    "\<forall>y \<in> set zs. list_next h' y = list_next h y" "\<forall>y \<in> insert b (set zs) - {q}. list_prev h' y = list_prev h y"
  shows "lseg h' n zs b"
proof -
  have "lseg h x xs b \<Longrightarrow> \<forall>y \<in> insert x (set xs). list_next h' y = list_next h y \<Longrightarrow>
      \<forall>y \<in> insert b (set xs). list_prev h' y = list_prev h y \<Longrightarrow> lseg h' x xs b" for x xs
    by (induction xs arbitrary: x) auto
  then show ?thesis using assms by (cases zs) auto
qed

lemma hd_last_in: "hd (zs @ [b]) \<in> insert b (set zs)" "last (a # ys) \<in> insert a (set ys)"
  by (cases zs) auto

text \<open>Insertion behind any node of the circle: \<open>p\<close> is the last node before the new one.\<close>

lemma list_add_after:
  assumes h: "dlist h head (ys @ zs)" and p: "p = last (head # ys)" and new: "new \<notin> insert head (set (ys @ zs))"
  shows "dlist (list_add new p h) head (ys @ new # zs)"
proof -
  define q where "q = hd (zs @ [head])"
  let ?h = "list_add new p h"
  have seg: "lseg h head ys q" "lseg h p zs head" and d: "distinct (head # ys @ zs)"
    using h unfolding dlist_def lseg_split by (simp_all add: p q_def)
  have q: "list_next h p = q" using lseg_ends(1) [OF seg(2)] by (simp add: q_def)
  have ends: "p \<in> insert head (set ys)" "q \<in> insert head (set zs)" unfolding p q_def by (rule hd_last_in)+
  have ne: "new \<noteq> p" "new \<noteq> q" using new ends by auto
  have nx: "list_next ?h = (list_next h)(new := q, p := new)" and pv: "list_prev ?h = (list_prev h)(new := p, q := new)"
    using ne q by (auto simp: list_add_def Let_def)
  have pz: "p \<notin> set zs" and qy: "q \<notin> set ys" using ends d by auto
  have "lseg ?h head ys new"
    by (rule lseg_left [OF seg(1) p]) (use d new ne qy in \<open>auto simp: nx pv\<close>)
  moreover have "lseg ?h new zs head"
    by (rule lseg_right [OF seg(2) q_def]) (use d new ne pz in \<open>auto simp: nx pv\<close>)
  moreover have "list_next ?h p = new" "list_prev ?h new = p" using ne by (simp_all add: nx pv)
  ultimately have "lseg ?h head (ys @ new # zs) head" unfolding lseg_split p [symmetric] by simp
  then show ?thesis using d new unfolding dlist_def by auto
qed

lemma list_del_between:
  assumes h: "dlist h head (ys @ node # zs)"
  shows "dlist (list_del node h) head (ys @ zs)"
proof -
  define p where "p = last (head # ys)"
  define q where "q = hd (zs @ [head])"
  let ?h = "list_del node h"
  have seg: "lseg h head ys node" "lseg h node zs head" and d: "distinct (head # ys @ node # zs)"
    using h unfolding dlist_def lseg_split [of h head ys] by simp_all
  have e: "list_prev h node = p" "list_next h node = q"
    using lseg_ends(2) [OF seg(1)] lseg_ends(1) [OF seg(2)] by (simp_all add: p_def q_def)
  have ends: "p \<in> insert head (set ys)" "q \<in> insert head (set zs)" unfolding p_def q_def by (rule hd_last_in)+
  have ne: "node \<noteq> p" "node \<noteq> q" using d ends by auto
  have nx: "list_next ?h = (list_next h)(p := q)" and pv: "list_prev ?h = (list_prev h)(q := p)"
    using ne e by (auto simp: list_del_def Let_def)
  have pz: "p \<notin> set zs" and qy: "q \<notin> set ys" using ends d by auto
  have "lseg ?h head ys q"
    by (rule lseg_left [OF seg(1) p_def]) (use d qy in \<open>auto simp: nx pv\<close>)
  moreover have "lseg ?h p zs head"
    by (rule lseg_right [OF seg(2) q_def]) (use d pz in \<open>auto simp: nx pv\<close>)
  ultimately have "lseg ?h head (ys @ zs) head" unfolding lseg_split p_def [symmetric] q_def [symmetric] by simp
  then show ?thesis using d unfolding dlist_def by simp
qed

lemma dlist_init: "dlist (init_list_head head h) head []"
  by (simp add: dlist_def init_list_head_def)

lemma dlist_add: "dlist h head xs \<Longrightarrow> new \<notin> insert head (set xs) \<Longrightarrow> dlist (list_add new head h) head (new # xs)"
  using list_add_after [of h head "[]" xs] by simp

lemma dlist_append:
  assumes "dlist h head xs" "new \<notin> insert head (set xs)"
  shows "dlist (list_append new head h) head (xs @ [new])"
proof -
  have "list_prev h head = last (head # xs)" using assms(1) lseg_ends(2) unfolding dlist_def by blast
  then show ?thesis using list_add_after [of h head xs "[]"] assms by (simp add: list_append_def)
qed

lemma dlist_del:
  assumes h: "dlist h head xs" and x: "x \<in> set xs"
  shows "dlist (list_del x h) head (remove1 x xs)"
proof -
  obtain ys zs where xs: "xs = ys @ x # zs" using split_list [OF x] by blast
  then have "x \<notin> set ys" using h by (simp add: dlist_def)
  then have "remove1 x xs = ys @ zs" by (simp add: xs remove1_append)
  then show ?thesis using list_del_between h xs by simp
qed

lemma dlist_empty: "dlist h head xs \<Longrightarrow> list_empty head h \<longleftrightarrow> xs = []"
  by (cases xs) (auto simp: dlist_def list_empty_def)

text \<open>A traversal visits exactly the elements, in order.\<close>

lemma for_each_seg:
  assumes "lseg h a xs head" "head \<notin> set xs" "length xs < n"
  shows "for_each_in_list n (\<lambda>_ h. h) head (list_next h a) h = Some (xs, h)"
  using assms
proof (induction xs arbitrary: a n)
  case Nil
  then show ?case by (cases n) auto
next
  case (Cons x xs)
  then show ?case by (cases n) auto
qed

text \<open>Removing every element while iterating with the safe macro visits all of them and leaves the empty list.\<close>

lemma for_each_safe_del:
  assumes "dlist h head xs" "length xs < n" "NULL \<notin> set xs"
  shows "\<exists>h'. for_each_in_list_safe n list_del head (list_next h head)
      (next_container_of_safe h (list_next h head)) h = Some (xs, h') \<and> dlist h' head []"
  using assms
proof (induction xs arbitrary: h n)
  case Nil
  then have "list_next h head = head" by (simp add: dlist_def)
  then show ?case using Nil by (cases n) auto
next
  case (Cons x xs)
  then obtain k where n: "n = Suc k" by (cases n) auto
  have d: "dlist (list_del x h) head xs" using dlist_del [OF Cons.prems(1), of x] by simp
  have x: "list_next h head = x" "x \<noteq> head" "x \<noteq> NULL" using Cons.prems by (auto simp: dlist_def)
  have "list_next h x = hd (xs @ [head])" using Cons.prems(1) lseg_ends(1) by (auto simp: dlist_def)
  moreover have "list_next (list_del x h) head = hd (xs @ [head])" using d lseg_ends(1) unfolding dlist_def by blast
  ultimately have "next_container_of_safe h x = list_next (list_del x h) head" using x by (simp add: next_container_of_safe_def)
  then show ?case using Cons.IH [OF d, of k] Cons.prems n x by auto
qed

section \<open>The contract of a list\<close>

text \<open>What the clients of \<open>list.h\<close> rely on: the store represents a list of distinct objects.\<close>

locale linked_list =
  fixes rep :: "'s \<Rightarrow> 'l \<Rightarrow> 'l list \<Rightarrow> bool"
    and ladd lappend :: "'l \<Rightarrow> 'l \<Rightarrow> 's \<Rightarrow> 's" and ldel :: "'l \<Rightarrow> 's \<Rightarrow> 's" and lempty :: "'l \<Rightarrow> 's \<Rightarrow> bool"
  assumes rep_distinct: "rep s l xs \<Longrightarrow> distinct (l # xs)"
    and rep_add: "rep s l xs \<Longrightarrow> x \<notin> insert l (set xs) \<Longrightarrow> rep (ladd x l s) l (x # xs)"
    and rep_append: "rep s l xs \<Longrightarrow> x \<notin> insert l (set xs) \<Longrightarrow> rep (lappend x l s) l (xs @ [x])"
    and rep_del: "rep s l xs \<Longrightarrow> x \<in> set xs \<Longrightarrow> rep (ldel x s) l (remove1 x xs)"
    and rep_empty: "rep s l xs \<Longrightarrow> lempty l s \<longleftrightarrow> xs = []"
begin

lemma add_del: "rep s l xs \<Longrightarrow> x \<notin> insert l (set xs) \<Longrightarrow> rep (ldel x (ladd x l s)) l xs"
  using rep_del [OF rep_add, of s l xs x x] by simp

lemma append_many:
  assumes "rep s l xs" "distinct (l # xs @ ys)"
  shows "rep (fold (\<lambda>x. lappend x l) ys s) l (xs @ ys)"
  using assms
proof (induction ys arbitrary: s xs)
  case (Cons y ys)
  then have "rep (lappend y l s) l (xs @ [y])" by (intro rep_append) auto
  from Cons.IH [OF this] Cons.prems show ?case by simp
qed simp

text \<open>Moving the first element to the end, as the run queues do on a yield, rotates the list.\<close>

lemma rotate_head:
  assumes "rep s l (x # xs)"
  shows "rep (lappend x l (ldel x s)) l (xs @ [x])"
proof -
  have "rep (ldel x s) l xs" using rep_del [OF assms, of x] by simp
  then show ?thesis using rep_distinct [OF assms] by (intro rep_append) auto
qed

end

interpretation kl: linked_list dlist list_add list_append list_del list_empty
proof
  show "distinct (l # xs)" if "dlist s l xs" for s l xs using that by (simp add: dlist_def)
qed (fact dlist_add dlist_append dlist_del dlist_empty)+

section \<open>Hash chains: operations\<close>

text \<open>
  A chain's nodes are linked by \<open>next\<close>; \<open>pprev\<close> points to the field that points to the node, which is the
  \<open>next\<close> field of a head or of a node. Heads are numbered (the buckets of a table).
\<close>

datatype hfield = HNull | HHead nat | HNode addr

record hlist_heap =
  hfirst :: "nat \<Rightarrow> addr"
  hnext :: "addr \<Rightarrow> addr"
  pprev :: "addr \<Rightarrow> hfield"

definition set_hnext :: "hfield \<Rightarrow> addr \<Rightarrow> hlist_heap \<Rightarrow> hlist_heap option" where
  "set_hnext f v h = (case f of HNull \<Rightarrow> None
     | HHead i \<Rightarrow> Some (h\<lparr>hfirst := (hfirst h)(i := v)\<rparr>)
     | HNode a \<Rightarrow> Some (h\<lparr>hnext := (hnext h)(a := v)\<rparr>))"

definition set_pprev :: "addr \<Rightarrow> hfield \<Rightarrow> hlist_heap \<Rightarrow> hlist_heap" where
  "set_pprev a f h = h\<lparr>pprev := (pprev h)(a := f)\<rparr>"

definition init_hlist_head :: "nat \<Rightarrow> hlist_heap \<Rightarrow> hlist_heap" where
  "init_hlist_head i h = h\<lparr>hfirst := (hfirst h)(i := NULL)\<rparr>"

definition init_hlist_node :: "addr \<Rightarrow> hlist_heap \<Rightarrow> hlist_heap" where
  "init_hlist_node a h = set_pprev a HNull (h\<lparr>hnext := (hnext h)(a := NULL)\<rparr>)"

definition hlist_add :: "addr \<Rightarrow> nat \<Rightarrow> hlist_heap \<Rightarrow> hlist_heap" where
  "hlist_add new i h =
     (let h1 = h\<lparr>hnext := (hnext h)(new := hfirst h i)\<rparr>;
          h2 = set_pprev new (HHead i) h1;
          h3 = (if hfirst h2 i \<noteq> NULL then set_pprev (hfirst h2 i) (HNode new) h2 else h2)
      in h3\<lparr>hfirst := (hfirst h3)(i := new)\<rparr>)"

definition hlist_del :: "addr \<Rightarrow> hlist_heap \<Rightarrow> hlist_heap option" where
  "hlist_del node h =
     (let h1 = (if hnext h node \<noteq> NULL then set_pprev (hnext h node) (pprev h node) h else h)
      in set_hnext (pprev h1 node) (hnext h1 node) h1)"

definition hlist_empty :: "nat \<Rightarrow> hlist_heap \<Rightarrow> bool" where
  "hlist_empty i h \<longleftrightarrow> hfirst h i = NULL"

fun for_each_in_hlist :: "nat \<Rightarrow> hlist_heap \<Rightarrow> addr \<Rightarrow> addr list option" where
  "for_each_in_hlist 0 h elem = None"
| "for_each_in_hlist (Suc n) h elem =
     (if elem = NULL then Some [] else map_option ((#) elem) (for_each_in_hlist n h (hnext h elem)))"

text \<open>The table of \<open>ht_size\<close> buckets; \<open>key % ht->ht_size\<close> is computed on unsigned 32-bit values.\<close>

definition htable_bucket :: "nat \<Rightarrow> u32 \<Rightarrow> nat" where
  "htable_bucket ht_size key = unat key mod ht_size"

definition init_htable :: "nat \<Rightarrow> hlist_heap \<Rightarrow> hlist_heap" where
  "init_htable ht_size h = fold init_hlist_head [0..<ht_size] h"

definition htable_add :: "nat \<Rightarrow> u32 \<Rightarrow> addr \<Rightarrow> hlist_heap \<Rightarrow> hlist_heap" where
  "htable_add ht_size key node h = hlist_add node (htable_bucket ht_size key) h"

definition htable_del :: "addr \<Rightarrow> hlist_heap \<Rightarrow> hlist_heap option" where
  "htable_del node h = hlist_del node h"

definition htable_empty :: "nat \<Rightarrow> hlist_heap \<Rightarrow> bool" where
  "htable_empty ht_size h \<longleftrightarrow> list_all (\<lambda>i. hlist_empty i h) [0..<ht_size]"

section \<open>Hash chains: correctness\<close>

definition hval :: "hlist_heap \<Rightarrow> hfield \<Rightarrow> addr" where
  "hval h f = (case f of HNull \<Rightarrow> NULL | HHead i \<Rightarrow> hfirst h i | HNode a \<Rightarrow> hnext h a)"

fun hseg :: "hlist_heap \<Rightarrow> hfield \<Rightarrow> addr list \<Rightarrow> bool" where
  "hseg h f [] \<longleftrightarrow> hval h f = NULL"
| "hseg h f (x # xs) \<longleftrightarrow> hval h f = x \<and> x \<noteq> NULL \<and> pprev h x = f \<and> hseg h (HNode x) xs"

text \<open>The buckets hold the chains \<open>B\<close>; no node is on two of them.\<close>

definition htable_rep :: "nat \<Rightarrow> hlist_heap \<Rightarrow> (nat \<Rightarrow> addr list) \<Rightarrow> bool" where
  "htable_rep ht_size h B \<longleftrightarrow> (\<forall>i < ht_size. hseg h (HHead i) (B i) \<and> distinct (B i)) \<and>
     (\<forall>i < ht_size. \<forall>j < ht_size. i \<noteq> j \<longrightarrow> set (B i) \<inter> set (B j) = {})"

lemma hseg_frame:
  assumes "hseg h f xs" "hval h' f = hval h f" "\<forall>x \<in> set xs. hnext h' x = hnext h x \<and> pprev h' x = pprev h x"
  shows "hseg h' f xs"
  using assms by (induction xs arbitrary: f) (auto simp: hval_def)

lemma hseg_null: "hseg h f xs \<Longrightarrow> NULL \<notin> set xs"
  by (induction xs arbitrary: f) auto

lemma hseg_append:
  "hseg h f (ys @ zs) \<Longrightarrow> hseg h (if ys = [] then f else HNode (last ys)) zs"
  by (induction ys arbitrary: f) (auto split: if_splits)

lemma hlist_add_sel:
  assumes "new \<noteq> hfirst h i"
  shows "hfirst (hlist_add new i h) = (hfirst h)(i := new)" "hnext (hlist_add new i h) = (hnext h)(new := hfirst h i)"
    "pprev (hlist_add new i h) = (if hfirst h i = NULL then (pprev h)(new := HHead i)
       else (pprev h)(new := HHead i, hfirst h i := HNode new))"
  using assms by (auto simp: hlist_add_def Let_def set_pprev_def)

lemma htable_add_rep:
  fixes key :: u32
  assumes rep: "htable_rep ht_size h B" and sz: "0 < ht_size" and new: "new \<noteq> NULL" "\<And>i. i < ht_size \<Longrightarrow> new \<notin> set (B i)"
  defines "k \<equiv> htable_bucket ht_size key"
  shows "htable_rep ht_size (htable_add ht_size key new h) (B(k := new # B k))"
proof -
  let ?h = "hlist_add new k h"
  have k: "k < ht_size" using sz by (simp add: k_def htable_bucket_def)
  have segs: "hseg h (HHead i) (B i)" "distinct (B i)" if "i < ht_size" for i using rep that by (simp_all add: htable_rep_def)
  have first: "hfirst h i = (case B i of [] \<Rightarrow> NULL | x # _ \<Rightarrow> x)" if "i < ht_size" for i
    using segs(1) [OF that] by (cases "B i") (auto simp: hval_def)
  have ne: "new \<noteq> hfirst h k" using first [OF k] new(1) new(2) [OF k] by (auto split: list.splits)
  note sel = hlist_add_sel [OF ne]
  have fin: "hfirst h k = NULL \<or> hfirst h k \<in> set (B k)" using first [OF k] by (auto split: list.splits)
  have others: "hseg ?h (HHead i) (B i)" if i: "i < ht_size" "i \<noteq> k" for i
  proof (rule hseg_frame [OF segs(1) [OF i(1)]])
    show "hval ?h (HHead i) = hval h (HHead i)" using i by (simp add: hval_def sel)
    have "set (B i) \<inter> set (B k) = {}" using rep i k by (simp add: htable_rep_def)
    then show "\<forall>x \<in> set (B i). hnext ?h x = hnext h x \<and> pprev ?h x = pprev h x"
      using fin new i(1) hseg_null [OF segs(1) [OF i(1)]] by (auto simp: sel)
  qed
  have "hseg ?h (HHead k) (new # B k)"
  proof (cases "B k")
    case Nil
    then show ?thesis using first [OF k] new by (simp add: sel hval_def)
  next
    case (Cons x xs)
    have x: "hfirst h k = x" "x \<noteq> NULL" "new \<noteq> x" "new \<notin> set xs" "x \<notin> set xs" "hseg h (HNode x) xs"
      using segs [OF k] new(2) [OF k] Cons first [OF k] by auto
    have "hseg ?h (HNode x) xs"
      by (rule hseg_frame [OF x(6)]) (use x in \<open>auto simp: sel hval_def\<close>)
    then show ?thesis using Cons x new by (simp add: sel hval_def)
  qed
  then show ?thesis using others rep k new(2)
    unfolding htable_rep_def htable_add_def k_def [symmetric] by auto
qed

lemma hseg_pprev:
  assumes "hseg h f (ys @ x # zs)"
  shows "pprev h x = (if ys = [] then f else HNode (last ys))" "hnext h x = (case zs of [] \<Rightarrow> NULL | z # _ \<Rightarrow> z)"
  using assms by (induction ys arbitrary: f) (auto simp: hval_def split: list.splits if_splits)

lemma hlist_del_sel:
  assumes "pprev h x \<noteq> HNull" "x \<noteq> hnext h x"
  shows "\<exists>h'. hlist_del x h = Some h' \<and>
    (\<forall>g. hval h' g = (if g = pprev h x then hnext h x else hval h g)) \<and>
    (\<forall>y. pprev h' y = (if y = hnext h x \<and> y \<noteq> NULL then pprev h x else pprev h y))"
  using assms by (cases "pprev h x") (auto simp: hlist_del_def Let_def set_hnext_def set_pprev_def hval_def split: hfield.split)

lemma hseg_del:
  assumes "hseg h f (ys @ x # zs)" "distinct (ys @ x # zs)" "\<forall>y \<in> set (ys @ x # zs). f \<noteq> HNode y"
    and v: "\<And>g. hval h' g = (if g = pprev h x then hnext h x else hval h g)"
    and p: "\<And>y. pprev h' y = (if y = hnext h x \<and> y \<noteq> NULL then pprev h x else pprev h y)"
  shows "hseg h' f (ys @ zs)"
  using assms(1-3)
proof (induction ys arbitrary: f)
  case Nil
  have e: "pprev h x = f" "hnext h x = (case zs of [] \<Rightarrow> NULL | z # _ \<Rightarrow> z)" using hseg_pprev [of h f "[]"] Nil by simp_all
  show ?case
  proof (cases zs)
    case Nil
    then show ?thesis using e v [of f] by simp
  next
    case (Cons z zs')
    have z: "hseg h (HNode z) zs'" "z \<noteq> NULL" using Nil.prems(1) Cons by (auto simp: hval_def)
    have "hval h' (HNode y) = hval h (HNode y)" if "y \<in> set zs" for y using v [of "HNode y"] e Nil.prems(3) that by auto
    moreover have "pprev h' y = pprev h y" if "y \<in> set zs'" for y using p [of y] e Nil.prems(2) Cons that by auto
    ultimately have "hseg h' (HNode z) zs'" using Cons by (intro hseg_frame [OF z(1)]) (auto simp: hval_def)
    then show ?thesis using Cons e v [of f] p [of z] z by simp
  qed
next
  case (Cons y ys)
  have e: "pprev h x = HNode (last (y # ys))" "hnext h x = (case zs of [] \<Rightarrow> NULL | z # _ \<Rightarrow> z)"
    using hseg_pprev [of h f "y # ys" x zs] Cons.prems(1) by simp_all
  have "hseg h' (HNode y) (ys @ zs)" using Cons.prems by (intro Cons.IH) auto
  moreover have "f \<noteq> HNode (last (y # ys))" using Cons.prems(3) last_in_set [of "y # ys"] by auto
  then have "hval h' f = hval h f" using v [of f] e by simp
  moreover have "pprev h' y = pprev h y" using p [of y] e Cons.prems by (auto split: list.splits)
  ultimately show ?case using Cons.prems by simp
qed

lemma htable_del_rep:
  assumes rep: "htable_rep ht_size h B" and k: "k < ht_size" and x: "x \<in> set (B k)"
  shows "\<exists>h'. htable_del x h = Some h' \<and> htable_rep ht_size h' (B(k := remove1 x (B k)))"
proof -
  have segs: "hseg h (HHead i) (B i)" "distinct (B i)" if "i < ht_size" for i using rep that by (simp_all add: htable_rep_def)
  obtain ys zs where B: "B k = ys @ x # zs" using split_list [OF x] by blast
  have s: "hseg h (HHead k) (ys @ x # zs)" "distinct (ys @ x # zs)" using segs [OF k] by (simp_all add: B)
  note e = hseg_pprev [OF s(1)]
  have "pprev h x \<noteq> HNull" "x \<noteq> hnext h x" using e s(2) hseg_null [OF s(1)] by (auto split: list.splits)
  from hlist_del_sel [OF this] obtain h' where h': "hlist_del x h = Some h'"
    "\<And>g. hval h' g = (if g = pprev h x then hnext h x else hval h g)"
    "\<And>y. pprev h' y = (if y = hnext h x \<and> y \<noteq> NULL then pprev h x else pprev h y)" by blast
  have "hseg h' (HHead k) (ys @ zs)" by (rule hseg_del [OF s _ h'(2,3)]) simp
  moreover have "remove1 x (B k) = ys @ zs" using s(2) by (simp add: B remove1_append)
  moreover have "hseg h' (HHead i) (B i)" if i: "i < ht_size" "i \<noteq> k" for i
  proof (rule hseg_frame [OF segs(1) [OF i(1)]])
    show "hval h' (HHead i) = hval h (HHead i)" using h'(2) [of "HHead i"] e(1) i by auto
    have d: "set (B i) \<inter> set (ys @ x # zs) = {}" using rep i k B by (metis htable_rep_def)
    show "\<forall>y \<in> set (B i). hnext h' y = hnext h y \<and> pprev h' y = pprev h y"
    proof
      fix y assume y: "y \<in> set (B i)"
      have "HNode y \<noteq> pprev h x" using e(1) d y last_in_set [of ys] by auto
      then have "hnext h' y = hnext h y" using h'(2) [of "HNode y"] by (simp add: hval_def)
      moreover have "\<not> (y = hnext h x \<and> y \<noteq> NULL)" using e(2) d y by (auto split: list.splits)
      then have "pprev h' y = pprev h y" using h'(3) [of y] by auto
      ultimately show "hnext h' y = hnext h y \<and> pprev h' y = pprev h y" ..
    qed
  qed
  ultimately have heads: "hseg h' (HHead i) ((B(k := remove1 x (B k))) i)" if "i < ht_size" for i using that by simp
  have sub: "set ((B(k := remove1 x (B k))) i) \<subseteq> set (B i)" for i by (simp add: set_remove1_subset)
  have "htable_rep ht_size h' (B(k := remove1 x (B k)))"
    unfolding htable_rep_def
  proof (intro conjI allI impI)
    fix i j assume "i < ht_size" "j < ht_size" "i \<noteq> j"
    then have "set (B i) \<inter> set (B j) = {}" using rep by (simp add: htable_rep_def)
    then show "set ((B(k := remove1 x (B k))) i) \<inter> set ((B(k := remove1 x (B k))) j) = {}" using sub by blast
  qed (use heads segs(2) in auto)
  then show ?thesis using h'(1) by (auto simp: htable_del_def)
qed

lemma htable_empty_rep: "htable_rep ht_size h B \<Longrightarrow> htable_empty ht_size h \<longleftrightarrow> (\<forall>i < ht_size. B i = [])"
proof -
  assume rep: "htable_rep ht_size h B"
  have "hlist_empty i h \<longleftrightarrow> B i = []" if "i < ht_size" for i
    using rep that by (cases "B i") (auto simp: htable_rep_def hlist_empty_def hval_def)
  then show ?thesis by (auto simp: htable_empty_def list_all_iff)
qed

lemma for_each_in_hlist_seg:
  "hseg h f xs \<Longrightarrow> length xs < n \<Longrightarrow> for_each_in_hlist n h (hval h f) = Some xs"
proof (induction xs arbitrary: f n)
  case Nil
  then show ?case by (cases n) auto
next
  case (Cons x xs)
  then obtain m where n: "n = Suc m" by (cases n) auto
  have "for_each_in_hlist m h (hval h (HNode x)) = Some xs" using Cons n by simp
  then show ?case using Cons.prems n by (simp add: hval_def)
qed

section \<open>Properties\<close>

text \<open>
  C15. The pointer operations of \<open>list.h\<close> refine the list operations: adding, appending, removing and testing a
  linked list act on the represented list as cons, append, \<open>remove1\<close> and the emptiness test, moving the
  head to the tail rotates it, the traversal ends and visits its elements in order, and removing every
  element during a safe traversal visits all of them and leaves the list empty.
\<close>

theorem list_ops_refine:
  assumes "dlist h head xs"
  shows "(\<forall>x. x \<notin> insert head (set xs) \<longrightarrow>
       dlist (list_add x head h) head (x # xs) \<and> dlist (list_append x head h) head (xs @ [x]) \<and>
       dlist (list_del x (list_add x head h)) head xs) \<and>
    (\<forall>x \<in> set xs. dlist (list_del x h) head (remove1 x xs)) \<and>
    (\<forall>y ys. xs = y # ys \<longrightarrow> dlist (list_append y head (list_del y h)) head (ys @ [y])) \<and>
    (list_empty head h \<longleftrightarrow> xs = []) \<and>
    for_each_in_list (Suc (length xs)) (\<lambda>_ h. h) head (list_next h head) h = Some (xs, h) \<and>
    (NULL \<notin> set xs \<longrightarrow> (\<exists>h'. for_each_in_list_safe (Suc (length xs)) list_del head (list_next h head)
       (next_container_of_safe h (list_next h head)) h = Some (xs, h') \<and> dlist h' head []))"
proof -
  have "lseg h head xs head" "head \<notin> set xs" using assms by (simp_all add: dlist_def)
  moreover have "\<forall>y ys. xs = y # ys \<longrightarrow> dlist (list_append y head (list_del y h)) head (ys @ [y])"
    using kl.rotate_head assms by blast
  ultimately show ?thesis
    using for_each_seg [of h head xs head "Suc (length xs)"]
      kl.rep_add [OF assms] kl.rep_append [OF assms] kl.add_del [OF assms] kl.rep_del [OF assms]
      kl.rep_empty [OF assms] for_each_safe_del [OF assms, of "Suc (length xs)"]
    by (simp del: for_each_in_list.simps for_each_in_list_safe.simps)
qed

theorem list_ops_refine_witness:
  "dlist (list_add 0x200 0x100 (init_list_head 0x100 \<lparr>list_next = \<lambda>_. 0, list_prev = \<lambda>_. 0\<rparr>)) 0x100 [0x200]"
  using list_ops_refine [OF dlist_init [of "0x100" "\<lparr>list_next = \<lambda>_. 0, list_prev = \<lambda>_. 0\<rparr>"]] by simp

text \<open>
  C16. The hash table keeps its buckets as disjoint chains: an added node goes to the front of the bucket of
  its key, removing a node finds its predecessor through \<open>pprev\<close> and takes it out of its bucket only, and the
  emptiness test is that of all buckets.
\<close>

theorem htable_ops_refine:
  assumes "htable_rep ht_size h B" "0 < ht_size"
  shows "(\<forall>x key. x \<noteq> NULL \<longrightarrow> (\<forall>i < ht_size. x \<notin> set (B i)) \<longrightarrow>
       htable_rep ht_size (htable_add ht_size key x h)
         (B(htable_bucket ht_size key := x # B (htable_bucket ht_size key)))) \<and>
    (\<forall>k < ht_size. \<forall>x \<in> set (B k). \<exists>h'. htable_del x h = Some h' \<and>
       htable_rep ht_size h' (B(k := remove1 x (B k)))) \<and>
    (htable_empty ht_size h \<longleftrightarrow> (\<forall>i < ht_size. B i = [])) \<and>
    (\<forall>k < ht_size. for_each_in_hlist (Suc (length (B k))) h (hfirst h k) = Some (B k))"
proof -
  have "for_each_in_hlist (Suc (length (B k))) h (hfirst h k) = Some (B k)" if "k < ht_size" for k
    using for_each_in_hlist_seg [of h "HHead k" "B k"] assms(1) that
    by (simp add: htable_rep_def hval_def del: for_each_in_hlist.simps)
  then show ?thesis using htable_add_rep [OF assms] htable_del_rep [OF assms(1)] htable_empty_rep [OF assms(1)] by blast
qed

theorem htable_ops_refine_witness:
  "\<exists>h. htable_rep 4 h (\<lambda>_. []) \<and> htable_rep 4 (htable_add 4 7 0x200 h) ((\<lambda>_. [])(3 := [0x200]))"
proof -
  let ?h = "\<lparr>hfirst = \<lambda>_. NULL, hnext = \<lambda>_. NULL, pprev = \<lambda>_. HNull\<rparr>"
  have "htable_rep 4 ?h (\<lambda>_. [])" by (simp add: htable_rep_def hval_def)
  moreover from htable_ops_refine [OF this, THEN conjunct1, rule_format, of "0x200" 7] have "htable_rep 4 (htable_add 4 7 0x200 ?h) ((\<lambda>_. [])(3 := [0x200]))"
    by (simp add: htable_bucket_def)
  ultimately show ?thesis by blast
qed

end
