(* ===== verification/Ring_Buffer.thy ===== *)
theory Ring_Buffer
  imports Kernel_Prelude
begin

text \<open>
  The message ring of \<open>kernel/lib/ring_buffer.c\<close>, through which the kernel tells the process manager
  about exits and the pager about faults. Offsets are 64-bit words as in the code and the buffer is its
  bytes; the correctness lemmas show that it refines a queue of at most \<open>n - 1\<close> messages, where \<open>n\<close> is
  the number of slots.
\<close>

section \<open>Operations\<close>

type_synonym byte = "8 word"

record ring_buffer =
  buffer_size :: u64
  consumer_offset :: u64
  producer_offset :: u64
  msg_size :: u64
  rb_data :: "u64 \<Rightarrow> byte"

definition RING_BUFFER_FULL :: int where "RING_BUFFER_FULL = 1"
definition RING_BUFFER_NOT_FULL :: int where "RING_BUFFER_NOT_FULL = 0"
definition MSG_OP_SUCCESS :: int where "MSG_OP_SUCCESS = 1"
definition MSG_OP_FAILURE :: int where "MSG_OP_FAILURE = 0"

definition SIZEOF_RING_BUFFER :: u64 where "SIZEOF_RING_BUFFER = 32"

definition next_slot :: "ring_buffer \<Rightarrow> u64 \<Rightarrow> u64" where
  "next_slot rb off = (if off = buffer_size rb - msg_size rb then SIZEOF_RING_BUFFER else off + msg_size rb)"

text \<open>The two directions of \<open>memcpy\<close> between the buffer at an offset and a message.\<close>

definition read_bytes :: "(u64 \<Rightarrow> byte) \<Rightarrow> u64 \<Rightarrow> nat \<Rightarrow> byte list" where
  "read_bytes d off len = map (\<lambda>j. d (off + word_of_nat j)) [0..<len]"

definition write_bytes :: "(u64 \<Rightarrow> byte) \<Rightarrow> u64 \<Rightarrow> byte list \<Rightarrow> u64 \<Rightarrow> byte" where
  "write_bytes d off msg = (\<lambda>a. if unat (a - off) < length msg then msg ! unat (a - off) else d a)"

definition get_one_msg :: "ring_buffer \<Rightarrow> byte list \<Rightarrow> int \<times> byte list \<times> ring_buffer" where
  "get_one_msg rb msg =
     (if producer_offset rb = consumer_offset rb then (MSG_OP_FAILURE, msg, rb)
      else (MSG_OP_SUCCESS, read_bytes (rb_data rb) (consumer_offset rb) (unat (msg_size rb)),
            rb\<lparr>consumer_offset := next_slot rb (consumer_offset rb)\<rparr>))"

definition if_buffer_full :: "ring_buffer \<Rightarrow> int" where
  "if_buffer_full rb =
     (if consumer_offset rb = next_slot rb (producer_offset rb) then RING_BUFFER_FULL else RING_BUFFER_NOT_FULL)"

definition set_one_msg :: "ring_buffer \<Rightarrow> byte list \<Rightarrow> int \<times> ring_buffer" where
  "set_one_msg rb msg =
     (if if_buffer_full rb \<noteq> 0 then (MSG_OP_FAILURE, rb)
      else (MSG_OP_SUCCESS,
            rb\<lparr>rb_data := write_bytes (rb_data rb) (producer_offset rb) (take (unat (msg_size rb)) msg),
               producer_offset := next_slot rb (producer_offset rb)\<rparr>))"

section \<open>The queue in the buffer\<close>

definition slot_off :: "u64 \<Rightarrow> nat \<Rightarrow> u64" where
  "slot_off s i = SIZEOF_RING_BUFFER + word_of_nat i * s"

definition rb_wf :: "nat \<Rightarrow> ring_buffer \<Rightarrow> bool" where
  "rb_wf n rb \<longleftrightarrow> 0 < n \<and> 0 < unat (msg_size rb) \<and> unat (buffer_size rb) = 32 + n * unat (msg_size rb)"

definition rb_rep :: "nat \<Rightarrow> ring_buffer \<Rightarrow> byte list list \<Rightarrow> bool" where
  "rb_rep n rb q \<longleftrightarrow> rb_wf n rb \<and> length q < n \<and> (\<exists>c < n.
     consumer_offset rb = slot_off (msg_size rb) c \<and>
     producer_offset rb = slot_off (msg_size rb) ((c + length q) mod n) \<and>
     (\<forall>k < length q. read_bytes (rb_data rb) (slot_off (msg_size rb) ((c + k) mod n)) (unat (msg_size rb)) = q ! k))"

lemma unat_slot_off:
  assumes "rb_wf n rb" "i \<le> n"
  shows "unat (slot_off (msg_size rb) i) = 32 + i * unat (msg_size rb)"
proof -
  let ?s = "unat (msg_size rb)"
  have "i * ?s \<le> n * ?s" using assms(2) by simp
  moreover have "unat (buffer_size rb) < 2 ^ 64" using unat_less64 by blast
  ultimately have b: "32 + i * ?s < 2 ^ 64" using assms(1) unfolding rb_wf_def by linarith
  have "slot_off (msg_size rb) i = word_of_nat (32 + i * ?s)" by (simp add: slot_off_def SIZEOF_RING_BUFFER_def)
  then show ?thesis using b by (simp only: unat_of_nat take_bit_eq_mod) simp
qed

lemma slot_off_inj:
  assumes wf: "rb_wf n rb" and "i < n" "j < n"
  shows "slot_off (msg_size rb) i = slot_off (msg_size rb) j \<longleftrightarrow> i = j"
proof -
  have "0 < unat (msg_size rb)" using wf by (simp add: rb_wf_def)
  then show ?thesis unfolding word_unat_eq_iff
    using unat_slot_off [OF wf, of i] unat_slot_off [OF wf, of j] assms(2,3) by simp
qed

lemma next_slot_off:
  assumes wf: "rb_wf n rb" and i: "i < n"
  shows "next_slot rb (slot_off (msg_size rb) i) = slot_off (msg_size rb) (Suc i mod n)"
proof -
  let ?s = "unat (msg_size rb)"
  have "unat (buffer_size rb - msg_size rb) = unat (buffer_size rb) - ?s"
    using wf by (intro unat_sub64) (cases n, auto simp: rb_wf_def)
  also have "\<dots> = 32 + (n - 1) * ?s" using wf by (cases n) (auto simp: rb_wf_def)
  also have "\<dots> = unat (slot_off (msg_size rb) (n - 1))" using unat_slot_off [OF wf, of "n - 1"] by simp
  finally have e: "buffer_size rb - msg_size rb = slot_off (msg_size rb) (n - 1)" by (simp add: word_unat_eq_iff)
  have iff: "slot_off (msg_size rb) i = slot_off (msg_size rb) (n - 1) \<longleftrightarrow> i = n - 1"
    using slot_off_inj [OF wf i, of "n - 1"] i by auto
  have last: "Suc i mod n = (if i = n - 1 then 0 else Suc i)" using i by auto
  show ?thesis unfolding next_slot_def e iff last by (auto simp: slot_off_def algebra_simps)
qed

lemma mod_shift_eq:
  fixes c k l n :: nat
  assumes "k < n" "l < n"
  shows "(c + k) mod n = (c + l) mod n \<longleftrightarrow> k = l"
proof
  assume "(c + k) mod n = (c + l) mod n"
  then have "(int c + int k) mod int n = (int c + int l) mod int n" by (metis of_nat_add zmod_int)
  then have "int k mod int n = int l mod int n" by (metis add_left_imp_eq mod_add_left_eq mod_add_cong add_diff_cancel_left' mod_diff_left_eq)
  then show "k = l" using assms by simp
qed simp

lemma read_write_same:
  assumes "length msg < 2 ^ 64"
  shows "read_bytes (write_bytes d off msg) off (length msg) = msg"
  using assms by (intro nth_equalityI) (auto simp: read_bytes_def write_bytes_def unat_of_nat take_bit_eq_mod)

lemma read_write_other:
  assumes "unat off + length msg \<le> unat off' \<or> unat off' + len \<le> unat off" "unat off + length msg < 2 ^ 64" "unat off' + len < 2 ^ 64"
  shows "read_bytes (write_bytes d off msg) off' len = read_bytes d off' len"
proof -
  have "\<not> unat (off' + word_of_nat j - off) < length msg" if j: "j < len" for j
  proof -
    have "unat (off' + word_of_nat j) = unat off' + j"
      using assms(3) j by (subst unat_plus_if_size) (simp add: word_size unat_of_nat take_bit_eq_mod)
    then show ?thesis using assms(1,2) j unat_less64 [of "off'"]
      by (auto simp: unat_sub_if_size word_size)
  qed
  then show ?thesis by (simp add: read_bytes_def write_bytes_def)
qed

section \<open>Refinement\<close>

lemma set_one_msg_rep:
  assumes rep: "rb_rep n rb q" and len: "length msg = unat (msg_size rb)"
  shows "if Suc (length q) < n then \<exists>rb'. set_one_msg rb msg = (MSG_OP_SUCCESS, rb') \<and> rb_rep n rb' (q @ [msg]) \<and> msg_size rb' = msg_size rb
    else set_one_msg rb msg = (MSG_OP_FAILURE, rb)"
proof -
  from rep obtain c where wf: "rb_wf n rb" and lq: "length q < n" and c: "c < n" "consumer_offset rb = slot_off (msg_size rb) c"
    "producer_offset rb = slot_off (msg_size rb) ((c + length q) mod n)"
    and q: "\<forall>k < length q. read_bytes (rb_data rb) (slot_off (msg_size rb) ((c + k) mod n)) (unat (msg_size rb)) = q ! k"
    unfolding rb_rep_def by blast
  let ?s = "msg_size rb" and ?p = "(c + length q) mod n"
  have p: "?p < n" using c(1) by simp
  have nx: "next_slot rb (producer_offset rb) = slot_off ?s ((c + Suc (length q)) mod n)"
    unfolding c(3) next_slot_off [OF wf p] by (simp add: mod_Suc_eq)
  have m: "(c + Suc (length q)) mod n < n" using c(1) by simp
  have full: "consumer_offset rb = next_slot rb (producer_offset rb) \<longleftrightarrow> Suc (length q) = n"
  proof (cases "Suc (length q) = n")
    case True
    then have "(c + Suc (length q)) mod n = c" using c(1) by simp
    then show ?thesis using True by (simp add: nx c(2))
  next
    case False
    then have "c mod n = (c + Suc (length q)) mod n \<longleftrightarrow> (0 :: nat) = Suc (length q)"
      using mod_shift_eq [of 0 n "Suc (length q)" c] lq by simp
    then show ?thesis using False c(1) slot_off_inj [OF wf c(1) m] by (simp add: nx c(2))
  qed
  show ?thesis
  proof (cases "Suc (length q) = n")
    case True
    then show ?thesis using full by (simp add: set_one_msg_def if_buffer_full_def RING_BUFFER_FULL_def)
  next
    case False
    let ?rb = "rb\<lparr>rb_data := write_bytes (rb_data rb) (slot_off ?s ?p) msg,
      producer_offset := slot_off ?s ((c + Suc (length q)) mod n)\<rparr>"
    have "set_one_msg rb msg = (MSG_OP_SUCCESS, ?rb)"
      using False full len by (simp add: set_one_msg_def if_buffer_full_def RING_BUFFER_NOT_FULL_def c(3) nx [unfolded c(3)])
    moreover have "read_bytes (rb_data ?rb) (slot_off ?s ((c + k) mod n)) (unat ?s) = (q @ [msg]) ! k"
      if k: "k < Suc (length q)" for k
    proof (cases "k = length q")
      case True
      then show ?thesis using read_write_same [of msg] len unat_less64 [of ?s] by simp
    next
      case False
      then have kq: "k < length q" using k by simp
      let ?k = "(c + k) mod n"
      have kn: "?k < n" "?k \<noteq> ?p" using c(1) mod_shift_eq [of k n "length q" c] kq lq by simp_all
      have "?p * unat ?s + unat ?s \<le> ?k * unat ?s \<or> ?k * unat ?s + unat ?s \<le> ?p * unat ?s"
        using kn(2) by (metis add.commute linorder_neqE_nat mult_Suc Suc_leI mult_le_mono1)
      moreover have "i * unat ?s + unat ?s \<le> n * unat ?s" if "i < n" for i
        using that by (metis add.commute mult_Suc Suc_leI mult_le_mono1)
      note this [OF kn(1)] this [OF p]
      moreover have "32 + n * unat ?s < 2 ^ 64" using wf unat_less64 [of "buffer_size rb"] by (simp add: rb_wf_def)
      ultimately have "read_bytes (write_bytes (rb_data rb) (slot_off ?s ?p) msg) (slot_off ?s ?k) (unat ?s) =
          read_bytes (rb_data rb) (slot_off ?s ?k) (unat ?s)"
        using unat_slot_off [OF wf, of ?k] unat_slot_off [OF wf, of ?p] kn(1) p
        by (intro read_write_other) (unfold len, linarith+)
      then show ?thesis using q kq by (simp add: nth_append)
    qed
    ultimately show ?thesis using wf False lq c unfolding rb_rep_def by (auto simp: rb_wf_def)
  qed
qed

lemma get_one_msg_rep:
  assumes rep: "rb_rep n rb q"
  shows "case q of [] \<Rightarrow> get_one_msg rb buf = (MSG_OP_FAILURE, buf, rb)
    | m # q' \<Rightarrow> \<exists>rb'. get_one_msg rb buf = (MSG_OP_SUCCESS, m, rb') \<and> rb_rep n rb' q' \<and> msg_size rb' = msg_size rb"
proof -
  from rep obtain c where wf: "rb_wf n rb" and lq: "length q < n" and c: "c < n" "consumer_offset rb = slot_off (msg_size rb) c"
    "producer_offset rb = slot_off (msg_size rb) ((c + length q) mod n)"
    and q: "\<forall>k < length q. read_bytes (rb_data rb) (slot_off (msg_size rb) ((c + k) mod n)) (unat (msg_size rb)) = q ! k"
    unfolding rb_rep_def by blast
  show ?thesis
  proof (cases q)
    case Nil
    then show ?thesis using c by (simp add: get_one_msg_def)
  next
    case (Cons m q')
    have "producer_offset rb \<noteq> consumer_offset rb"
      using mod_shift_eq [of "length q" n 0 c] slot_off_inj [OF wf _ c(1), of "(c + length q) mod n"] c lq Cons by simp
    moreover have "read_bytes (rb_data rb) (consumer_offset rb) (unat (msg_size rb)) = m"
      using q [rule_format, of 0] c Cons by simp
    ultimately have "get_one_msg rb buf = (MSG_OP_SUCCESS, m, rb\<lparr>consumer_offset := slot_off (msg_size rb) (Suc c mod n)\<rparr>)"
      by (simp add: get_one_msg_def c(2) next_slot_off [OF wf c(1)])
    moreover have "rb_rep n (rb\<lparr>consumer_offset := slot_off (msg_size rb) (Suc c mod n)\<rparr>) q'"
      unfolding rb_rep_def
    proof (intro conjI exI [of _ "Suc c mod n"] allI impI)
      fix k assume "k < length q'"
      then show "read_bytes (rb_data (rb\<lparr>consumer_offset := slot_off (msg_size rb) (Suc c mod n)\<rparr>))
          (slot_off (msg_size (rb\<lparr>consumer_offset := slot_off (msg_size rb) (Suc c mod n)\<rparr>)) ((Suc c mod n + k) mod n))
          (unat (msg_size (rb\<lparr>consumer_offset := slot_off (msg_size rb) (Suc c mod n)\<rparr>))) = q' ! k"
        using q [rule_format, of "Suc k"] Cons by (simp add: mod_add_left_eq)
    qed (use wf lq c Cons in \<open>simp_all add: rb_wf_def mod_add_left_eq\<close>)
    ultimately show ?thesis using Cons by simp
  qed
qed

section \<open>The contract of a bounded queue\<close>

primrec put_all :: "('s \<Rightarrow> 'm \<Rightarrow> 's option) \<Rightarrow> 's \<Rightarrow> 'm list \<Rightarrow> 's option" where
  "put_all put s [] = Some s"
| "put_all put s (m # ms) = do { s1 \<leftarrow> put s m; put_all put s1 ms }"

primrec get_n :: "('s \<Rightarrow> ('m \<times> 's) option) \<Rightarrow> 's \<Rightarrow> nat \<Rightarrow> ('m list \<times> 's) option" where
  "get_n get s 0 = Some ([], s)"
| "get_n get s (Suc k) = do { (m, s1) \<leftarrow> get s; (ms, s2) \<leftarrow> get_n get s1 k; Some (m # ms, s2) }"

locale bounded_queue =
  fixes rep :: "'s \<Rightarrow> 'm list \<Rightarrow> bool" and cap :: nat and ok :: "'m \<Rightarrow> bool"
    and put :: "'s \<Rightarrow> 'm \<Rightarrow> 's option" and get :: "'s \<Rightarrow> ('m \<times> 's) option"
  assumes put_room: "rep s q \<Longrightarrow> ok m \<Longrightarrow> length q < cap \<Longrightarrow> \<exists>s'. put s m = Some s' \<and> rep s' (q @ [m])"
    and put_full: "rep s q \<Longrightarrow> ok m \<Longrightarrow> length q = cap \<Longrightarrow> put s m = None"
    and rep_cap: "rep s q \<Longrightarrow> length q \<le> cap"
    and get_msg: "rep s (m # q) \<Longrightarrow> \<exists>s'. get s = Some (m, s') \<and> rep s' q"
    and get_empty: "rep s [] \<Longrightarrow> get s = None"
begin

lemma put_all_ok:
  assumes "rep s q" "list_all ok ms" "length q + length ms \<le> cap"
  shows "\<exists>s'. put_all put s ms = Some s' \<and> rep s' (q @ ms)"
  using assms
proof (induction ms arbitrary: s q)
  case (Cons m ms)
  then obtain s1 where s1: "put s m = Some s1" "rep s1 (q @ [m])" using put_room [of s q m] by auto
  from Cons.IH [OF s1(2)] Cons.prems s1(1) show ?case by simp
qed simp

lemma get_n_ok:
  assumes "rep s (ms @ q)"
  shows "\<exists>s'. get_n get s (length ms) = Some (ms, s') \<and> rep s' q"
  using assms
proof (induction ms arbitrary: s)
  case (Cons m ms)
  then obtain s1 where s1: "get s = Some (m, s1)" "rep s1 (ms @ q)" using get_msg [of s m "ms @ q"] by auto
  with Cons.IH [OF s1(2)] show ?case by auto
qed simp

text \<open>First in, first out, for any number of messages that fits.\<close>

lemma fifo:
  assumes "rep s q" "list_all ok ms" "length q + length ms \<le> cap"
  shows "\<exists>s1 s2. put_all put s ms = Some s1 \<and> get_n get s1 (length q + length ms) = Some (q @ ms, s2) \<and>
    rep s2 [] \<and> get s2 = None"
proof -
  obtain s1 where s1: "put_all put s ms = Some s1" "rep s1 (q @ ms)" using put_all_ok [OF assms] by blast
  then obtain s2 where "get_n get s1 (length (q @ ms)) = Some (q @ ms, s2)" "rep s2 []"
    using get_n_ok [of s1 "q @ ms" "[]"] by auto
  then show ?thesis using s1(1) get_empty by auto
qed

end

definition rb_put :: "ring_buffer \<Rightarrow> byte list \<Rightarrow> ring_buffer option" where
  "rb_put rb m = (case set_one_msg rb m of (r, rb') \<Rightarrow> if r = MSG_OP_SUCCESS then Some rb' else None)"

definition rb_get :: "ring_buffer \<Rightarrow> (byte list \<times> ring_buffer) option" where
  "rb_get rb = (case get_one_msg rb [] of (r, m, rb') \<Rightarrow> if r = MSG_OP_SUCCESS then Some (m, rb') else None)"

interpretation rb: bounded_queue "\<lambda>rb q. rb_rep n rb q \<and> msg_size rb = s" "n - 1" "\<lambda>m. length m = unat s" rb_put rb_get
  for n :: nat and s :: u64
proof
  note d = rb_put_def rb_get_def MSG_OP_SUCCESS_def MSG_OP_FAILURE_def
  fix rb q and m :: "byte list"
  assume rep: "rb_rep n rb q \<and> msg_size rb = s" and m: "length m = unat s"
  have "length q < n" using rep by (simp add: rb_rep_def)
  then show "length q < n - 1 \<Longrightarrow> \<exists>rb'. rb_put rb m = Some rb' \<and> rb_rep n rb' (q @ [m]) \<and> msg_size rb' = s"
    "length q = n - 1 \<Longrightarrow> rb_put rb m = None"
    using set_one_msg_rep [of n rb q m] rep m by (auto simp: d split: if_splits)
next
  show "length q \<le> n - 1" if "rb_rep n rb q \<and> msg_size rb = s" for rb q using that by (auto simp: rb_rep_def)
next
  note d = rb_put_def rb_get_def MSG_OP_SUCCESS_def MSG_OP_FAILURE_def
  show "\<exists>rb'. rb_get rb = Some (m, rb') \<and> rb_rep n rb' q \<and> msg_size rb' = s"
    if "rb_rep n rb (m # q) \<and> msg_size rb = s" for rb m q
    using get_one_msg_rep [of n rb "m # q" "[]"] that by (auto simp: d)
  show "rb_get rb = None" if "rb_rep n rb [] \<and> msg_size rb = s" for rb
    using get_one_msg_rep [of n rb "[]" "[]"] that by (auto simp: d)
qed

section \<open>Properties\<close>

text \<open>
  C17. The ring buffer is a FIFO of capacity \<open>n - 1\<close>: a message that fits is appended behind the messages
  waiting, one that does not fit is refused without effect, and reading returns the messages byte for
  byte in the order they were written, across the wrap-around of the offsets.
\<close>

theorem ring_buffer_fifo:
  assumes "rb_rep n rb q"
  shows "(\<forall>ms. list_all (\<lambda>m. length m = unat (msg_size rb)) ms \<longrightarrow> length q + length ms \<le> n - 1 \<longrightarrow>
       (\<exists>rb1 rb2. put_all rb_put rb ms = Some rb1 \<and> get_n rb_get rb1 (length q + length ms) = Some (q @ ms, rb2) \<and>
          rb_rep n rb2 [] \<and> get_one_msg rb2 [] = (MSG_OP_FAILURE, [], rb2))) \<and>
    (length q = n - 1 \<longrightarrow> (\<forall>m. length m = unat (msg_size rb) \<longrightarrow> set_one_msg rb m = (MSG_OP_FAILURE, rb)))"
proof (intro conjI allI impI)
  fix ms :: "byte list list" assume "list_all (\<lambda>m. length m = unat (msg_size rb)) ms" "length q + length ms \<le> n - 1"
  from rb.fifo [of n rb q "msg_size rb", OF _ this] assms obtain rb1 rb2 where
    "put_all rb_put rb ms = Some rb1" "get_n rb_get rb1 (length q + length ms) = Some (q @ ms, rb2)" "rb_rep n rb2 []" by auto
  then show "\<exists>rb1 rb2. put_all rb_put rb ms = Some rb1 \<and> get_n rb_get rb1 (length q + length ms) = Some (q @ ms, rb2) \<and>
      rb_rep n rb2 [] \<and> get_one_msg rb2 [] = (MSG_OP_FAILURE, [], rb2)"
    using get_one_msg_rep [of n rb2 "[]" "[]"] by auto
next
  fix m :: "byte list" assume "length q = n - 1" "length m = unat (msg_size rb)"
  then show "set_one_msg rb m = (MSG_OP_FAILURE, rb)"
    using set_one_msg_rep [OF assms, of m] assms by (simp add: rb_rep_def split: if_splits)
qed

definition demo_rb :: ring_buffer where
  "demo_rb = \<lparr>buffer_size = 44, consumer_offset = 40, producer_offset = 40, msg_size = 4, rb_data = (\<lambda>_. 0)\<rparr>"

theorem ring_buffer_fifo_witness:
  "\<exists>rb1 rb2. put_all rb_put demo_rb [[1, 2, 3, 4], [5, 6, 7, 8]] = Some rb1 \<and>
     get_n rb_get rb1 2 = Some ([[1, 2, 3, 4], [5, 6, 7, 8]], rb2)"
proof -
  have "rb_rep 3 demo_rb []"
    by (auto simp: rb_rep_def rb_wf_def demo_rb_def slot_off_def SIZEOF_RING_BUFFER_def intro!: exI [of _ 2])
  then have "\<exists>rb1 rb2. put_all rb_put demo_rb [[1, 2, 3, 4], [5, 6, 7, 8]] = Some rb1 \<and>
      get_n rb_get rb1 (length ([] :: byte list list) + length [[1, 2, 3, 4 :: byte], [5, 6, 7, 8]]) =
        Some ([] @ [[1, 2, 3, 4], [5, 6, 7, 8]], rb2)"
    using ring_buffer_fifo [of 3 demo_rb "[]", THEN conjunct1, rule_format, of "[[1, 2, 3, 4], [5, 6, 7, 8]]"]
    by (auto simp: demo_rb_def)
  then show ?thesis by (simp add: numeral_2_eq_2)
qed

end
