(* ===== verification/Step_System.thy ===== *)
theory Step_System
  imports Kernel_Prelude
begin

text \<open>
  Concurrent code as a step relation: each step is one atomic action of one CPU. The locale
  \<open>invariant_system\<close> gives the invariant rule for reachable states, and \<open>exclusion_system\<close> adds to it a
  relation of conflicting roles that the invariant forbids two CPUs to play at once.
\<close>

locale invariant_system =
  fixes init :: "'s \<Rightarrow> bool" and step :: "'s \<Rightarrow> 's \<Rightarrow> bool" and invar :: "'s \<Rightarrow> bool"
  assumes init_invar: "init s \<Longrightarrow> invar s"
    and step_invar: "invar s \<Longrightarrow> step s s' \<Longrightarrow> invar s'"
begin

lemma reachable_invar:
  assumes "init s0" "step\<^sup>*\<^sup>* s0 s"
  shows "invar s"
  using assms(2) by (induction rule: rtranclp_induct) (auto intro: init_invar [OF assms(1)] step_invar)

end

locale exclusion_system = invariant_system init step invar
  for init :: "'s \<Rightarrow> bool" and step :: "'s \<Rightarrow> 's \<Rightarrow> bool" and invar :: "'s \<Rightarrow> bool" +
  fixes excl :: "'s \<Rightarrow> 'c \<Rightarrow> bool" and holds :: "'s \<Rightarrow> 'c \<Rightarrow> bool"
  assumes invar_excl: "invar s \<Longrightarrow> excl s c \<Longrightarrow> holds s d \<Longrightarrow> d = c"
begin

lemma reachable_excl:
  assumes "init s0" "step\<^sup>*\<^sup>* s0 s" "excl s c" "holds s d"
  shows "d = c"
  using invar_excl [OF reachable_invar [OF assms(1,2)] assms(3,4)] .

end

end
