(* ===== verification/Locks.thy ===== *)
theory Locks
  imports Step_System
begin

text \<open>
  The locks of \<open>kernel/arch/aarch64/sync\<close>: the ticket lock of \<open>ticket.c\<close> and the reader-writer lock of
  \<open>rwlock.c\<close>. Each operation is the effect of its assembly: an exclusive load and store pair takes effect
  when the store succeeds, so the retry loop of \<open>lock\<close> is split at its only two observable actions, taking
  a ticket and seeing it served. The step relations interleave the actions of \<open>n\<close> CPUs arbitrarily.
\<close>

section \<open>Ticket lock: operations\<close>

record lock_impl =
  lock_owner :: u32
  lock_next :: u32

definition lock_init :: "lock_impl \<Rightarrow> int \<times> lock_impl" where
  "lock_init l = (0, l\<lparr>lock_owner := 0, lock_next := 0\<rparr>)"

text \<open>Label 1 of \<open>lock\<close>: fetch the next ticket and increment it.\<close>

definition lock_take :: "lock_impl \<Rightarrow> u32 \<times> lock_impl" where
  "lock_take l = (lock_next l, l\<lparr>lock_next := lock_next l + 1\<rparr>)"

text \<open>Label 2 of \<open>lock\<close>: the spin loop ends when the owner is the ticket.\<close>

definition lock_served :: "lock_impl \<Rightarrow> u32 \<Rightarrow> bool" where
  "lock_served l lockval \<longleftrightarrow> lockval = lock_owner l"

definition try_lock :: "lock_impl \<Rightarrow> int \<times> lock_impl" where
  "try_lock l = (if lock_next l = lock_owner l then (0, l\<lparr>lock_next := lock_next l + 1\<rparr>) else (- 1, l))"

definition unlock :: "lock_impl \<Rightarrow> lock_impl" where
  "unlock l = l\<lparr>lock_owner := lock_owner l + 1\<rparr>"

definition is_locked :: "lock_impl \<Rightarrow> bool" where
  "is_locked l \<longleftrightarrow> lock_owner l < lock_next l"

section \<open>Ticket lock: interleavings\<close>

datatype lock_pc = LIdle | LWait u32 | LHold

record ticket_sys =
  tl_lock :: lock_impl
  tl_pc :: "nat \<Rightarrow> lock_pc"

inductive ticket_step :: "nat \<Rightarrow> ticket_sys \<Rightarrow> ticket_sys \<Rightarrow> bool" for n where
  ts_take: "c < n \<Longrightarrow> tl_pc s c = LIdle \<Longrightarrow> lock_take (tl_lock s) = (t, l) \<Longrightarrow>
    ticket_step n s (s\<lparr>tl_lock := l, tl_pc := (tl_pc s)(c := LWait t)\<rparr>)"
| ts_enter: "c < n \<Longrightarrow> tl_pc s c = LWait t \<Longrightarrow> lock_served (tl_lock s) t \<Longrightarrow>
    ticket_step n s (s\<lparr>tl_pc := (tl_pc s)(c := LHold)\<rparr>)"
| ts_try: "c < n \<Longrightarrow> tl_pc s c = LIdle \<Longrightarrow> try_lock (tl_lock s) = (r, l) \<Longrightarrow>
    ticket_step n s (s\<lparr>tl_lock := l, tl_pc := (tl_pc s)(c := if r = 0 then LHold else LIdle)\<rparr>)"
| ts_leave: "c < n \<Longrightarrow> tl_pc s c = LHold \<Longrightarrow>
    ticket_step n s (s\<lparr>tl_lock := unlock (tl_lock s), tl_pc := (tl_pc s)(c := LIdle)\<rparr>)"

definition ticket_init :: "ticket_sys \<Rightarrow> bool" where
  "ticket_init s \<longleftrightarrow> tl_lock s = snd (lock_init (tl_lock s)) \<and> (\<forall>c. tl_pc s c = LIdle)"

text \<open>
  The CPUs that hold or want the lock form a queue: the first has the ticket that is served, or the
  lock, and the tickets of the others follow one by one.
\<close>

definition ticket_queue :: "nat \<Rightarrow> ticket_sys \<Rightarrow> nat list \<Rightarrow> bool" where
  "ticket_queue n s Q \<longleftrightarrow> distinct Q \<and> set Q \<subseteq> {..<n} \<and> (\<forall>c. tl_pc s c \<noteq> LIdle \<longleftrightarrow> c \<in> set Q) \<and>
     lock_next (tl_lock s) = lock_owner (tl_lock s) + word_of_nat (length Q) \<and>
     (\<forall>i < length Q. tl_pc s (Q ! i) = LWait (lock_owner (tl_lock s) + word_of_nat i) \<or> i = 0 \<and> tl_pc s (Q ! i) = LHold)"

definition ticket_inv :: "nat \<Rightarrow> ticket_sys \<Rightarrow> bool" where
  "ticket_inv n s \<longleftrightarrow> n < 2 ^ 32 \<and> (\<exists>Q. ticket_queue n s Q)"

lemma ticket_queue_length: "ticket_queue n s Q \<Longrightarrow> length Q \<le> n"
  using card_mono [of "{..<n}" "set Q"] by (auto simp: ticket_queue_def distinct_card)

lemma u32_of_nat_eq: "i < 2 ^ 32 \<Longrightarrow> j < 2 ^ 32 \<Longrightarrow> (word_of_nat i :: u32) = word_of_nat j \<longleftrightarrow> i = j"
  by (simp add: word_unat_eq_iff unat_of_nat take_bit_eq_mod)

lemma ticket_queue_snoc:
  assumes q: "ticket_queue n s Q" and c: "c < n" "tl_pc s c = LIdle"
    and l: "l = (tl_lock s)\<lparr>lock_next := lock_next (tl_lock s) + 1\<rparr>"
    and pc: "p = LWait (lock_next (tl_lock s)) \<or> Q = [] \<and> p = LHold"
  shows "ticket_queue n (s\<lparr>tl_lock := l, tl_pc := (tl_pc s)(c := p)\<rparr>) (Q @ [c])"
proof -
  have "c \<notin> set Q" using q c by (auto simp: ticket_queue_def)
  then have "c \<noteq> Q ! i" if "i < length Q" for i using that by auto
  then show ?thesis using q c pc unfolding ticket_queue_def l
    by (auto simp: nth_append less_Suc_eq)
qed

text \<open>Only the first of the queue can be served, since fewer than \<open>2 ^ 32\<close> CPUs wait.\<close>

lemma ticket_queue_served:
  assumes q: "ticket_queue n s Q" and n: "n < 2 ^ 32" and c: "tl_pc s c = LWait t" "lock_served (tl_lock s) t"
  shows "\<exists>Q'. Q = c # Q'"
proof -
  have "c \<in> set Q" using q c by (auto simp: ticket_queue_def)
  then obtain i where i: "i < length Q" "Q ! i = c" by (auto simp: in_set_conv_nth)
  then have "t = lock_owner (tl_lock s) + word_of_nat i" using q c(1) by (auto simp: ticket_queue_def)
  then have "(word_of_nat i :: u32) = word_of_nat 0" using c(2) by (simp add: lock_served_def)
  moreover have "i < 2 ^ 32" using i(1) ticket_queue_length [OF q] n by simp
  ultimately have "i = 0" using u32_of_nat_eq [of i 0] by simp
  then show ?thesis using i by (cases Q) auto
qed

lemma ticket_queue_enter:
  assumes q: "ticket_queue n s (c # Q)"
  shows "ticket_queue n (s\<lparr>tl_pc := (tl_pc s)(c := LHold)\<rparr>) (c # Q)"
  using q unfolding ticket_queue_def by (auto simp: nth_Cons split: nat.splits)

lemma ticket_queue_holder:
  assumes q: "ticket_queue n s Q" and c: "tl_pc s c = LHold"
  shows "\<exists>Q'. Q = c # Q'"
proof -
  have "c \<in> set Q" using q c by (auto simp: ticket_queue_def)
  then obtain i where i: "i < length Q" "Q ! i = c" by (auto simp: in_set_conv_nth)
  then have "i = 0" using q c by (auto simp: ticket_queue_def)
  then show ?thesis using i by (cases Q) auto
qed

lemma ticket_queue_leave:
  assumes q: "ticket_queue n s (c # Q)" and c: "tl_pc s c = LHold"
  shows "ticket_queue n (s\<lparr>tl_lock := unlock (tl_lock s), tl_pc := (tl_pc s)(c := LIdle)\<rparr>) Q"
proof -
  have "tl_pc s (Q ! i) = LWait (lock_owner (tl_lock s) + 1 + word_of_nat i)" if "i < length Q" for i
    using q that unfolding ticket_queue_def by (auto simp: algebra_simps dest!: spec [of _ "Suc i"])
  moreover have "c \<noteq> Q ! i" if "i < length Q" for i using q that by (auto simp: ticket_queue_def)
  ultimately show ?thesis using q c unfolding ticket_queue_def unlock_def
    by (auto simp: algebra_simps)
qed

inductive_cases ticket_stepE: "ticket_step n s s'"

text \<open>A step appends a CPU to the queue, takes its first one out, or leaves the queue as it is.\<close>

lemma ticket_step_queue:
  assumes q: "ticket_queue n s Q" and n: "n < 2 ^ 32" and st: "ticket_step n s s'"
  shows "\<exists>Q'. ticket_queue n s' Q' \<and> (Q' = Q \<or> (\<exists>c. Q' = Q @ [c]) \<or> (\<exists>c. Q = c # Q'))"
  using st
proof (cases rule: ticket_step.cases)
  case (ts_take c t l)
  then show ?thesis using ticket_queue_snoc [OF q ts_take(2,3), of l "LWait t"] by (auto simp: lock_take_def)
next
  case (ts_enter c t)
  then show ?thesis using ticket_queue_served [OF q n ts_enter(3,4)] ticket_queue_enter q by blast
next
  case (ts_try c r l)
  show ?thesis
  proof (cases "lock_next (tl_lock s) = lock_owner (tl_lock s)")
    case True
    have "(word_of_nat (length Q) :: u32) = word_of_nat 0" using q True by (simp add: ticket_queue_def)
    moreover have "length Q < 2 ^ 32" using ticket_queue_length [OF q] n by simp
    ultimately have "Q = []" using u32_of_nat_eq [of "length Q" 0] by simp
    then show ?thesis using ts_try True ticket_queue_snoc [OF q ts_try(2,3), of l LHold] by (auto simp: try_lock_def)
  next
    case False
    then have "s' = s" using ts_try fun_upd_idem [of "tl_pc s" c LIdle] by (auto simp: try_lock_def)
    then show ?thesis using q by blast
  qed
next
  case (ts_leave c)
  then show ?thesis using ticket_queue_holder [OF q ts_leave(3)] ticket_queue_leave q by blast
qed

lemma ticket_init_queue: "ticket_init s \<Longrightarrow> ticket_queue n s []"
  by (auto simp: ticket_init_def ticket_queue_def lock_init_def) (metis lock_impl.select_convs lock_impl.surjective lock_impl.update_convs)

interpretation tl: exclusion_system "\<lambda>s. ticket_init s \<and> n < 2 ^ 32" "ticket_step n" "ticket_inv n"
  "\<lambda>s c. tl_pc s c = LHold" "\<lambda>s c. tl_pc s c = LHold" for n
proof
  show "ticket_inv n s" if "ticket_init s \<and> n < 2 ^ 32" for s
    using that ticket_init_queue unfolding ticket_inv_def by blast
  show "ticket_inv n s'" if "ticket_inv n s" "ticket_step n s s'" for s s'
    using that ticket_step_queue unfolding ticket_inv_def by blast
  show "d = c" if "ticket_inv n s" "tl_pc s c = LHold" "tl_pc s d = LHold" for s c d
    using that ticket_queue_holder unfolding ticket_inv_def by (metis list.inject)
qed

text \<open>The number of CPUs that are served before the CPU with this ticket.\<close>

definition ticket_ahead :: "ticket_sys \<Rightarrow> u32 \<Rightarrow> nat" where
  "ticket_ahead s t = unat (t - lock_owner (tl_lock s))"

lemma ticket_ahead_queue:
  assumes q: "ticket_queue n s Q" and n: "n < 2 ^ 32" and c: "tl_pc s c = LWait t"
  shows "ticket_ahead s t < length Q" "Q ! ticket_ahead s t = c"
proof -
  have "c \<in> set Q" using q c by (auto simp: ticket_queue_def)
  then obtain i where i: "i < length Q" "Q ! i = c" by (auto simp: in_set_conv_nth)
  then have "t = lock_owner (tl_lock s) + word_of_nat i" using q c by (auto simp: ticket_queue_def)
  moreover have "i < 2 ^ 32" using i(1) ticket_queue_length [OF q] n by simp
  ultimately have "ticket_ahead s t = i" by (simp add: ticket_ahead_def unat_of_nat take_bit_eq_mod)
  then show "ticket_ahead s t < length Q" "Q ! ticket_ahead s t = c" using i by simp_all
qed

lemma ticket_wait_step:
  assumes inv: "ticket_inv n s" and st: "ticket_step n s s'" and c: "tl_pc s c = LWait t" "tl_pc s' c \<noteq> LHold"
  shows "tl_pc s' c = LWait t"
    "lock_owner (tl_lock s') = lock_owner (tl_lock s) \<and> ticket_ahead s' t = ticket_ahead s t \<or>
     lock_owner (tl_lock s') = lock_owner (tl_lock s) + 1 \<and> Suc (ticket_ahead s' t) = ticket_ahead s t"
proof -
  show w: "tl_pc s' c = LWait t" using st c by (cases rule: ticket_step.cases) (auto split: if_splits)
  from inv obtain Q where q: "ticket_queue n s Q" and n: "n < 2 ^ 32" by (auto simp: ticket_inv_def)
  show "lock_owner (tl_lock s') = lock_owner (tl_lock s) \<and> ticket_ahead s' t = ticket_ahead s t \<or>
     lock_owner (tl_lock s') = lock_owner (tl_lock s) + 1 \<and> Suc (ticket_ahead s' t) = ticket_ahead s t"
    using st
  proof (cases rule: ticket_step.cases)
    case (ts_leave d)
    obtain Q' where Q: "Q = d # Q'" using ticket_queue_holder [OF q ts_leave(3)] by blast
    have "Q ! ticket_ahead s t = c" by (rule ticket_ahead_queue(2) [OF q n c(1)])
    then have "0 < ticket_ahead s t" using Q c(1) ts_leave(3) by (cases "ticket_ahead s t") auto
    then have "t - lock_owner (tl_lock s) \<noteq> 0" by (auto simp: ticket_ahead_def)
    then have "ticket_ahead s' t = ticket_ahead s t - 1"
      using ts_leave by (simp add: ticket_ahead_def unlock_def diff_diff_eq [symmetric] unat_minus_one)
    then show ?thesis using \<open>0 < ticket_ahead s t\<close> ts_leave by (simp add: unlock_def)
  qed (auto simp: ticket_ahead_def lock_take_def try_lock_def split: if_splits)
qed

section \<open>Reader-writer lock: operations\<close>

text \<open>
  The value of the lock is its word. The flag \<open>sc\<close> is the outcome of the exclusive store, which may fail
  for any reason; \<open>None\<close> means that the loop goes round again.
\<close>

definition rwlock_init :: "u32 option \<Rightarrow> int \<times> u32 option" where
  "rwlock_init rw = (case rw of None \<Rightarrow> (- EINVAL, None) | Some _ \<Rightarrow> (0, Some 0))"

definition read_lock :: "bool \<Rightarrow> u32 \<Rightarrow> u32 option" where
  "read_lock sc w = (let v = w + 1 in if bit v 31 then None else if sc then Some v else None)"

definition read_try_lock :: "bool \<Rightarrow> u32 \<Rightarrow> int \<times> u32" where
  "read_try_lock sc w = (let v = w + 1 in if bit v 31 then (- 1, w) else if sc then (0, v) else (- 1, w))"

definition read_unlock :: "u32 \<Rightarrow> u32" where
  "read_unlock w = w - 1"

definition write_lock :: "bool \<Rightarrow> u32 \<Rightarrow> u32 option" where
  "write_lock sc w = (if w \<noteq> 0 then None else if sc then Some 0x80000000 else None)"

definition write_try_lock :: "bool \<Rightarrow> u32 \<Rightarrow> int \<times> u32" where
  "write_try_lock sc w = (if w \<noteq> 0 then (- 1, w) else if sc then (0, 0x80000000) else (- 1, w))"

definition write_unlock :: "u32 \<Rightarrow> u32" where
  "write_unlock w = 0"

section \<open>Reader-writer lock: interleavings\<close>

datatype rw_pc = RWIdle | RWRead | RWWrite

record rw_sys =
  rw_word :: u32
  rw_pcs :: "nat \<Rightarrow> rw_pc"

inductive rw_step :: "nat \<Rightarrow> rw_sys \<Rightarrow> rw_sys \<Rightarrow> bool" for n where
  rs_read: "c < n \<Longrightarrow> rw_pcs s c = RWIdle \<Longrightarrow> read_lock sc (rw_word s) = Some w \<Longrightarrow>
    rw_step n s (s\<lparr>rw_word := w, rw_pcs := (rw_pcs s)(c := RWRead)\<rparr>)"
| rs_read_try: "c < n \<Longrightarrow> rw_pcs s c = RWIdle \<Longrightarrow> read_try_lock sc (rw_word s) = (r, w) \<Longrightarrow>
    rw_step n s (s\<lparr>rw_word := w, rw_pcs := (rw_pcs s)(c := if r = 0 then RWRead else RWIdle)\<rparr>)"
| rs_read_unlock: "c < n \<Longrightarrow> rw_pcs s c = RWRead \<Longrightarrow>
    rw_step n s (s\<lparr>rw_word := read_unlock (rw_word s), rw_pcs := (rw_pcs s)(c := RWIdle)\<rparr>)"
| rs_write: "c < n \<Longrightarrow> rw_pcs s c = RWIdle \<Longrightarrow> write_lock sc (rw_word s) = Some w \<Longrightarrow>
    rw_step n s (s\<lparr>rw_word := w, rw_pcs := (rw_pcs s)(c := RWWrite)\<rparr>)"
| rs_write_try: "c < n \<Longrightarrow> rw_pcs s c = RWIdle \<Longrightarrow> write_try_lock sc (rw_word s) = (r, w) \<Longrightarrow>
    rw_step n s (s\<lparr>rw_word := w, rw_pcs := (rw_pcs s)(c := if r = 0 then RWWrite else RWIdle)\<rparr>)"
| rs_write_unlock: "c < n \<Longrightarrow> rw_pcs s c = RWWrite \<Longrightarrow>
    rw_step n s (s\<lparr>rw_word := write_unlock (rw_word s), rw_pcs := (rw_pcs s)(c := RWIdle)\<rparr>)"

definition rw_init :: "rw_sys \<Rightarrow> bool" where
  "rw_init s \<longleftrightarrow> rwlock_init (Some (rw_word s)) = (0, Some (rw_word s)) \<and> (\<forall>c. rw_pcs s c = RWIdle)"

definition readers :: "rw_sys \<Rightarrow> nat set" where
  "readers s = {c. rw_pcs s c = RWRead}"

text \<open>Bit 31 of the word is the writer, the bits below count the readers.\<close>

definition rw_inv :: "nat \<Rightarrow> rw_sys \<Rightarrow> bool" where
  "rw_inv n s \<longleftrightarrow> readers s \<subseteq> {..<n} \<and>
     ((\<forall>c. rw_pcs s c \<noteq> RWWrite) \<and> unat (rw_word s) = card (readers s) \<and> card (readers s) < 2 ^ 31 \<or>
      (\<exists>c. rw_pcs s = (\<lambda>_. RWIdle)(c := RWWrite)) \<and> rw_word s = 0x80000000)"

lemma bit31_iff: "bit (w :: u32) 31 \<longleftrightarrow> 2 ^ 31 \<le> unat w"
proof -
  have lt: "unat w div 2 ^ 31 < 2" using unat_less32 [of w] by (simp add: div_less_iff_less_mult)
  have "bit w 31 \<longleftrightarrow> bit (unat w) 31" by (simp add: bit_unsigned_iff)
  also have "\<dots> \<longleftrightarrow> odd (unat w div 2 ^ 31)" by (simp only: bit_iff_odd)
  also have "\<dots> \<longleftrightarrow> unat w div 2 ^ 31 = 1" using lt by (cases "unat w div 2 ^ 31") auto
  also have "\<dots> \<longleftrightarrow> 2 ^ 31 \<le> unat w" using lt by (simp add: div_less_iff_less_mult) linarith
  finally show ?thesis .
qed

lemma readers_upd:
  "readers (s\<lparr>rw_word := w, rw_pcs := (rw_pcs s)(c := p)\<rparr>) = (if p = RWRead then insert c (readers s) else readers s - {c})"
  by (auto simp: readers_def)

lemma rw_step_inv:
  assumes inv: "rw_inv n s" and st: "rw_step n s s'"
  shows "rw_inv n s'"
proof -
  have fin: "finite (readers s)" using inv finite_subset [of "readers s" "{..<n}"] by (auto simp: rw_inv_def)
  have enter_read: "rw_inv n (s\<lparr>rw_word := rw_word s + 1, rw_pcs := (rw_pcs s)(c := RWRead)\<rparr>)"
    if c: "c < n" "rw_pcs s c = RWIdle" "\<not> bit (rw_word s + 1) 31" for c
  proof -
    have "rw_word s \<noteq> 0x80000000" using c(3) bit31_iff [of "rw_word s + 1"] by auto
    then have w: "\<forall>d. rw_pcs s d \<noteq> RWWrite" "unat (rw_word s) = card (readers s)" "card (readers s) < 2 ^ 31"
      using inv by (auto simp: rw_inv_def)
    have "unat (rw_word s + 1) = Suc (card (readers s))" using w(2,3) by (simp add: unat_plus_if_size word_size)
    moreover have "c \<notin> readers s" using c(2) by (simp add: readers_def)
    moreover have "unat (rw_word s + 1) < 2 ^ 31" using c(3) bit31_iff by (metis not_le)
    ultimately show ?thesis using inv c(1) w fin
      unfolding rw_inv_def readers_upd by (simp add: card_insert_if)
  qed
  have enter_write: "rw_inv n (s\<lparr>rw_word := 0x80000000, rw_pcs := (rw_pcs s)(c := RWWrite)\<rparr>)"
    if c: "c < n" "rw_pcs s c = RWIdle" "rw_word s = 0" for c
  proof -
    have w: "\<forall>d. rw_pcs s d \<noteq> RWWrite" "readers s = {}" using inv c(3) fin by (auto simp: rw_inv_def)
    have "rw_pcs s d = RWIdle" for d using w by (cases "rw_pcs s d") (auto simp: readers_def)
    then have "rw_pcs s = (\<lambda>_. RWIdle)" by blast
    then show ?thesis using w(2) unfolding rw_inv_def readers_upd by auto
  qed
  have idle: "s\<lparr>rw_pcs := (rw_pcs s)(c := RWIdle)\<rparr> = s" if "rw_pcs s c = RWIdle" for c
    using fun_upd_idem [of "rw_pcs s" c RWIdle] that by simp
  show ?thesis
    using st
  proof (cases rule: rw_step.cases)
    case (rs_read c sc w)
    then show ?thesis using enter_read [of c] by (auto simp: read_lock_def Let_def split: if_splits)
  next
    case (rs_read_try c sc r w)
    then show ?thesis using enter_read [of c] idle [of c] inv by (auto simp: read_try_lock_def Let_def split: if_splits)
  next
    case (rs_read_unlock c)
    then have w: "\<forall>d. rw_pcs s d \<noteq> RWWrite" "unat (rw_word s) = card (readers s)" "card (readers s) < 2 ^ 31"
      using inv by (auto simp: rw_inv_def split: if_splits)
    have c: "c \<in> readers s" using rs_read_unlock by (simp add: readers_def)
    then have pos: "0 < card (readers s)" using fin card_gt_0_iff by blast
    then have "rw_word s \<noteq> 0" using w(2) by auto
    then have "unat (rw_word s - 1) = card (readers s - {c})" using w(2) fin c by (simp add: unat_minus_one)
    moreover have "card (readers s - {c}) < 2 ^ 31" using w(3) fin c by simp
    ultimately show ?thesis using inv w(1) unfolding rs_read_unlock(1) rw_inv_def readers_upd
      by (auto simp: read_unlock_def)
  next
    case (rs_write c sc w)
    then show ?thesis using enter_write [of c] by (auto simp: write_lock_def split: if_splits)
  next
    case (rs_write_try c sc r w)
    show ?thesis
    proof (cases "rw_word s = 0 \<and> sc")
      case True
      then show ?thesis using rs_write_try enter_write [of c] by (auto simp: write_try_lock_def)
    next
      case False
      then have "r = - 1" "w = rw_word s" using rs_write_try by (auto simp: write_try_lock_def split: if_splits)
      then have "s' = s" using rs_write_try idle [of c] by simp
      then show ?thesis using inv by simp
    qed
  next
    case (rs_write_unlock c)
    then obtain d where "rw_pcs s = (\<lambda>_. RWIdle)(d := RWWrite)" using inv by (auto simp: rw_inv_def)
    then have pcs: "rw_pcs s = (\<lambda>_. RWIdle)(c := RWWrite)" using rs_write_unlock(3) by (auto split: if_splits)
    then have "readers s = {}" by (auto simp: readers_def)
    then show ?thesis using pcs unfolding rs_write_unlock(1) rw_inv_def readers_upd
      by (auto simp: write_unlock_def)
  qed
qed

interpretation rwl: exclusion_system rw_init "rw_step n" "rw_inv n"
  "\<lambda>s c. rw_pcs s c = RWWrite" "\<lambda>s c. rw_pcs s c \<noteq> RWIdle" for n
proof
  show "rw_inv n s" if "rw_init s" for s
    using that by (auto simp: rw_init_def rwlock_init_def rw_inv_def readers_def)
  show "rw_inv n s'" if "rw_inv n s" "rw_step n s s'" for s s' using that by (rule rw_step_inv)
  show "d = c" if "rw_inv n s" "rw_pcs s c = RWWrite" "rw_pcs s d \<noteq> RWIdle" for s c d
    using that by (auto simp: rw_inv_def split: if_splits)
qed

section \<open>Two CPUs at a fresh lock\<close>

definition demo_ticket :: ticket_sys where
  "demo_ticket = \<lparr>tl_lock = \<lparr>lock_owner = 0, lock_next = 0\<rparr>, tl_pc = (\<lambda>_. LIdle)\<rparr>"

definition demo_ticket' :: ticket_sys where
  "demo_ticket' = \<lparr>tl_lock = \<lparr>lock_owner = 0, lock_next = 2\<rparr>, tl_pc = (\<lambda>_. LIdle)(0 := LHold, 1 := LWait 1)\<rparr>"

text \<open>CPU 0 gets the lock by \<open>try_lock\<close>, then CPU 1 takes a ticket.\<close>

lemma demo_ticket_run: "ticket_init demo_ticket" "(ticket_step 2)\<^sup>*\<^sup>* demo_ticket demo_ticket'"
proof -
  let ?s = "\<lparr>tl_lock = \<lparr>lock_owner = 0, lock_next = 1\<rparr>, tl_pc = (\<lambda>_. LIdle)(0 := LHold)\<rparr>"
  show "ticket_init demo_ticket" by (simp add: ticket_init_def demo_ticket_def lock_init_def)
  have "ticket_step 2 demo_ticket ?s"
    using ts_try [of 0 2 demo_ticket 0 "\<lparr>lock_owner = 0, lock_next = 1\<rparr>"] by (simp add: demo_ticket_def try_lock_def)
  moreover have "ticket_step 2 ?s demo_ticket'"
    using ts_take [of 1 2 ?s 1 "\<lparr>lock_owner = 0, lock_next = 2\<rparr>"] by (simp add: demo_ticket'_def lock_take_def)
  ultimately show "(ticket_step 2)\<^sup>*\<^sup>* demo_ticket demo_ticket'" by (meson rtranclp.intros)
qed

section \<open>Properties\<close>

text \<open>
  C18. Mutual exclusion of the ticket lock: however \<open>n < 2 ^ 32\<close> CPUs interleave \<open>lock\<close>, \<open>try_lock\<close> and
  \<open>unlock\<close>, at most one of them is inside, also when the ticket counters wrap around.
\<close>

theorem ticket_mutual_exclusion:
  assumes "ticket_init s0" "n < 2 ^ 32" "(ticket_step n)\<^sup>*\<^sup>* s0 s" "tl_pc s c = LHold" "tl_pc s d = LHold"
  shows "d = c"
  using tl.reachable_excl [OF conjI [OF assms(1,2)] assms(3,4,5)] .

theorem ticket_mutual_exclusion_witness:
  "{d. tl_pc demo_ticket' d = LHold} = {0}"
proof -
  have h: "tl_pc demo_ticket' 0 = LHold" "(2 :: nat) < 2 ^ 32" by (simp_all add: demo_ticket'_def)
  have "d = 0" if "tl_pc demo_ticket' d = LHold" for d
    by (rule ticket_mutual_exclusion [OF demo_ticket_run(1) h(2) demo_ticket_run(2) h(1) that])
  then show ?thesis using h(1) by blast
qed

text \<open>
  C19. The ticket lock is fair: in a reachable state a waiting CPU has fewer than \<open>n\<close> CPUs ahead of it, it can
  enter exactly when none is ahead, the first CPU of the queue always can enter or is inside, and every
  step of the system keeps its ticket and either leaves the number ahead unchanged or, when the lock
  is released, decreases it by one; so it enters after exactly as many releases as CPUs are ahead.
\<close>

theorem ticket_fairness:
  assumes "ticket_init s0" "n < 2 ^ 32" "(ticket_step n)\<^sup>*\<^sup>* s0 s" "tl_pc s c = LWait t"
  shows "ticket_ahead s t < n \<and> (ticket_ahead s t = 0 \<longleftrightarrow> lock_served (tl_lock s) t) \<and>
    (\<exists>d. tl_pc s d = LHold \<or> (\<exists>u. tl_pc s d = LWait u \<and> lock_served (tl_lock s) u)) \<and>
    (\<forall>s'. ticket_step n s s' \<longrightarrow> tl_pc s' c \<noteq> LHold \<longrightarrow> tl_pc s' c = LWait t \<and>
       (lock_owner (tl_lock s') = lock_owner (tl_lock s) \<and> ticket_ahead s' t = ticket_ahead s t \<or>
        lock_owner (tl_lock s') = lock_owner (tl_lock s) + 1 \<and> Suc (ticket_ahead s' t) = ticket_ahead s t))"
proof -
  have inv: "ticket_inv n s" using tl.reachable_invar [OF conjI [OF assms(1,2)] assms(3)] .
  then obtain Q where q: "ticket_queue n s Q" by (auto simp: ticket_inv_def)
  note a = ticket_ahead_queue [OF q assms(2,4)]
  have "ticket_ahead s t < n" using a(1) ticket_queue_length [OF q] by simp
  moreover have "ticket_ahead s t = 0 \<longleftrightarrow> lock_served (tl_lock s) t"
    by (simp add: ticket_ahead_def lock_served_def unat_eq_0)
  moreover have "tl_pc s (Q ! 0) = LHold \<or> (\<exists>u. tl_pc s (Q ! 0) = LWait u \<and> lock_served (tl_lock s) u)"
  proof -
    have "0 < length Q" using a(1) by linarith
    then show ?thesis using q by (auto simp: ticket_queue_def lock_served_def dest!: spec [of _ 0])
  qed
  ultimately show ?thesis using ticket_wait_step [OF inv _ assms(4)] by blast
qed

theorem ticket_fairness_witness:
  "tl_pc demo_ticket' 1 = LWait 1 \<and> ticket_ahead demo_ticket' 1 < 2 \<and> \<not> lock_served (tl_lock demo_ticket') 1"
proof -
  have "tl_pc demo_ticket' 1 = LWait 1" "ticket_ahead demo_ticket' 1 \<noteq> 0" by (simp_all add: demo_ticket'_def ticket_ahead_def)
  then show ?thesis using ticket_fairness [OF demo_ticket_run(1) _ demo_ticket_run(2), of 1 1] by simp
qed

text \<open>
  C20. \<open>is_locked\<close> compares the counters as plain numbers, so a lock with \<open>k\<close> tickets out is reported as free
  exactly when the next ticket has wrapped around and the owner has not.
\<close>

theorem is_locked_wraps:
  assumes "lock_next l = lock_owner l + word_of_nat k" "0 < k" "k < 2 ^ 32"
  shows "is_locked l \<longleftrightarrow> unat (lock_owner l) + k < 2 ^ 32"
proof -
  have "unat (word_of_nat k :: u32) = k" using assms(3) by (simp add: unat_of_nat take_bit_eq_mod)
  then show ?thesis using assms unat_less32 [of "lock_owner l"]
    by (auto simp: is_locked_def word_less_nat_alt unat_plus_if_size word_size)
qed

theorem is_locked_wraps_witness:
  "\<not> is_locked \<lparr>lock_owner = 0xFFFFFFFF, lock_next = 0\<rparr>"
  using is_locked_wraps [of "\<lparr>lock_owner = 0xFFFFFFFF, lock_next = 0\<rparr>" 1] by simp

text \<open>
  C21. The reader-writer lock: in every reachable state a writer excludes every other reader and writer, and
  with no writer the word is the number of readers, which never reaches the writer's bit; no bound on
  the number of CPUs is needed, since \<open>read_lock\<close> waits before the count would overflow into it.
\<close>

theorem rwlock_exclusion:
  assumes "rw_init s0" "(rw_step n)\<^sup>*\<^sup>* s0 s"
  shows "(\<forall>c d. rw_pcs s c = RWWrite \<longrightarrow> rw_pcs s d \<noteq> RWIdle \<longrightarrow> d = c) \<and>
    ((\<forall>c. rw_pcs s c \<noteq> RWWrite) \<longrightarrow> unat (rw_word s) = card (readers s) \<and> card (readers s) < 2 ^ 31)"
proof -
  have "(\<forall>c. rw_pcs s c \<noteq> RWWrite) \<longrightarrow> unat (rw_word s) = card (readers s) \<and> card (readers s) < 2 ^ 31"
    using rwl.reachable_invar [OF assms] unfolding rw_inv_def by (metis fun_upd_same)
  then show ?thesis using rwl.reachable_excl [OF assms] by blast
qed

theorem rwlock_exclusion_witness:
  "\<exists>s. (rw_step 2)\<^sup>*\<^sup>* \<lparr>rw_word = 0, rw_pcs = \<lambda>_. RWIdle\<rparr> s \<and> rw_pcs s 0 = RWWrite \<and>
     {d. rw_pcs s d \<noteq> RWIdle} = {0}"
proof -
  let ?init = "\<lparr>rw_word = 0, rw_pcs = \<lambda>_. RWIdle\<rparr>" and ?fin = "\<lparr>rw_word = 0x80000000, rw_pcs = (\<lambda>_. RWIdle)(0 := RWWrite)\<rparr>"
  have "rw_step 2 ?init ?fin" using rs_write [of 0 2 ?init True "0x80000000"] by (simp add: write_lock_def)
  then have r: "(rw_step 2)\<^sup>*\<^sup>* ?init ?fin" by blast
  have "rw_init ?init" by (simp add: rw_init_def rwlock_init_def)
  have w: "rw_pcs ?fin 0 = RWWrite" by simp
  have only: "d = 0" if "rw_pcs ?fin d \<noteq> RWIdle" for d
    by (rule rwlock_exclusion [OF \<open>rw_init ?init\<close> r, THEN conjunct1, rule_format, of 0, OF w that])
  have "rw_pcs ?fin 0 \<noteq> RWIdle" by simp
  then have "{d. rw_pcs ?fin d \<noteq> RWIdle} = {0}" using only by blast
  then show ?thesis using r w by blast
qed

end
