(* ===== verification/Radix.thy ===== *)
theory Radix
  imports Kernel_Prelude
begin

text \<open>
  The radix tree of \<open>kernel/lib/radix.c\<close>: a map from 64-bit keys to pointers with 16 levels of 16-way
  nodes. The union in \<open>struct radix_node\<close> is a datatype, since the level of a node fixes which member is
  used. Nodes are owned by their parents, so the tree is a HOL tree.

  The argument \<open>avail\<close> is the number of node allocations that still succeed; \<open>radix_add\<close> returns
  \<open>-ENOMEM\<close> when it needs one more. \<open>None\<close> is the \<open>BUG_ON\<close> on adding a present key, or a \<open>lock\<close> that
  never returns because the lock was left taken.
\<close>

section \<open>Operations\<close>

definition RADIX_NODE_BITS :: nat where "RADIX_NODE_BITS = 4"
definition RADIX_NODE_SIZE :: nat where "RADIX_NODE_SIZE = 16"
definition RADIX_NODE_MASK :: u64 where "RADIX_NODE_MASK = 15"
definition RADIX_LEVELS :: nat where "RADIX_LEVELS = 16"

datatype radix_node = RNode "radix_node option list" | RLeaf "addr list"

record radix =
  radix_root :: "radix_node option"
  radix_lock :: bool
  radix_deleter :: bool

definition empty_node :: "nat \<Rightarrow> radix_node" where
  "empty_node level = (if level = 0 then RLeaf (replicate RADIX_NODE_SIZE NULL) else RNode (replicate RADIX_NODE_SIZE None))"

definition new_radix :: radix where
  "new_radix = \<lparr>radix_root = None, radix_lock = False, radix_deleter = False\<rparr>"

definition init_radix :: "radix \<Rightarrow> radix" where
  "init_radix r = r\<lparr>radix_root := Some (empty_node (RADIX_LEVELS - 1)), radix_deleter := False, radix_lock := False\<rparr>"

definition init_radix_w_deleter :: "radix \<Rightarrow> radix" where
  "init_radix_w_deleter r = (init_radix r)\<lparr>radix_deleter := True\<rparr>"

definition new_radix_node :: "nat \<Rightarrow> nat \<Rightarrow> (radix_node \<times> nat) option" where
  "new_radix_node avail level = (if avail = 0 then None else Some (empty_node level, avail - 1))"

text \<open>The loop that cuts the key into indexes, lowest first.\<close>

primrec radix_indexes :: "nat \<Rightarrow> u64 \<Rightarrow> nat list" where
  "radix_indexes 0 key = []"
| "radix_indexes (Suc n) key = unat (key AND RADIX_NODE_MASK) # radix_indexes n (drop_bit RADIX_NODE_BITS key)"

text \<open>The descent of \<open>radix_add\<close> along the indexes, highest first, and the store at the leaf.\<close>

fun radix_add_at :: "nat \<Rightarrow> nat list \<Rightarrow> addr \<Rightarrow> radix_node \<Rightarrow> (int \<times> nat \<times> radix_node) option" where
  "radix_add_at avail [k] v (RLeaf vs) =
     (if k < length vs then if vs ! k \<noteq> NULL \<and> v \<noteq> NULL then None else Some (0, avail, RLeaf (vs[k := v])) else None)"
| "radix_add_at avail (k # j # ks) v (RNode cs) =
     (if k < length cs then
        case cs ! k of
          Some c \<Rightarrow> do { (ret, avail1, c1) \<leftarrow> radix_add_at avail (j # ks) v c; Some (ret, avail1, RNode (cs[k := Some c1])) }
        | None \<Rightarrow> (case new_radix_node avail (length ks) of
                   None \<Rightarrow> Some (- ENOMEM, avail, RNode cs)
                 | Some (c, avail1) \<Rightarrow>
                     do { (ret, avail2, c1) \<leftarrow> radix_add_at avail1 (j # ks) v c; Some (ret, avail2, RNode (cs[k := Some c1])) })
      else None)"
| "radix_add_at avail ks v n = None"

definition radix_add :: "nat \<Rightarrow> radix \<Rightarrow> u64 \<Rightarrow> addr \<Rightarrow> (int \<times> nat \<times> radix) option" where
  "radix_add avail r key v =
     (if radix_lock r then None
      else case (case radix_root r of Some n \<Rightarrow> Some (n, avail) | None \<Rightarrow> new_radix_node avail (RADIX_LEVELS - 1)) of
          None \<Rightarrow> Some (- ENOMEM, avail, r)
        | Some (n, avail1) \<Rightarrow>
            do { (ret, avail2, n1) \<leftarrow> radix_add_at avail1 (rev (radix_indexes RADIX_LEVELS key)) v n;
                 Some (ret, avail2, r\<lparr>radix_root := Some n1\<rparr>) })"

fun radix_get_at :: "nat list \<Rightarrow> radix_node \<Rightarrow> addr option" where
  "radix_get_at [k] (RLeaf vs) = (if k < length vs then Some (vs ! k) else None)"
| "radix_get_at (k # j # ks) (RNode cs) =
     (if k < length cs then case cs ! k of None \<Rightarrow> Some NULL | Some c \<Rightarrow> radix_get_at (j # ks) c else None)"
| "radix_get_at ks n = None"

definition radix_get :: "radix \<Rightarrow> u64 \<Rightarrow> addr option" where
  "radix_get r key =
     (if radix_lock r then None
      else case radix_root r of
          None \<Rightarrow> Some NULL
        | Some n \<Rightarrow> radix_get_at (rev (radix_indexes RADIX_LEVELS key)) n)"

definition radix_del :: "nat \<Rightarrow> radix \<Rightarrow> u64 \<Rightarrow> (int \<times> nat \<times> radix) option" where
  "radix_del avail r key = radix_add avail r key NULL"

text \<open>
  The values on which \<open>radix_free_node\<close> calls the deleter, in order; the first argument is
  \<open>RADIX_LEVELS - 1 - node_level\<close>.
\<close>

primrec concat_options :: "'a list option list \<Rightarrow> 'a list option" where
  "concat_options [] = Some []"
| "concat_options (x # xs) = do { a \<leftarrow> x; b \<leftarrow> concat_options xs; Some (a @ b) }"

fun radix_free_node :: "nat \<Rightarrow> bool \<Rightarrow> radix_node \<Rightarrow> addr list option" where
  "radix_free_node 0 deleter (RLeaf vs) = Some (if deleter then filter (\<lambda>v. v \<noteq> NULL) vs else [])"
| "radix_free_node (Suc n) deleter (RNode cs) =
     concat_options (map (\<lambda>c. case c of None \<Rightarrow> Some [] | Some m \<Rightarrow> radix_free_node n deleter m) cs)"
| "radix_free_node n deleter m = None"

definition radix_free :: "radix \<Rightarrow> (int \<times> addr list \<times> radix option) option" where
  "radix_free r =
     (if radix_lock r then None
      else let r1 = r\<lparr>radix_lock := True\<rparr>
           in case radix_root r1 of
                None \<Rightarrow> Some (- EINVAL, [], Some r1)
              | Some n \<Rightarrow> do { vs \<leftarrow> radix_free_node (RADIX_LEVELS - 1) (radix_deleter r1) n; Some (0, vs, None) })"

section \<open>Paths\<close>

fun radix_wf :: "nat \<Rightarrow> radix_node \<Rightarrow> bool" where
  "radix_wf 0 (RLeaf vs) \<longleftrightarrow> length vs = RADIX_NODE_SIZE"
| "radix_wf (Suc d) (RNode cs) \<longleftrightarrow> length cs = RADIX_NODE_SIZE \<and> (\<forall>c \<in> set cs. case c of None \<Rightarrow> True | Some n \<Rightarrow> radix_wf d n)"
| "radix_wf d n \<longleftrightarrow> False"

definition path_ok :: "nat \<Rightarrow> nat list \<Rightarrow> bool" where
  "path_ok d p \<longleftrightarrow> length p = Suc d \<and> (\<forall>k \<in> set p. k < RADIX_NODE_SIZE)"

text \<open>The value at a path, \<open>NULL\<close> when the path leaves the tree.\<close>

fun lookup :: "nat list \<Rightarrow> radix_node \<Rightarrow> addr" where
  "lookup [k] (RLeaf vs) = vs ! k"
| "lookup (k # j # ks) (RNode cs) = (case cs ! k of None \<Rightarrow> NULL | Some c \<Rightarrow> lookup (j # ks) c)"
| "lookup ks n = NULL"

lemma radix_wf_child: "radix_wf (Suc d) (RNode cs) \<Longrightarrow> k < RADIX_NODE_SIZE \<Longrightarrow> cs ! k = Some c \<Longrightarrow> radix_wf d c"
  using nth_mem [of k cs] by (auto dest!: bspec [of _ _ "cs ! k"])

lemma radix_wf_SucE:
  assumes "radix_wf (Suc d) n"
  obtains cs where "n = RNode cs" "length cs = RADIX_NODE_SIZE"
  using assms by (cases n) auto

lemma radix_wf_0E:
  assumes "radix_wf 0 n"
  obtains vs where "n = RLeaf vs" "length vs = RADIX_NODE_SIZE"
  using assms by (cases n) auto

lemma path_ok_Suc: "path_ok (Suc d) p \<longleftrightarrow> (\<exists>k j ks. p = k # j # ks \<and> k < RADIX_NODE_SIZE \<and> path_ok d (j # ks) \<and> length ks = d)"
  by (auto simp: path_ok_def length_Suc_conv)

lemma path_ok_0: "path_ok 0 p \<longleftrightarrow> (\<exists>k. p = [k] \<and> k < RADIX_NODE_SIZE)"
  by (auto simp: path_ok_def length_Suc_conv)

lemma radix_get_at_lookup:
  assumes "radix_wf d n" "path_ok d p"
  shows "radix_get_at p n = Some (lookup p n)"
  using assms
proof (induction d arbitrary: n p)
  case 0
  then show ?case by (auto simp: path_ok_0 elim!: radix_wf_0E)
next
  case (Suc d)
  then obtain k j ks cs where p: "p = k # j # ks" "k < RADIX_NODE_SIZE" "path_ok d (j # ks)"
    and n: "n = RNode cs" "length cs = RADIX_NODE_SIZE" by (auto simp: path_ok_Suc elim!: radix_wf_SucE)
  then show ?case using Suc.IH [OF radix_wf_child p(3)] Suc.prems by (auto split: option.splits)
qed

lemma empty_node_wf: "radix_wf d (empty_node d)"
  by (cases d) (simp_all add: empty_node_def)

lemma lookup_empty: "path_ok d p \<Longrightarrow> lookup p (empty_node d) = NULL"
  by (cases d) (auto simp: path_ok_0 path_ok_Suc empty_node_def)

lemma radix_wf_upd:
  assumes "radix_wf (Suc d) (RNode cs)" "radix_wf d c"
  shows "radix_wf (Suc d) (RNode (cs[k := Some c]))"
  using assms by (auto dest!: set_update_subset_insert [THEN subsetD] split: option.splits)

text \<open>
  Adding at a path: it stops exactly on a present key, it never fails with enough memory, and when it
  fails no value has changed.
\<close>

lemma radix_add_at_ok:
  assumes "radix_wf d n" "path_ok d p" "lookup p n = NULL \<or> v = NULL"
  shows "\<exists>ret a n'. radix_add_at avail p v n = Some (ret, a, n') \<and> radix_wf d n' \<and>
    (ret = 0 \<and> (\<forall>q. path_ok d q \<longrightarrow> lookup q n' = (if q = p then v else lookup q n)) \<or>
     ret = - ENOMEM \<and> avail < d \<and> (\<forall>q. path_ok d q \<longrightarrow> lookup q n' = lookup q n))"
  using assms
proof (induction d arbitrary: n p avail)
  case 0
  then show ?case by (auto simp: path_ok_0 nth_list_update elim!: radix_wf_0E split: if_splits)
next
  case (Suc d)
  then obtain k j ks cs where p: "p = k # j # ks" "k < RADIX_NODE_SIZE" "path_ok d (j # ks)" "length ks = d"
    and n: "n = RNode cs" "length cs = RADIX_NODE_SIZE" by (auto simp: path_ok_Suc elim!: radix_wf_SucE)
  have wf: "radix_wf (Suc d) (RNode cs)" using Suc.prems(1) n by simp
  have step: "\<exists>ret a n'. (do { (ret, avail1, c1) \<leftarrow> radix_add_at av (j # ks) v c; Some (ret, avail1, RNode (cs[k := Some c1])) })
        = Some (ret, a, n') \<and> radix_wf (Suc d) n' \<and>
      (ret = 0 \<and> (\<forall>q. path_ok (Suc d) q \<longrightarrow> lookup q n' = (if q = p then v else lookup q n)) \<or>
       ret = - ENOMEM \<and> av < d \<and> (\<forall>q. path_ok (Suc d) q \<longrightarrow> lookup q n' = lookup q n))"
    if c: "radix_wf d c" "lookup (j # ks) c = NULL \<or> v = NULL"
      "\<And>q. path_ok d q \<Longrightarrow> lookup q c = (case cs ! k of None \<Rightarrow> NULL | Some c \<Rightarrow> lookup q c)" for c av
  proof -
    obtain ret a c1 where r: "radix_add_at av (j # ks) v c = Some (ret, a, c1)" "radix_wf d c1"
      and l: "ret = 0 \<and> (\<forall>q. path_ok d q \<longrightarrow> lookup q c1 = (if q = j # ks then v else lookup q c)) \<or>
        ret = - ENOMEM \<and> av < d \<and> (\<forall>q. path_ok d q \<longrightarrow> lookup q c1 = lookup q c)"
      using Suc.IH [OF c(1) p(3) c(2)] by blast
    have L: "lookup q (RNode (cs[k := Some c1])) = (if hd q = k then lookup (tl q) c1 else lookup q n)"
        "hd q = k \<Longrightarrow> lookup q n = lookup (tl q) c" "path_ok d (tl q)" "q = p \<longleftrightarrow> hd q = k \<and> tl q = j # ks"
      if "path_ok (Suc d) q" for q
      using that p(1,2) n c(3) [of "tl q"] by (auto simp: path_ok_Suc split: option.splits)
    let ?n = "RNode (cs[k := Some c1])"
    have "ret = 0 \<and> (\<forall>q. path_ok (Suc d) q \<longrightarrow> lookup q ?n = (if q = p then v else lookup q n)) \<or>
       ret = - ENOMEM \<and> av < d \<and> (\<forall>q. path_ok (Suc d) q \<longrightarrow> lookup q ?n = lookup q n)"
      using l
    proof
      assume "ret = 0 \<and> (\<forall>q. path_ok d q \<longrightarrow> lookup q c1 = (if q = j # ks then v else lookup q c))"
      then show ?thesis using L by metis
    next
      assume "ret = - ENOMEM \<and> av < d \<and> (\<forall>q. path_ok d q \<longrightarrow> lookup q c1 = lookup q c)"
      then show ?thesis using L by metis
    qed
    then show ?thesis using r radix_wf_upd [OF wf r(2)] by (simp del: lookup.simps radix_wf.simps)
  qed
  show ?case
  proof (cases "cs ! k")
    case (Some c)
    have "radix_wf d c" by (rule radix_wf_child [OF wf p(2) Some])
    moreover have "lookup (j # ks) c = NULL \<or> v = NULL" using Suc.prems(3) p(1) n(1) Some by simp
    ultimately show ?thesis using step [of c avail] Some p(1,2) n by auto
  next
    case None
    show ?thesis
    proof (cases avail)
      case 0
      then show ?thesis using None p(1,2) n wf by (simp add: new_radix_node_def)
    next
      case (Suc av)
      have "lookup (j # ks) (empty_node d) = NULL" by (rule lookup_empty [OF p(3)])
      then show ?thesis using step [OF empty_node_wf, of av] None Suc p n lookup_empty [of d]
        by (auto simp: new_radix_node_def)
    qed
  qed
qed

lemma radix_add_at_present:
  assumes "radix_wf d n" "path_ok d p" "lookup p n \<noteq> NULL" "v \<noteq> NULL"
  shows "radix_add_at avail p v n = None"
  using assms
proof (induction d arbitrary: n p)
  case 0
  then show ?case by (auto simp: path_ok_0 elim!: radix_wf_0E)
next
  case (Suc d)
  then obtain k j ks cs where p: "p = k # j # ks" "k < RADIX_NODE_SIZE" "path_ok d (j # ks)"
    and n: "n = RNode cs" "length cs = RADIX_NODE_SIZE" by (auto simp: path_ok_Suc elim!: radix_wf_SucE)
  then obtain c where c: "cs ! k = Some c" "lookup (j # ks) c \<noteq> NULL" using Suc.prems(3) by (auto split: option.splits)
  have "radix_wf d c" by (rule radix_wf_child [OF _ p(2) c(1)]) (use Suc.prems(1) n in simp)
  then show ?case using Suc.IH [OF _ p(3) c(2) Suc.prems(4)] c(1) p n by simp
qed

section \<open>Keys\<close>

text \<open>The indexes are the hexadecimal digits of the key, so a key is determined by its path.\<close>

primrec digits :: "nat \<Rightarrow> nat \<Rightarrow> nat list" where
  "digits 0 m = []"
| "digits (Suc n) m = m mod 16 # digits n (m div 16)"

lemma radix_indexes_digits: "radix_indexes n key = digits n (unat key)"
proof (induction n arbitrary: key)
  case (Suc n)
  have "key AND 15 = take_bit 4 key" by (simp add: take_bit_eq_mask mask_eq_exp_minus_1)
  then have "unat (key AND 15) = unat key mod 16" by (simp add: take_bit_eq_mod unat_mod)
  moreover have "unat (drop_bit 4 key) = unat key div 16" by (simp add: drop_bit_eq_div unat_div)
  ultimately show ?case using Suc by (simp add: RADIX_NODE_MASK_def RADIX_NODE_BITS_def)
qed simp

lemma digits_inj: "digits n m = digits n k \<Longrightarrow> m < 16 ^ n \<Longrightarrow> k < 16 ^ n \<Longrightarrow> m = k"
proof (induction n arbitrary: m k)
  case (Suc n)
  then have "m div 16 = k div 16" "m mod 16 = k mod 16" by (auto simp: div_less_iff_less_mult mult.commute)
  then show ?case by (metis div_mult_mod_eq)
qed simp

lemma digits_ok: "length (digits n m) = n" "k \<in> set (digits n m) \<Longrightarrow> k < 16"
  by (induction n arbitrary: m) auto

definition key_path :: "u64 \<Rightarrow> nat list" where
  "key_path key = rev (radix_indexes RADIX_LEVELS key)"

lemma key_path_ok: "path_ok 15 (key_path key)"
  by (auto simp: path_ok_def key_path_def radix_indexes_digits digits_ok RADIX_LEVELS_def RADIX_NODE_SIZE_def)

lemma hex_range: "(16 :: nat) ^ 16 = 2 ^ 64"
  using power_mult [of "2 :: nat" 4 16] by simp

lemma key_path_inj: "key_path k = key_path l \<longleftrightarrow> k = l"
proof
  assume "key_path k = key_path l"
  then have "digits 16 (unat k) = digits 16 (unat l)" by (simp add: key_path_def radix_indexes_digits RADIX_LEVELS_def)
  moreover have "unat j < 16 ^ 16" for j :: u64 using unat_less64 [of j] by (simp only: hex_range)
  ultimately have "unat k = unat l" using digits_inj by blast
  then show "k = l" by (simp add: word_unat_eq_iff)
qed simp

lemma digits_surj: "length ds = n \<Longrightarrow> \<forall>d \<in> set ds. d < 16 \<Longrightarrow> \<exists>m < 16 ^ n. digits n m = ds"
proof (induction ds arbitrary: n)
  case (Cons d ds)
  then obtain k where k: "n = Suc k" "length ds = k" by (cases n) auto
  then obtain m where m: "m < 16 ^ k" "digits k m = ds" using Cons.IH [of k] Cons.prems by auto
  have "digits n (16 * m + d) = d # ds" using m(2) k Cons.prems by simp
  moreover have "16 * m + d < 16 ^ n" using m(1) k Cons.prems by simp
  ultimately show ?case by blast
qed auto

lemma key_path_surj: "path_ok 15 p \<Longrightarrow> \<exists>key. key_path key = p"
proof -
  assume p: "path_ok 15 p"
  then obtain m where m: "m < 16 ^ 16" "digits 16 m = rev p"
    using digits_surj [of "rev p" 16] by (auto simp: path_ok_def RADIX_NODE_SIZE_def)
  then have "unat (word_of_nat m :: u64) = m" by (intro unat_of_nat64) (simp only: hex_range)
  then have "key_path (word_of_nat m) = p" using m(2) by (simp add: key_path_def radix_indexes_digits RADIX_LEVELS_def)
  then show ?thesis by blast
qed

section \<open>The map in a tree\<close>

definition radix_inv :: "radix \<Rightarrow> bool" where
  "radix_inv r \<longleftrightarrow> \<not> radix_lock r \<and> (case radix_root r of None \<Rightarrow> True | Some n \<Rightarrow> radix_wf 15 n)"

definition radix_map :: "radix \<Rightarrow> u64 \<Rightarrow> addr" where
  "radix_map r key = (case radix_root r of None \<Rightarrow> NULL | Some n \<Rightarrow> lookup (key_path key) n)"

lemma radix_get_map: "radix_inv r \<Longrightarrow> radix_get r key = Some (radix_map r key)"
  using radix_get_at_lookup [OF _ key_path_ok [unfolded key_path_def]]
  by (auto simp: radix_inv_def radix_map_def radix_get_def key_path_def split: option.splits)

lemma radix_add_map:
  assumes inv: "radix_inv r" and v: "radix_map r key = NULL \<or> v = NULL"
  shows "\<exists>ret a r'. radix_add avail r key v = Some (ret, a, r') \<and> radix_inv r' \<and>
    (ret = 0 \<and> radix_map r' = (radix_map r)(key := v) \<or>
     ret = - ENOMEM \<and> avail < RADIX_LEVELS \<and> radix_map r' = radix_map r)"
proof -
  have step: "\<exists>ret a r'. (do { (ret, avail2, n1) \<leftarrow> radix_add_at av (key_path key) v n; Some (ret, avail2, r\<lparr>radix_root := Some n1\<rparr>) })
      = Some (ret, a, r') \<and> radix_inv r' \<and>
    (ret = 0 \<and> radix_map r' = (radix_map r)(key := v) \<or> ret = - ENOMEM \<and> av < 15 \<and> radix_map r' = radix_map r)"
    if n: "radix_wf 15 n" "\<And>k. lookup (key_path k) n = radix_map r k" for n av
  proof -
    have "lookup (key_path key) n = NULL \<or> v = NULL" using v n(2) by simp
    from radix_add_at_ok [OF n(1) key_path_ok this, of av] obtain ret a n' where
      r': "radix_add_at av (key_path key) v n = Some (ret, a, n')" "radix_wf 15 n'"
      "ret = 0 \<and> (\<forall>q. path_ok 15 q \<longrightarrow> lookup q n' = (if q = key_path key then v else lookup q n)) \<or>
       ret = - ENOMEM \<and> av < 15 \<and> (\<forall>q. path_ok 15 q \<longrightarrow> lookup q n' = lookup q n)" by blast
    have "ret = 0 \<and> radix_map (r\<lparr>radix_root := Some n'\<rparr>) = (radix_map r)(key := v) \<or>
        ret = - ENOMEM \<and> av < 15 \<and> radix_map (r\<lparr>radix_root := Some n'\<rparr>) = radix_map r"
      using r'(3) key_path_ok n(2) by (auto simp: fun_eq_iff radix_map_def key_path_inj)
    then show ?thesis using r'(1,2) inv by (auto simp: radix_inv_def)
  qed
  show ?thesis
  proof (cases "radix_root r")
    case None
    show ?thesis
    proof (cases avail)
      case 0
      then show ?thesis using None inv by (simp add: radix_add_def radix_inv_def new_radix_node_def RADIX_LEVELS_def)
    next
      case (Suc av)
      have "lookup (key_path k) (empty_node 15) = radix_map r k" for k
        using lookup_empty [OF key_path_ok, of k] None by (simp add: radix_map_def)
      from step [OF empty_node_wf this, of av] show ?thesis
        using None Suc inv by (auto simp: radix_add_def radix_inv_def new_radix_node_def RADIX_LEVELS_def key_path_def)
    qed
  next
    case (Some n)
    then have "radix_wf 15 n" "\<And>k. lookup (key_path k) n = radix_map r k" using inv by (simp_all add: radix_inv_def radix_map_def)
    from step [OF this, of avail] show ?thesis
      using Some inv by (auto simp: radix_add_def radix_inv_def RADIX_LEVELS_def key_path_def)
  qed
qed

lemma radix_add_present:
  assumes inv: "radix_inv r" and "radix_map r key \<noteq> NULL" "v \<noteq> NULL"
  shows "radix_add avail r key v = None"
  using assms radix_add_at_present [OF _ key_path_ok _ assms(3), of _ key avail]
  by (auto simp: radix_add_def radix_inv_def radix_map_def key_path_def split: option.splits)

section \<open>The contract of a map\<close>

text \<open>A map with a null value for absent keys, whose updates may run out of memory without effect.\<close>

locale null_map =
  fixes invar :: "'s \<Rightarrow> bool" and look :: "'s \<Rightarrow> 'k \<Rightarrow> 'v" and null :: 'v and add :: "nat \<Rightarrow> 's \<Rightarrow> 'k \<Rightarrow> 'v \<Rightarrow> (nat \<times> 's) option"
    and need :: nat
  assumes add_ok: "invar s \<Longrightarrow> look s k = null \<or> v = null \<Longrightarrow> need \<le> avail \<Longrightarrow>
      \<exists>a s'. add avail s k v = Some (a, s') \<and> invar s' \<and> look s' = (look s)(k := v)"
begin

lemma add_then_remove:
  assumes "invar s" "look s k = null" "need \<le> avail"
  shows "\<exists>a s1. add avail s k v = Some (a, s1) \<and> look s1 k = v \<and>
    (\<forall>avail'. need \<le> avail' \<longrightarrow> (\<exists>b s2. add avail' s1 k null = Some (b, s2) \<and> invar s2 \<and> look s2 = look s))"
proof -
  obtain a s1 where s1: "add avail s k v = Some (a, s1)" "invar s1" "look s1 = (look s)(k := v)"
    using add_ok [of s k v avail] assms by blast
  have "\<exists>b s2. add avail' s1 k null = Some (b, s2) \<and> invar s2 \<and> look s2 = look s" if av: "need \<le> avail'" for avail'
  proof -
    obtain b s2 where "add avail' s1 k null = Some (b, s2)" "invar s2" "look s2 = (look s1)(k := null)"
      using add_ok [OF s1(2) _ av, of k null] by blast
    moreover have "(look s1)(k := null) = look s" using s1(3) assms(2) by auto
    ultimately show ?thesis by auto
  qed
  then show ?thesis using s1 by auto
qed

lemma add_independent:
  assumes "invar s" "look s k = null" "look s l = null" "k \<noteq> l" "need \<le> avail" "need \<le> avail'"
  shows "\<exists>a b s1 s2. add avail s k v = Some (a, s1) \<and> add avail' s1 l w = Some (b, s2) \<and>
    invar s2 \<and> look s2 = (look s)(k := v, l := w)"
proof -
  obtain a s1 where s1: "add avail s k v = Some (a, s1)" "invar s1" "look s1 = (look s)(k := v)"
    using add_ok [of s k v avail] assms by blast
  then show ?thesis using add_ok [OF s1(2) _ assms(6), of l w] assms(3,4) by auto
qed

end

definition radix_store :: "nat \<Rightarrow> radix \<Rightarrow> u64 \<Rightarrow> addr \<Rightarrow> (nat \<times> radix) option" where
  "radix_store avail r key v =
     do { (ret, a, r1) \<leftarrow> radix_add avail r key v; if ret = 0 then Some (a, r1) else None }"

interpretation rx: null_map radix_inv radix_map NULL radix_store RADIX_LEVELS
proof
  fix s k v avail
  assume "radix_inv s" "radix_map s k = NULL \<or> v = NULL" "RADIX_LEVELS \<le> avail"
  then show "\<exists>a s'. radix_store avail s k v = Some (a, s') \<and> radix_inv s' \<and> radix_map s' = (radix_map s)(k := v)"
    using radix_add_map [of s k v avail] by (fastforce simp: radix_store_def)
qed

section \<open>Freeing a tree\<close>

text \<open>All paths, in the order in which \<open>radix_free_node\<close> walks the tree.\<close>

primrec all_paths :: "nat \<Rightarrow> nat list list" where
  "all_paths 0 = map (\<lambda>k. [k]) [0..<RADIX_NODE_SIZE]"
| "all_paths (Suc d) = concat (map (\<lambda>k. map ((#) k) (all_paths d)) [0..<RADIX_NODE_SIZE])"

lemma set_all_paths: "set (all_paths d) = {p. path_ok d p}"
proof (induction d)
  case (Suc d)
  have "p \<in> set (all_paths (Suc d)) \<longleftrightarrow> (\<exists>k q. p = k # q \<and> k < RADIX_NODE_SIZE \<and> path_ok d q)" for p
    using Suc by auto
  also have "\<dots> p \<longleftrightarrow> path_ok (Suc d) p" for p by (auto simp: path_ok_def length_Suc_conv)
  finally show ?case by blast
qed (auto simp: path_ok_0)

lemma distinct_all_paths: "distinct (all_paths d)"
proof (induction d)
  case (Suc d)
  have "distinct (concat (map (\<lambda>k. map ((#) k) (all_paths d)) ks))" if "distinct ks" for ks :: "nat list"
    using that Suc by (induction ks) (auto simp: distinct_map)
  then show ?case by simp
qed (simp add: distinct_map inj_on_def)

lemma concat_options_Some: "\<forall>x \<in> set xs. f x = Some (g x) \<Longrightarrow> concat_options (map f xs) = Some (concat (map g xs))"
  by (induction xs) auto

lemma filter_rows:
  "concat (map (\<lambda>k. filter P (map (\<lambda>p. f (k # p)) xs)) ks) = filter P (map f (concat (map (\<lambda>k. map ((#) k) xs) ks)))"
  by (induction ks) (auto simp: comp_def)

lemma radix_free_node_ok:
  assumes "radix_wf d n"
  shows "radix_free_node d del n = Some (if del then filter (\<lambda>v. v \<noteq> NULL) (map (\<lambda>p. lookup p n) (all_paths d)) else [])"
  using assms
proof (induction d arbitrary: n)
  case 0
  then obtain vs where n: "n = RLeaf vs" "length vs = RADIX_NODE_SIZE" by (rule radix_wf_0E)
  have "map (\<lambda>p. lookup p n) (all_paths 0) = vs"
    using map_nth [of vs] n by (simp add: comp_def)
  then show ?case using n by simp
next
  case (Suc d)
  from Suc.prems obtain cs where n: "n = RNode cs" "length cs = RADIX_NODE_SIZE" by (rule radix_wf_SucE)
  let ?f = "\<lambda>c. case c of None \<Rightarrow> Some [] | Some m \<Rightarrow> radix_free_node d del m"
  let ?g = "\<lambda>c. case c of None \<Rightarrow> [] | Some m \<Rightarrow> if del then filter (\<lambda>v. v \<noteq> NULL) (map (\<lambda>p. lookup p m) (all_paths d)) else []"
  have "radix_wf d m" if "Some m \<in> set cs" for m using Suc.prems that n by auto
  then have "\<forall>c \<in> set cs. ?f c = Some (?g c)" using Suc.IH by (auto split: option.splits)
  from concat_options_Some [OF this] have free: "radix_free_node (Suc d) del n = Some (concat (map ?g cs))" by (simp add: n)
  have row: "?g (cs ! k) = (if del then filter (\<lambda>v. v \<noteq> NULL) (map (\<lambda>p. lookup (k # p) n) (all_paths d)) else [])" for k
  proof -
    have "lookup (k # p) n = (case cs ! k of None \<Rightarrow> NULL | Some c \<Rightarrow> lookup p c)" if "p \<in> set (all_paths d)" for p
    proof -
      have "path_ok d p" using that set_all_paths by blast
      then obtain j ks where "p = j # ks" by (cases p) (auto simp: path_ok_def)
      then show ?thesis using n(1) by (simp split: option.split)
    qed
    then have eq: "map (\<lambda>p. lookup (k # p) n) (all_paths d) =
        map (\<lambda>p. case cs ! k of None \<Rightarrow> NULL | Some c \<Rightarrow> lookup p c) (all_paths d)" by (intro map_cong) auto
    show ?thesis unfolding eq by (cases "cs ! k") (simp_all add: filter_empty_conv)
  qed
  have "map ?g cs = map (\<lambda>k. ?g (cs ! k)) [0..<RADIX_NODE_SIZE]"
    unfolding n(2) [symmetric] by (subst map_nth [of cs, symmetric]) (simp only: map_map comp_def length_map length_upt)
  also have "\<dots> = map (\<lambda>k. if del then filter (\<lambda>v. v \<noteq> NULL) (map (\<lambda>p. lookup (k # p) n) (all_paths d)) else []) [0..<RADIX_NODE_SIZE]"
    unfolding row ..
  finally have "concat (map ?g cs) = (if del then filter (\<lambda>v. v \<noteq> NULL) (map (\<lambda>p. lookup p n) (all_paths (Suc d))) else [])"
    using filter_rows [of "\<lambda>v. v \<noteq> NULL" "\<lambda>p. lookup p n" "all_paths d" "[0..<RADIX_NODE_SIZE]"] by (cases del) simp_all
  then show ?case using free by simp
qed

section \<open>Properties\<close>

text \<open>
  C22. The radix tree is a map from all 64-bit keys: lookup never fails, adding stops exactly when a value
  is stored over a present one, otherwise it changes the value of that key only; running out of memory is
  reported as \<open>-ENOMEM\<close> and changes no value, and cannot happen with one node per level available.
\<close>

theorem radix_correct:
  assumes "radix_inv r"
  shows "(\<forall>key. radix_get r key = Some (radix_map r key)) \<and>
    (\<forall>key v avail. radix_add avail r key v = None \<longleftrightarrow> radix_map r key \<noteq> NULL \<and> v \<noteq> NULL) \<and>
    (\<forall>key v avail ret a r'. radix_add avail r key v = Some (ret, a, r') \<longrightarrow> radix_inv r' \<and>
       (ret = 0 \<and> radix_map r' = (radix_map r)(key := v) \<or>
        ret = - ENOMEM \<and> avail < RADIX_LEVELS \<and> radix_map r' = radix_map r)) \<and>
    (\<forall>key v avail. radix_map r key = NULL \<longrightarrow> RADIX_LEVELS \<le> avail \<longrightarrow>
       (\<exists>a r1. radix_store avail r key v = Some (a, r1) \<and> radix_get r1 key = Some v \<and>
          (\<exists>b r2. radix_store RADIX_LEVELS r1 key NULL = Some (b, r2) \<and> radix_map r2 = radix_map r)))"
proof (intro conjI allI impI)
  show "radix_get r key = Some (radix_map r key)" for key by (rule radix_get_map [OF assms])
  show "radix_add avail r key v = None \<longleftrightarrow> radix_map r key \<noteq> NULL \<and> v \<noteq> NULL" for key v avail
    using radix_add_map [OF assms, of key v avail] radix_add_present [OF assms, of key v avail] by auto
next
  fix key v avail ret a r'
  assume add: "radix_add avail r key v = Some (ret, a, r')"
  then have "radix_map r key = NULL \<or> v = NULL" using radix_add_present [OF assms, of key v avail] by auto
  from radix_add_map [OF assms this, of avail] add
  show "radix_inv r'" "ret = 0 \<and> radix_map r' = (radix_map r)(key := v) \<or>
      ret = - ENOMEM \<and> avail < RADIX_LEVELS \<and> radix_map r' = radix_map r" by auto
next
  fix key v avail assume "radix_map r key = NULL" "RADIX_LEVELS \<le> avail"
  from rx.add_then_remove [OF assms this, of v] obtain a r1 where
    r1: "radix_store avail r key v = Some (a, r1)" "radix_map r1 key = v"
      "\<exists>b r2. radix_store RADIX_LEVELS r1 key NULL = Some (b, r2) \<and> radix_inv r2 \<and> radix_map r2 = radix_map r" by blast
  moreover have "radix_inv r1" using radix_add_map [OF assms, of key v avail] \<open>radix_map r key = NULL\<close> r1(1)
    by (auto simp: radix_store_def split: if_splits)
  ultimately show "\<exists>a r1. radix_store avail r key v = Some (a, r1) \<and> radix_get r1 key = Some v \<and>
      (\<exists>b r2. radix_store RADIX_LEVELS r1 key NULL = Some (b, r2) \<and> radix_map r2 = radix_map r)"
    using radix_get_map by auto
qed

text \<open>
  C23. Freeing a tree with a deleter calls it exactly once for every key that is present, with the value of
  that key, and without a deleter not at all; the walk covers the whole tree and never fails.
\<close>

theorem radix_free_correct:
  assumes "radix_inv r" "radix_root r \<noteq> None"
  shows "\<exists>vs keys. radix_free r = Some (0, vs, None) \<and> distinct keys \<and> set keys = {key. radix_map r key \<noteq> NULL} \<and>
    vs = (if radix_deleter r then map (radix_map r) keys else [])"
proof -
  from assms obtain n where n: "radix_root r = Some n" "radix_wf 15 n" by (auto simp: radix_inv_def)
  define ps where "ps = filter (\<lambda>p. lookup p n \<noteq> NULL) (all_paths 15)"
  define keys where "keys = map (inv_into UNIV key_path) ps"
  have inj: "inj key_path" using key_path_inj by (simp add: inj_def)
  have rng: "set ps \<subseteq> range key_path" using key_path_surj by (auto simp: ps_def set_all_paths)
  have bck: "key_path (inv_into UNIV key_path p) = p" if "p \<in> set ps" for p using rng that by (auto intro: f_inv_into_f)
  have vs: "filter (\<lambda>v. v \<noteq> NULL) (map (\<lambda>p. lookup p n) (all_paths 15)) = map (radix_map r) keys"
    unfolding keys_def using bck by (simp add: filter_map comp_def ps_def radix_map_def n(1))
  have "distinct keys" unfolding keys_def distinct_map
    using distinct_all_paths [of 15] bck by (auto simp: ps_def intro!: inj_on_inverseI [where g = key_path])
  moreover have "set keys = {key. radix_map r key \<noteq> NULL}"
  proof -
    have "key \<in> set keys \<longleftrightarrow> key_path key \<in> set ps" for key
      using bck inj by (auto simp: keys_def image_iff) (metis inv_into_f_f UNIV_I)
    then show ?thesis using key_path_ok by (auto simp: ps_def set_all_paths radix_map_def n(1))
  qed
  moreover have "radix_free r = Some (0, if radix_deleter r then map (radix_map r) keys else [], None)"
    using assms(1) n radix_free_node_ok [OF n(2), of "radix_deleter r"] vs
    by (simp add: radix_free_def radix_inv_def RADIX_LEVELS_def)
  ultimately show ?thesis by blast
qed

text \<open>
  C24. Freeing a tree that was never initialised reports \<open>-EINVAL\<close> but leaves the lock of the tree taken, so
  that every later operation on it waits forever.
\<close>

theorem radix_free_keeps_lock:
  assumes "radix_root r = None" "\<not> radix_lock r"
  shows "\<exists>r'. radix_free r = Some (- EINVAL, [], Some r') \<and>
    (\<forall>key v avail. radix_add avail r' key v = None \<and> radix_get r' key = None) \<and> radix_free r' = None"
  using assms by (simp add: radix_free_def radix_add_def radix_get_def)

theorem radix_free_keeps_lock_witness: "\<exists>r'. radix_free new_radix = Some (- EINVAL, [], Some r') \<and> radix_get r' 0 = None"
  using radix_free_keeps_lock [of new_radix] by (auto simp: new_radix_def)

lemma init_radix_inv: "radix_inv (init_radix_w_deleter new_radix)" "radix_map (init_radix_w_deleter new_radix) = (\<lambda>_. NULL)"
  using empty_node_wf [of 15] lookup_empty [OF key_path_ok]
  by (simp_all add: radix_inv_def radix_map_def init_radix_w_deleter_def init_radix_def RADIX_LEVELS_def fun_eq_iff)

theorem radix_correct_witness:
  "\<exists>a r1. radix_store 16 (init_radix_w_deleter new_radix) 0x123 0x4000 = Some (a, r1) \<and> radix_get r1 0x123 = Some 0x4000"
proof -
  have "radix_map (init_radix_w_deleter new_radix) 0x123 = NULL" "RADIX_LEVELS \<le> 16"
    by (simp_all add: init_radix_inv RADIX_LEVELS_def)
  then show ?thesis
    using radix_correct [OF init_radix_inv(1), THEN conjunct2, THEN conjunct2, THEN conjunct2, rule_format, of "0x123" 16 "0x4000"]
    by blast
qed

lemma distinct_singleton_list: "distinct xs \<Longrightarrow> set xs = {x} \<Longrightarrow> xs = [x]"
  by (metis distinct_length_2_or_more distinct_singleton empty_set insert_not_empty list.exhaust list.set_intros singletonD)

lemma demo_tree:
  "\<exists>a r. radix_add 16 (init_radix_w_deleter new_radix) 0x123 0x4000 = Some (0, a, r) \<and> radix_inv r \<and> radix_root r \<noteq> None \<and>
     radix_deleter r \<and> radix_map r = (\<lambda>_. NULL)(0x123 := 0x4000)"
proof -
  let ?r = "init_radix_w_deleter new_radix"
  have "radix_map ?r 0x123 = NULL \<or> (0x4000 :: addr) = NULL" by (simp add: init_radix_inv)
  from radix_add_map [OF init_radix_inv(1) this, of 16] obtain a r where
    r: "radix_add 16 ?r 0x123 0x4000 = Some (0, a, r)" "radix_inv r" "radix_map r = (\<lambda>_. NULL)(0x123 := 0x4000)"
    by (auto simp: init_radix_inv RADIX_LEVELS_def)
  moreover have "radix_deleter r \<and> radix_root r \<noteq> None" using r(1)
    by (auto simp: radix_add_def init_radix_w_deleter_def init_radix_def Let_def split: if_splits option.splits elim!: bind_SomeE)
  ultimately show ?thesis by blast
qed

theorem radix_free_correct_witness:
  "\<exists>a r. radix_add 16 (init_radix_w_deleter new_radix) 0x123 0x4000 = Some (0, a, r) \<and> radix_free r = Some (0, [0x4000], None)"
proof -
  obtain a r where r: "radix_add 16 (init_radix_w_deleter new_radix) 0x123 0x4000 = Some (0, a, r)" "radix_inv r" "radix_root r \<noteq> None"
    "radix_deleter r" "radix_map r = (\<lambda>_. NULL)(0x123 := 0x4000)" using demo_tree by blast
  from radix_free_correct [OF r(2,3)] obtain vs keys where f: "radix_free r = Some (0, vs, None)" "distinct keys"
    "set keys = {key. radix_map r key \<noteq> NULL}" "vs = map (radix_map r) keys" using r(4) by auto
  have "{key. radix_map r key \<noteq> NULL} = {0x123}" by (auto simp: r(5))
  then have "keys = [0x123]" using f(2,3) by (intro distinct_singleton_list) simp_all
  then show ?thesis using f(1,4) r(1,5) by simp
qed

end
