(* ===== verification/Slot_Table.thy ===== *)
theory Slot_Table
  imports Bitops
begin

text \<open>
  The slot table of a capability group (\<open>struct slot_table\<close> of \<open>kernel/include/object/cap_group.h\<close>, its
  operations in \<open>object/cap_group.c\<close>): an array of slot pointers with a bit map of the slots in use and a
  second-level bit map of the words that are full. Slot pointers are numbers.

  Whether an allocation of a given size succeeds is the argument \<open>alloc_ok\<close>.
\<close>

section \<open>Operations\<close>

definition BASE_OBJECT_NUM :: nat where "BASE_OBJECT_NUM = BITS_PER_LONG"

record slot_table =
  slots_size :: nat
  slots :: "nat option list"
  full_slots_bmp :: "u64 list"
  slots_bmp :: "u64 list"

definition is_valid_slot_id :: "slot_table \<Rightarrow> int \<Rightarrow> bool option" where
  "is_valid_slot_id t slot_id =
     (if slot_id < 0 \<or> int (slots_size t) \<le> slot_id then Some False
      else do { b \<leftarrow> get_bit_bmp (nat slot_id) (slots_bmp t);
                if \<not> b then Some False
                else do { BUG_ON (slots t ! nat slot_id = None); Some True } })"

text \<open>The size is rounded up in \<open>unsigned int\<close> arithmetic.\<close>

definition slot_table_init :: "(nat \<Rightarrow> bool) \<Rightarrow> nat \<Rightarrow> int \<times> slot_table option" where
  "slot_table_init alloc_ok sz =
     (let n = ((sz + BASE_OBJECT_NUM - 1) mod 2 ^ 32) div BASE_OBJECT_NUM * BASE_OBJECT_NUM
      in if \<not> alloc_ok (n * 8) then (- ENOMEM, None)
         else if \<not> alloc_ok (BITS_TO_LONGS n * 8) then (- ENOMEM, None)
         else if \<not> alloc_ok (BITS_TO_LONGS (BITS_TO_LONGS n) * 8) then (- ENOMEM, None)
         else (0, Some \<lparr>slots_size = n, slots = replicate n None,
                        full_slots_bmp = replicate (BITS_TO_LONGS (BITS_TO_LONGS n)) 0,
                        slots_bmp = replicate (BITS_TO_LONGS n) 0\<rparr>))"

text \<open>\<open>memcpy\<close> of the first \<open>n\<close> elements; a source or target that is too short is undefined.\<close>

definition copy_prefix :: "nat \<Rightarrow> 'a list \<Rightarrow> 'a list \<Rightarrow> 'a list option" where
  "copy_prefix n src dst = (if n \<le> length src \<and> n \<le> length dst then Some (take n src @ drop n dst) else None)"

definition expand_slot_table :: "(nat \<Rightarrow> bool) \<Rightarrow> slot_table \<Rightarrow> (int \<times> slot_table) option" where
  "expand_slot_table alloc_ok t =
     (let old_size = slots_size t; new_size = (old_size + BASE_OBJECT_NUM) mod 2 ^ 32
      in case slot_table_init alloc_ok new_size of
           (r, None) \<Rightarrow> Some (r, t)
         | (_, Some new_t) \<Rightarrow>
             do { s \<leftarrow> copy_prefix old_size (slots t) (slots new_t);
                  b \<leftarrow> copy_prefix (BITS_TO_LONGS old_size) (slots_bmp t) (slots_bmp new_t);
                  f \<leftarrow> copy_prefix (BITS_TO_LONGS (BITS_TO_LONGS old_size)) (full_slots_bmp t) (full_slots_bmp new_t);
                  Some (0, \<lparr>slots_size = new_size, slots = s, full_slots_bmp = f, slots_bmp = b\<rparr>) })"

text \<open>
  The search and expand loop; it goes round at most once more after an expansion. \<open>Inr e\<close> is
  the \<open>break\<close> with \<open>empty_idx\<close> equal to \<open>e\<close>, \<open>Inl r\<close> the jump to
  \<open>out_fail\<close>. The start of the second search is computed as an \<open>unsigned long\<close>.
\<close>

fun alloc_slot_loop :: "nat \<Rightarrow> (nat \<Rightarrow> bool) \<Rightarrow> slot_table \<Rightarrow> ((int + int) \<times> slot_table) option" where
  "alloc_slot_loop 0 alloc_ok t = None"
| "alloc_slot_loop (Suc fuel) alloc_ok t =
     do { let bmp_size = slots_size t;
          let full_bmp_size = BITS_TO_LONGS bmp_size;
          word_idx \<leftarrow> find_next_zero_bit (full_slots_bmp t) full_bmp_size 0;
          empty_idx \<leftarrow> (if int full_bmp_size \<le> word_idx then Some (int bmp_size)
                       else find_next_zero_bit (slots_bmp t) bmp_size
                              (nat (word_idx * int BITS_PER_LONG mod 2 ^ 64)));
          if int full_bmp_size \<le> word_idx \<or> int bmp_size \<le> empty_idx
          then do { (r, t1) \<leftarrow> expand_slot_table alloc_ok t;
                    if r < 0 then Some (Inl r, t1) else alloc_slot_loop fuel alloc_ok t1 }
          else Some (Inr empty_idx, t) }"

definition alloc_slot_id :: "(nat \<Rightarrow> bool) \<Rightarrow> slot_table \<Rightarrow> (int \<times> slot_table) option" where
  "alloc_slot_id alloc_ok t =
     do { (res, t1) \<leftarrow> alloc_slot_loop 2 alloc_ok t;
          case res of
            Inl r \<Rightarrow> Some (r, t1)
          | Inr empty_idx \<Rightarrow> do {
              BUG_ON (empty_idx < 0 \<or> int (slots_size t1) \<le> empty_idx);
              b \<leftarrow> set_bit_bmp (nat empty_idx) (slots_bmp t1);
              f \<leftarrow> (if b ! (nat empty_idx div BITS_PER_LONG) = NOT 0
                   then set_bit_bmp (nat empty_idx div BITS_PER_LONG) (full_slots_bmp t1)
                   else Some (full_slots_bmp t1));
              Some (empty_idx, t1\<lparr>slots_bmp := b, full_slots_bmp := f\<rparr>) } }"

definition free_slot_id :: "slot_table \<Rightarrow> int \<Rightarrow> slot_table option" where
  "free_slot_id t slot_id =
     do { b \<leftarrow> clear_bit_bmp (nat slot_id) (slots_bmp t);
          f \<leftarrow> clear_bit_bmp (nat slot_id div BITS_PER_LONG) (full_slots_bmp t);
          _ \<leftarrow> (if 0 \<le> slot_id \<and> nat slot_id < length (slots t) then Some () else None);
          Some (t\<lparr>slots_bmp := b, full_slots_bmp := f, slots := (slots t)[nat slot_id := None]\<rparr>) }"

definition get_slot :: "slot_table \<Rightarrow> int \<Rightarrow> nat option" where
  "get_slot t slot_id = (if slot_id < 0 \<or> int (slots_size t) \<le> slot_id then None else slots t ! nat slot_id)"

definition install_slot :: "slot_table \<Rightarrow> int \<Rightarrow> nat \<Rightarrow> slot_table option" where
  "install_slot t slot_id slot =
     do { b \<leftarrow> get_bit_bmp (nat slot_id) (slots_bmp t);
          BUG_ON (\<not> b);
          _ \<leftarrow> (if 0 \<le> slot_id \<and> nat slot_id < length (slots t) then Some () else None);
          Some (t\<lparr>slots := (slots t)[nat slot_id := Some slot]\<rparr>) }"

section \<open>The table as a map\<close>

text \<open>
  \<open>M\<close> maps the slot numbers in use to their slots, \<open>A\<close> is the set of numbers handed out by
  \<open>alloc_slot_id\<close> whose slot is not installed yet. A full word has all its bits set.
\<close>

definition table_inv :: "slot_table \<Rightarrow> (nat \<rightharpoonup> nat) \<Rightarrow> nat set \<Rightarrow> bool" where
  "table_inv t M A \<longleftrightarrow>
     length (slots t) = slots_size t \<and> 64 dvd slots_size t \<and> 0 < slots_size t \<and> slots_size t < 2 ^ 31 \<and>
     length (slots_bmp t) = slots_size t div 64 \<and>
     length (full_slots_bmp t) = BITS_TO_LONGS (slots_size t div 64) \<and>
     (\<forall>i. M i = (if i < slots_size t then slots t ! i else None)) \<and>
     A \<subseteq> {..<slots_size t} \<and> dom M \<inter> A = {} \<and>
     (\<forall>i < slots_size t. bmp_bit (slots_bmp t) i \<longleftrightarrow> i \<in> dom M \<union> A) \<and>
     (\<forall>w < 64 * length (full_slots_bmp t). bmp_bit (full_slots_bmp t) w \<longrightarrow> (\<forall>i. i div 64 = w \<longrightarrow> i \<in> dom M \<union> A))"

lemma table_invD:
  assumes "table_inv t M A"
  shows "length (slots t) = slots_size t" "64 dvd slots_size t" "0 < slots_size t" "slots_size t < 2 ^ 31"
    "length (slots_bmp t) = slots_size t div 64" "length (full_slots_bmp t) = BITS_TO_LONGS (slots_size t div 64)"
    "M i = (if i < slots_size t then slots t ! i else None)" "A \<subseteq> {..<slots_size t}" "dom M \<inter> A = {}"
    "i < slots_size t \<Longrightarrow> bmp_bit (slots_bmp t) i \<longleftrightarrow> i \<in> dom M \<union> A"
    "i < 64 * length (full_slots_bmp t) \<Longrightarrow> bmp_bit (full_slots_bmp t) i \<Longrightarrow> j div 64 = i \<Longrightarrow> j \<in> dom M \<union> A"
  using assms unfolding table_inv_def by blast+

lemma BITS_TO_LONGS_64: "64 dvd n \<Longrightarrow> BITS_TO_LONGS n = n div 64"
  by (auto simp: BITS_TO_LONGS_def DIV_ROUND_UP_def BITS_PER_LONG_def)

lemma BITS_TO_LONGS_bound: "n \<le> 64 * BITS_TO_LONGS n"
  unfolding BITS_TO_LONGS_def DIV_ROUND_UP_def BITS_PER_LONG_def by presburger

lemma BITS_TO_LONGS_mono: "n \<le> m \<Longrightarrow> BITS_TO_LONGS n \<le> BITS_TO_LONGS m"
  unfolding BITS_TO_LONGS_def DIV_ROUND_UP_def BITS_PER_LONG_def by (simp add: div_le_mono)

lemma table_inv_bits:
  assumes inv: "table_inv t M A"
  shows "slots_size t = 64 * length (slots_bmp t)" "slots_size t div 64 \<le> 64 * length (full_slots_bmp t)"
    "BITS_TO_LONGS (slots_size t) = slots_size t div 64"
  using table_invD(2,5,6) [OF inv] BITS_TO_LONGS_bound [of "slots_size t div 64"] BITS_TO_LONGS_64 by auto

text \<open>The two-level search finds the first free number.\<close>

lemma search_free:
  assumes inv: "table_inv t M A"
  shows "\<exists>w. find_next_zero_bit (full_slots_bmp t) (slots_size t div 64) 0 = Some (int w) \<and>
    (if w < slots_size t div 64
     then \<exists>e. find_next_zero_bit (slots_bmp t) (slots_size t) (w * 64) = Some (int e) \<and>
       (\<forall>i < e. i \<in> dom M \<union> A) \<and> (e < slots_size t \<longrightarrow> e \<notin> dom M \<union> A) \<and> e \<le> slots_size t
     else \<forall>i < slots_size t. i \<in> dom M \<union> A)"
proof -
  note D = table_invD [OF inv] and B = table_inv_bits [OF inv]
  let ?n = "slots_size t"
  have pos: "0 < ?n div 64" using D(2,3) by (auto elim!: dvdE)
  have "?n div 64 < 2 ^ 31" using D(4) by simp
  then obtain w where w: "find_next_zero_bit (full_slots_bmp t) (?n div 64) 0 = Some (int w)" "found_first (full_slots_bmp t) (?n div 64) 0 True w"
    using find_next_bit_helper_spec [OF pos _ B(2), of 0 True] by (auto simp: find_next_zero_bit_def)
  have "w \<le> ?n div 64" using w(2) by (auto simp: found_first_def)
  have below: "i \<in> dom M \<union> A" if "i < w * 64" "i < ?n" for i
  proof -
    have "i div 64 < w" "i div 64 < ?n div 64" using that D(2) by (auto simp: div_less_iff_less_mult div_le_mono less_mult_imp_div_less mult.commute)
    then have "bmp_bit (full_slots_bmp t) (i div 64)" using w(2) by (auto simp: found_first_def)
    then show ?thesis using D(11) [of "i div 64" i] \<open>i div 64 < ?n div 64\<close> B(2) by simp
  qed
  show ?thesis
  proof (cases "w < ?n div 64")
    case True
    have "?n < 2 ^ 31" "?n \<le> 64 * length (slots_bmp t)" using D(4) B(1) by simp_all
    then obtain e where e: "find_next_zero_bit (slots_bmp t) ?n (w * 64) = Some (int e)" "found_first (slots_bmp t) ?n (w * 64) True e"
      using find_next_bit_helper_spec [OF D(3), of "slots_bmp t" "w * 64" True] by (auto simp: find_next_zero_bit_def)
    have le: "e \<le> ?n" using e(2) by (auto simp: found_first_def)
    have "i \<in> dom M \<union> A" if "i < e" for i
    proof (cases "i < w * 64")
      case True
      then show ?thesis using below that le by simp
    next
      case False
      then show ?thesis using e(2) that le D(10) [of i] by (auto simp: found_first_def)
    qed
    moreover have "e \<notin> dom M \<union> A" if "e < ?n" using e(2) that D(10) [of e] by (auto simp: found_first_def)
    ultimately show ?thesis using w(1) e(1) True le by auto
  next
    case False
    then have "?n \<le> w * 64" using D(2) by auto
    then show ?thesis using w(1) False below by auto
  qed
qed

section \<open>Operations on the map\<close>

text \<open>No allocation of four gigabytes or more succeeds.\<close>

definition small_memory :: "(nat \<Rightarrow> bool) \<Rightarrow> bool" where
  "small_memory alloc_ok \<longleftrightarrow> (\<forall>n. alloc_ok n \<longrightarrow> n < 2 ^ 32)"

lemma bmp_bit_prefix:
  "n \<le> length p \<Longrightarrow> i < 64 * (n + m) \<Longrightarrow> bmp_bit (take n p @ replicate m 0) i \<longleftrightarrow> i < 64 * n \<and> bmp_bit p i"
  by (auto simp: bmp_bit_def nth_append less_mult_imp_div_less mult.commute)

lemma slot_table_init_ok:
  assumes "small_memory alloc_ok" "64 dvd n" "0 < n" "n < 2 ^ 32 - 63"
  shows "(\<exists>t. slot_table_init alloc_ok n = (0, Some t) \<and> slots_size t = n \<and> n < 2 ^ 29 \<and> slots t = replicate n None \<and>
      slots_bmp t = replicate (n div 64) 0 \<and> full_slots_bmp t = replicate (BITS_TO_LONGS (n div 64)) 0) \<or>
    slot_table_init alloc_ok n = (- ENOMEM, None)"
proof -
  have "((n + 64 - 1) mod 2 ^ 32) div 64 * 64 = n" using assms(2-4) by (auto elim!: dvdE)
  then show ?thesis using assms(1) BITS_TO_LONGS_64 [OF assms(2)]
    by (auto simp: slot_table_init_def Let_def small_memory_def BASE_OBJECT_NUM_def BITS_PER_LONG_def)
qed

lemma empty_table_inv:
  assumes "small_memory alloc_ok" "slot_table_init alloc_ok BASE_OBJECT_NUM = (r, Some t)"
  shows "table_inv t (\<lambda>_. None) {}"
  using slot_table_init_ok [OF assms(1), of 64] assms(2)
  by (auto simp: table_inv_def bmp_bit_def BASE_OBJECT_NUM_def BITS_PER_LONG_def BITS_TO_LONGS_def DIV_ROUND_UP_def)

lemma expand_slot_table_ok:
  assumes inv: "table_inv t M A" and mem: "small_memory alloc_ok"
  shows "expand_slot_table alloc_ok t = Some (- ENOMEM, t) \<or>
    (\<exists>t'. expand_slot_table alloc_ok t = Some (0, t') \<and> table_inv t' M A \<and> slots_size t' = slots_size t + 64)"
proof -
  note D = table_invD [OF inv] and B = table_inv_bits [OF inv]
  let ?n = "slots_size t"
  have n: "64 dvd ?n + 64" "?n + 64 < 2 ^ 32 - 63" "0 < ?n + 64" using D(2,4) by simp_all
  from slot_table_init_ok [OF mem n(1,3,2)]
  consider (fail) "slot_table_init alloc_ok (?n + 64) = (- ENOMEM, None)"
    | (ok) nt where "slot_table_init alloc_ok (?n + 64) = (0, Some nt)" "?n + 64 < 2 ^ 29" "slots nt = replicate (?n + 64) None"
      "slots_bmp nt = replicate ((?n + 64) div 64) 0" "full_slots_bmp nt = replicate (BITS_TO_LONGS ((?n + 64) div 64)) 0" by blast
  then show ?thesis
  proof cases
    case fail
    then show ?thesis using n(2) by (simp add: expand_slot_table_def Let_def BASE_OBJECT_NUM_def BITS_PER_LONG_def)
  next
    case ok
    let ?b = "take (?n div 64) (slots_bmp t) @ replicate 1 0"
    let ?f = "take (BITS_TO_LONGS (?n div 64)) (full_slots_bmp t) @
      replicate (BITS_TO_LONGS ((?n + 64) div 64) - BITS_TO_LONGS (?n div 64)) 0"
    let ?t = "\<lparr>slots_size = ?n + 64, slots = slots t @ replicate 64 None, full_slots_bmp = ?f, slots_bmp = ?b\<rparr>"
    have le: "BITS_TO_LONGS (?n div 64) \<le> BITS_TO_LONGS ((?n + 64) div 64)" by (rule BITS_TO_LONGS_mono) simp
    have d: "(?n + 64) div 64 = Suc (?n div 64)" by simp
    have "expand_slot_table alloc_ok t = Some (0, ?t)"
      using ok D(1,5,6) B(3) n(2) le d
      by (simp add: expand_slot_table_def Let_def BASE_OBJECT_NUM_def BITS_PER_LONG_def copy_prefix_def
        del: replicate_Suc)
    moreover have "table_inv ?t M A"
    proof -
      have dom: "dom M \<union> A \<subseteq> {..<?n}" using D(7,8) by (auto split: if_splits)
      have bits: "bmp_bit ?b i \<longleftrightarrow> i \<in> dom M \<union> A" if "i < ?n + 64" for i
      proof -
        have e: "64 * (?n div 64) = ?n" using D(2) by simp
        have "bmp_bit ?b i \<longleftrightarrow> i < 64 * (?n div 64) \<and> bmp_bit (slots_bmp t) i"
          by (rule bmp_bit_prefix) (use that e D(5) in \<open>simp_all add: distrib_left\<close>)
        then have "bmp_bit ?b i \<longleftrightarrow> i < ?n \<and> bmp_bit (slots_bmp t) i" unfolding e .
        then show ?thesis using D(10) [of i] dom by auto
      qed
      have full: "j \<in> dom M \<union> A" if w: "w < 64 * length ?f" "bmp_bit ?f w" "j div 64 = w" for w j
      proof -
        have "w < 64 * length (full_slots_bmp t) \<and> bmp_bit (full_slots_bmp t) w"
          using bmp_bit_prefix [of "BITS_TO_LONGS (?n div 64)" "full_slots_bmp t" w
            "BITS_TO_LONGS ((?n + 64) div 64) - BITS_TO_LONGS (?n div 64)"] w(1,2) D(6) by simp
        then show ?thesis using D(11) w(3) by blast
      qed
      have M: "M i = (if i < ?n + 64 then (slots t @ replicate 64 None) ! i else None)" for i
        using D(1) D(7) [of i] by (auto simp: nth_append)
      have len: "length ?b = (?n + 64) div 64" "length ?f = BITS_TO_LONGS ((?n + 64) div 64)"
        using D(5,6) le d by simp_all
      show ?thesis
        unfolding table_inv_def slot_table.simps
        using D(1,2,8,9) ok(2) len bits full M by (intro conjI allI impI) auto
    qed
    ultimately show ?thesis by auto
  qed
qed

lemma alloc_slot_loop_step:
  assumes inv: "table_inv t M A"
  shows "(\<exists>e. alloc_slot_loop (Suc fuel) alloc_ok t = Some (Inr (int e), t) \<and> e < slots_size t \<and> e \<notin> dom M \<union> A \<and>
      (\<forall>i < e. i \<in> dom M \<union> A)) \<or>
    alloc_slot_loop (Suc fuel) alloc_ok t = do { (r, t1) \<leftarrow> expand_slot_table alloc_ok t;
      if r < 0 then Some (Inl r, t1) else alloc_slot_loop fuel alloc_ok t1 } \<and> (\<forall>i < slots_size t. i \<in> dom M \<union> A)"
proof -
  from search_free [OF inv] obtain w where w: "find_next_zero_bit (full_slots_bmp t) (slots_size t div 64) 0 = Some (int w)"
    and e: "if w < slots_size t div 64
     then \<exists>e. find_next_zero_bit (slots_bmp t) (slots_size t) (w * 64) = Some (int e) \<and>
       (\<forall>i < e. i \<in> dom M \<union> A) \<and> (e < slots_size t \<longrightarrow> e \<notin> dom M \<union> A) \<and> e \<le> slots_size t
     else \<forall>i < slots_size t. i \<in> dom M \<union> A" by blast
  show ?thesis
  proof (cases "w < slots_size t div 64")
    case True
    then obtain e where e: "find_next_zero_bit (slots_bmp t) (slots_size t) (w * 64) = Some (int e)"
      "\<forall>i < e. i \<in> dom M \<union> A" "e < slots_size t \<longrightarrow> e \<notin> dom M \<union> A" "e \<le> slots_size t" using e by auto
    have "w * 64 < 2 ^ 64" using True table_invD(4) [OF inv] by simp
    then have start: "nat (int w * 64 mod 2 ^ 64) = w * 64" by (simp add: nat_mult_distrib)
    show ?thesis
    proof (cases "e < slots_size t")
      case True
      then show ?thesis using w e \<open>w < slots_size t div 64\<close>
        by (simp add: table_inv_bits(3) [OF inv] Let_def BITS_PER_LONG_def start [simplified])
    next
      case False
      then have "e = slots_size t" using e(4) by simp
      then show ?thesis using w e \<open>w < slots_size t div 64\<close>
        by (simp add: table_inv_bits(3) [OF inv] Let_def BITS_PER_LONG_def start [simplified])
    qed
  next
    case False
    then show ?thesis using w e by (simp add: table_inv_bits(3) [OF inv] Let_def)
  qed
qed

lemma alloc_slot_loop_ok:
  assumes inv: "table_inv t M A" and mem: "small_memory alloc_ok"
  shows "alloc_slot_loop 2 alloc_ok t = Some (Inl (- ENOMEM), t) \<and> (\<forall>i < slots_size t. i \<in> dom M \<union> A) \<or>
    (\<exists>e t'. alloc_slot_loop 2 alloc_ok t = Some (Inr (int e), t') \<and> table_inv t' M A \<and> e < slots_size t' \<and>
      e \<notin> dom M \<union> A \<and> (\<forall>i < e. i \<in> dom M \<union> A))"
proof -
  have two: "alloc_slot_loop 2 = alloc_slot_loop (Suc 1)" by (simp add: numeral_2_eq_2)
  from alloc_slot_loop_step [OF inv, of 1 alloc_ok]
  consider (found) e where "alloc_slot_loop 2 alloc_ok t = Some (Inr (int e), t)" "e < slots_size t" "e \<notin> dom M \<union> A" "\<forall>i < e. i \<in> dom M \<union> A"
    | (none) "alloc_slot_loop 2 alloc_ok t = do { (r, t1) \<leftarrow> expand_slot_table alloc_ok t;
        if r < 0 then Some (Inl r, t1) else alloc_slot_loop 1 alloc_ok t1 }" "\<forall>i < slots_size t. i \<in> dom M \<union> A"
    unfolding two by blast
  then show ?thesis
  proof cases
    case found
    then show ?thesis using inv by blast
  next
    case none
    show ?thesis
    proof (cases "expand_slot_table alloc_ok t = Some (- ENOMEM, t)")
      case True
      then show ?thesis using none by (simp add: ENOMEM_def)
    next
      case False
      then obtain t' where t': "expand_slot_table alloc_ok t = Some (0, t')" "table_inv t' M A" "slots_size t' = slots_size t + 64"
        using expand_slot_table_ok [OF inv mem] by blast
      have "slots_size t \<notin> dom M \<union> A" using table_invD(7,8) [OF inv] by (auto split: if_splits)
      moreover have "slots_size t < slots_size t'" using t'(3) by simp
      ultimately have "\<not> (\<forall>i < slots_size t'. i \<in> dom M \<union> A)" by blast
      then obtain e where "alloc_slot_loop (Suc 0) alloc_ok t' = Some (Inr (int e), t')" "e < slots_size t'" "e \<notin> dom M \<union> A"
        "\<forall>i < e. i \<in> dom M \<union> A" using alloc_slot_loop_step [OF t'(2), of 0 alloc_ok] by blast
      then show ?thesis using none(1) t'(1,2) by auto
    qed
  qed
qed

lemma word_full:
  assumes "p ! w = NOT 0" "w < length p" "i div 64 = w"
  shows "bmp_bit p i"
  using assms by (simp add: bmp_bit_def bit_not_iff)

lemma alloc_slot_id_ok:
  assumes inv: "table_inv t M A" and mem: "small_memory alloc_ok"
  shows "alloc_slot_id alloc_ok t = Some (- ENOMEM, t) \<and> (\<forall>i < slots_size t. i \<in> dom M \<union> A) \<or>
    (\<exists>e t'. alloc_slot_id alloc_ok t = Some (int e, t') \<and> table_inv t' M (insert e A) \<and> e \<notin> dom M \<union> A \<and>
      (\<forall>i < e. i \<in> dom M \<union> A))"
proof -
  from alloc_slot_loop_ok [OF inv mem]
  consider (fail) "alloc_slot_loop 2 alloc_ok t = Some (Inl (- ENOMEM), t)" "\<forall>i < slots_size t. i \<in> dom M \<union> A"
    | (ok) e t1 where "alloc_slot_loop 2 alloc_ok t = Some (Inr (int e), t1)" "table_inv t1 M A" "e < slots_size t1"
      "e \<notin> dom M \<union> A" "\<forall>i < e. i \<in> dom M \<union> A" by blast
  then show ?thesis
  proof cases
    case fail
    then show ?thesis by (simp add: alloc_slot_id_def ENOMEM_def)
  next
    case ok
    note D = table_invD [OF ok(2)] and B = table_inv_bits [OF ok(2)]
    let ?n = "slots_size t1"
    have len: "64 * length (slots_bmp t1) = ?n" using D(2) by (simp add: D(5))
    have e: "e < 64 * length (slots_bmp t1)" using ok(3) unfolding len .
    obtain b where b: "set_bit_bmp e (slots_bmp t1) = Some b" "length b = length (slots_bmp t1)"
      "\<And>i. i < ?n \<Longrightarrow> bmp_bit b i = (i = e \<or> bmp_bit (slots_bmp t1) i)"
      by (rule set_bit_bmp_Some [OF e, unfolded len]) blast
    have w: "e div 64 < ?n div 64" using ok(3) D(2) by (auto elim!: dvdE simp: less_mult_imp_div_less mult.commute)
    then have w': "e div 64 < 64 * length (full_slots_bmp t1)" using B(2) by simp
    obtain g where g: "set_bit_bmp (e div 64) (full_slots_bmp t1) = Some g" "length g = length (full_slots_bmp t1)"
      "\<And>k. k < 64 * length (full_slots_bmp t1) \<Longrightarrow> bmp_bit g k = (k = e div 64 \<or> bmp_bit (full_slots_bmp t1) k)"
      by (rule set_bit_bmp_Some [OF w']) blast
    define f where "f = (if b ! (e div 64) = NOT 0 then g else full_slots_bmp t1)"
    have bits: "bmp_bit b i \<longleftrightarrow> i \<in> dom M \<union> insert e A" if "i < ?n" for i using b(3) [OF that] D(10) [OF that] by auto
    have f: "(if b ! (e div 64) = NOT 0 then set_bit_bmp (e div 64) (full_slots_bmp t1) else Some (full_slots_bmp t1)) = Some f"
      "length f = length (full_slots_bmp t1)"
      "\<And>k. k < 64 * length (full_slots_bmp t1) \<Longrightarrow> bmp_bit f k \<Longrightarrow> bmp_bit (full_slots_bmp t1) k \<or> k = e div 64 \<and> b ! (e div 64) = NOT 0"
      using g unfolding f_def by (auto split: if_splits)
    have full: "j \<in> dom M \<union> insert e A" if "k < 64 * length f" "bmp_bit f k" "j div 64 = k" for j k
    proof -
      from f(3) [of k] that f(2) consider "bmp_bit (full_slots_bmp t1) k" | "k = e div 64" "b ! (e div 64) = NOT 0" by auto
      then show ?thesis
      proof cases
        case 1
        then show ?thesis using D(11) [of k j] that f(2) by simp
      next
        case 2
        have "j div 64 < ?n div 64" using w 2 that(3) by simp
        then have "j < ?n" using D(2) by (meson div_le_mono not_less)
        moreover have "bmp_bit b j" using 2 that(3) w by (intro word_full [of b "e div 64"]) (simp_all add: b(2) D(5))
        ultimately show ?thesis using bits by blast
      qed
    qed
    have "alloc_slot_id alloc_ok t = Some (int e, t1\<lparr>slots_bmp := b, full_slots_bmp := f\<rparr>)"
      using ok(1,3) b(1) g(1) by (cases "b ! (e div 64) = NOT 0") (simp_all add: alloc_slot_id_def BITS_PER_LONG_def f_def)
    moreover have "table_inv (t1\<lparr>slots_bmp := b, full_slots_bmp := f\<rparr>) M (insert e A)"
      unfolding table_inv_def slot_table.simps
      using D(1-9) ok(3,4) b(2) f(2) bits full by (intro conjI allI impI) auto
    ultimately show ?thesis using ok(4,5) by blast
  qed
qed

lemma install_slot_ok:
  assumes inv: "table_inv t M A" and e: "e \<in> A"
  shows "\<exists>t'. install_slot t (int e) sl = Some t' \<and> table_inv t' (M(e \<mapsto> sl)) (A - {e})"
proof -
  note D = table_invD [OF inv]
  have len: "64 * length (slots_bmp t) = slots_size t" using D(2) by (simp add: D(5))
  have lt: "e < slots_size t" using D(8) e by auto
  then have "get_bit_bmp e (slots_bmp t) = Some True" using D(10) [OF lt] e len by simp
  then have "install_slot t (int e) sl = Some (t\<lparr>slots := (slots t)[e := Some sl]\<rparr>)"
    using lt D(1) by (simp add: install_slot_def)
  moreover have "dom (M(e \<mapsto> sl)) \<union> (A - {e}) = dom M \<union> A" using e by auto
  then have "table_inv (t\<lparr>slots := (slots t)[e := Some sl]\<rparr>) (M(e \<mapsto> sl)) (A - {e})"
    using inv lt unfolding table_inv_def slot_table.simps by (auto simp: nth_list_update)
  ultimately show ?thesis by blast
qed

lemma free_slot_id_ok:
  assumes inv: "table_inv t M A" and e: "e \<in> dom M \<union> A"
  shows "\<exists>t'. free_slot_id t (int e) = Some t' \<and> table_inv t' (M(e := None)) (A - {e})"
proof -
  note D = table_invD [OF inv] and B = table_inv_bits [OF inv]
  have len: "64 * length (slots_bmp t) = slots_size t" using D(2) by (simp add: D(5))
  have lt: "e < slots_size t" using D(7) [of e] D(8) e by (auto split: if_splits)
  then have e1: "e < 64 * length (slots_bmp t)" unfolding len .
  have "e div 64 < slots_size t div 64" using lt D(2) by (auto elim!: dvdE simp: less_mult_imp_div_less mult.commute)
  then have w: "e div 64 < 64 * length (full_slots_bmp t)" using B(2) by simp
  obtain b where b: "clear_bit_bmp e (slots_bmp t) = Some b" "length b = length (slots_bmp t)"
    "\<And>i. i < slots_size t \<Longrightarrow> bmp_bit b i = (i \<noteq> e \<and> bmp_bit (slots_bmp t) i)"
    by (rule clear_bit_bmp_Some [OF e1, unfolded len]) blast
  obtain f where f: "clear_bit_bmp (e div 64) (full_slots_bmp t) = Some f" "length f = length (full_slots_bmp t)"
    "\<And>i. i < 64 * length (full_slots_bmp t) \<Longrightarrow> bmp_bit f i = (i \<noteq> e div 64 \<and> bmp_bit (full_slots_bmp t) i)"
    by (rule clear_bit_bmp_Some [OF w]) blast
  let ?t = "t\<lparr>slots_bmp := b, full_slots_bmp := f, slots := (slots t)[e := None]\<rparr>"
  have "free_slot_id t (int e) = Some ?t" using b(1) f(1) lt D(1) by (simp add: free_slot_id_def BITS_PER_LONG_def)
  moreover have u: "dom (M(e := None)) \<union> (A - {e}) = dom M \<union> A - {e}" by auto
  have "bmp_bit b i \<longleftrightarrow> i \<in> dom M \<union> A - {e}" if "i < slots_size t" for i using b(3) [OF that] D(10) [OF that] by auto
  moreover have "j \<in> dom M \<union> A - {e}" if "k < 64 * length f" "bmp_bit f k" "j div 64 = k" for j k
    using f(3) [of k] D(11) [of k j] that f(2) by auto
  moreover have "(M(e := None)) i = (if i < slots_size t then (slots t)[e := None] ! i else None)" for i
    using D(7) [of i] D(1) by (auto simp: nth_list_update)
  ultimately have "table_inv ?t (M(e := None)) (A - {e})"
    unfolding table_inv_def slot_table.simps u
    using D(1-6,8,9) b(2) f(2) by (intro conjI allI impI) auto
  then show ?thesis using \<open>free_slot_id t (int e) = Some ?t\<close> by blast
qed

lemma get_slot_ok: "table_inv t M A \<Longrightarrow> get_slot t i = (if i < 0 then None else M (nat i))"
  using table_invD(7) [of t M A "nat i"] by (auto simp: get_slot_def)

lemma is_valid_slot_id_ok:
  assumes inv: "table_inv t M {}"
  shows "is_valid_slot_id t i = Some (0 \<le> i \<and> M (nat i) \<noteq> None)"
proof -
  note D = table_invD [OF inv]
  have len: "64 * length (slots_bmp t) = slots_size t" using D(2) by (simp add: D(5))
  show ?thesis
  proof (cases "0 \<le> i \<and> i < int (slots_size t)")
    case True
    then have lt: "nat i < slots_size t" by auto
    then have "get_bit_bmp (nat i) (slots_bmp t) = Some (M (nat i) \<noteq> None)"
      using len D(10) [OF lt] by (auto simp: domIff)
    then show ?thesis using True lt D(7) [of "nat i"] by (auto simp: is_valid_slot_id_def)
  next
    case False
    then show ?thesis using D(7) [of "nat i"] by (auto simp: is_valid_slot_id_def)
  qed
qed

section \<open>Properties\<close>

text \<open>
  C25. The slot table refines a map from numbers to slots. Lookup and the validity test agree with the map for
  every integer; reserving a number ends after at most one expansion and returns the smallest unused
  number, or \<open>-ENOMEM\<close> with the table unchanged when all numbers are used and memory is short; installing a slot there and
  freeing a number change the map at that number only.
\<close>

theorem slot_table_refines:
  assumes inv: "table_inv t M {}" and mem: "small_memory alloc_ok"
  shows "(\<forall>i. get_slot t i = (if i < 0 then None else M (nat i)) \<and> is_valid_slot_id t i = Some (0 \<le> i \<and> M (nat i) \<noteq> None)) \<and>
    (alloc_slot_id alloc_ok t = Some (- ENOMEM, t) \<and> (\<forall>i < slots_size t. M i \<noteq> None) \<or>
     (\<exists>e t1. alloc_slot_id alloc_ok t = Some (int e, t1) \<and> M e = None \<and> (\<forall>i < e. M i \<noteq> None) \<and>
        (\<forall>s. \<exists>t2. install_slot t1 (int e) s = Some t2 \<and> table_inv t2 (M(e \<mapsto> s)) {}) \<and>
        (\<exists>t2. free_slot_id t1 (int e) = Some t2 \<and> table_inv t2 M {}))) \<and>
    (\<forall>e. M e \<noteq> None \<longrightarrow> (\<exists>t1. free_slot_id t (int e) = Some t1 \<and> table_inv t1 (M(e := None)) {}))"
proof (intro conjI allI impI)
  show "get_slot t i = (if i < 0 then None else M (nat i))" for i by (rule get_slot_ok [OF inv])
  show "is_valid_slot_id t i = Some (0 \<le> i \<and> M (nat i) \<noteq> None)" for i by (rule is_valid_slot_id_ok [OF inv])
  show "\<exists>t1. free_slot_id t (int e) = Some t1 \<and> table_inv t1 (M(e := None)) {}" if "M e \<noteq> None" for e
    using free_slot_id_ok [OF inv, of e] that by auto
  from alloc_slot_id_ok [OF inv mem]
  show "alloc_slot_id alloc_ok t = Some (- ENOMEM, t) \<and> (\<forall>i < slots_size t. M i \<noteq> None) \<or>
     (\<exists>e t1. alloc_slot_id alloc_ok t = Some (int e, t1) \<and> M e = None \<and> (\<forall>i < e. M i \<noteq> None) \<and>
        (\<forall>s. \<exists>t2. install_slot t1 (int e) s = Some t2 \<and> table_inv t2 (M(e \<mapsto> s)) {}) \<and>
        (\<exists>t2. free_slot_id t1 (int e) = Some t2 \<and> table_inv t2 M {}))"
  proof (elim disjE exE conjE)
    fix e t1 assume a: "alloc_slot_id alloc_ok t = Some (int e, t1)" "table_inv t1 M (insert e {})" "e \<notin> dom M \<union> {}"
      "\<forall>i < e. i \<in> dom M \<union> {}"
    have "\<exists>t2. install_slot t1 (int e) s = Some t2 \<and> table_inv t2 (M(e \<mapsto> s)) {}" for s
      using install_slot_ok [OF a(2), of e s] by simp
    moreover have "M(e := None) = M" using a(3) by auto
    then have "\<exists>t2. free_slot_id t1 (int e) = Some t2 \<and> table_inv t2 M {}" using free_slot_id_ok [OF a(2), of e] by simp
    moreover have "M e = None" "\<forall>i < e. M i \<noteq> None" using a(3,4) by auto
    ultimately show ?thesis using a(1) by blast
  qed auto
qed

theorem slot_table_refines_witness:
  "\<exists>t. slot_table_init (\<lambda>n. n < 2 ^ 32) 64 = (0, Some t) \<and> get_slot t 3 = None \<and>
    (\<exists>e t1. alloc_slot_id (\<lambda>n. n < 2 ^ 32) t = Some (int e, t1))"
proof -
  have mem: "small_memory (\<lambda>n. n < 2 ^ 32)" by (simp add: small_memory_def)
  obtain t where t: "slot_table_init (\<lambda>n. n < 2 ^ 32) 64 = (0, Some t)" "slots_size t = 64"
    using slot_table_init_ok [OF mem, of 64] by (auto simp: slot_table_init_def BASE_OBJECT_NUM_def BITS_PER_LONG_def BITS_TO_LONGS_def DIV_ROUND_UP_def)
  have "BASE_OBJECT_NUM = 64" by (simp add: BASE_OBJECT_NUM_def BITS_PER_LONG_def)
  then have i: "table_inv t (\<lambda>_. None) {}" using empty_table_inv [OF mem] t(1) by simp
  have "\<not> (\<forall>i < slots_size t. None \<noteq> (None :: nat option))" using t(2) by (auto intro!: exI [of _ 0])
  then show ?thesis using slot_table_refines [OF i mem] t(1) by auto
qed

end
