(* ===== verification/Capability.thy ===== *)
theory Capability
  imports Slot_Table
begin

text \<open>
  Kernel objects and capabilities (\<open>kernel/object/capability.c\<close>, \<open>object/cap_group.c\<close>,
  \<open>include/object/object.h\<close>, \<open>include/object/cap_group.h\<close>) together with the parts of the object types that
  take part in reference counting: the owner of a physical memory object (\<open>struct pmobject\<close>), the group
  and the exit state of a thread.

  Objects and slots are numbers, handed out in increasing order so that a freed one is never mistaken for
  a new one; an access to a freed object or slot is \<open>None\<close>. The payload of an object of type
  \<open>TYPE_CAP_GROUP\<close>, \<open>TYPE_PMO\<close> or \<open>TYPE_THREAD\<close> is kept in a map of its own under the number of the object.
  An operation holds the locks of the tables and lists it changes, so it is one step. Whether an allocation
  of a given size succeeds is the argument \<open>alloc_ok\<close>, and \<open>size_of\<close> gives the payload size of a type.
\<close>

section \<open>State\<close>

definition CAP_GROUP_OBJ_ID :: int where "CAP_GROUP_OBJ_ID = 0"
definition VMSPACE_OBJ_ID :: int where "VMSPACE_OBJ_ID = 1"
definition MAX_GROUP_NAME_LEN :: nat where "MAX_GROUP_NAME_LEN = 63"
definition ROOT_CAP_GROUP_BADGE :: int where "ROOT_CAP_GROUP_BADGE = 1"

datatype object_type = TYPE_CAP_GROUP | TYPE_THREAD | TYPE_CONNECTION | TYPE_NOTIFICATION | TYPE_IRQ
  | TYPE_PMO | TYPE_VMSPACE | TYPE_CHANNEL | TYPE_MSG_HDL

record object =
  obj_type :: object_type
  obj_size :: u64
  copies :: "nat list"
  refcount :: u64

record object_slot =
  slot_id :: int
  slot_group :: nat
  isvalid :: bool
  slot_object :: nat

record cap_group =
  slot_tbl :: slot_table
  thread_list :: "nat list"
  thread_cnt :: int
  badge :: int
  notify_recycler :: int
  cap_group_name :: "nat list"
  pid :: int
  uuid :: "nat list"
  heap_size_limit :: u64
  heap_size_used :: u64

text \<open>The kinds of a memory object and, of its pointers, whether they are set.\<close>

datatype pmo_kind = PMO_ANONYM | PMO_DATA | PMO_FILE | PMO_SHM | PMO_USER_PAGER | PMO_DEVICE
  | PMO_DATA_NOCACHE | PMO_TZ_NS | PMO_TZASC_CMA | PMO_FORBID

record pmobject =
  pmo_start :: u64
  pmo_size :: u64
  pmo_type :: pmo_kind
  pmo_radix :: bool
  pmo_private :: bool
  pmo_owner :: "nat option"

record thread_obj =
  th_group :: nat
  th_exited :: bool
  th_fpu_cpu :: int

record cap_state =
  objects :: "nat \<Rightarrow> object option"
  slot_mem :: "nat \<Rightarrow> object_slot option"
  groups :: "nat \<Rightarrow> cap_group option"
  pmos :: "nat \<Rightarrow> pmobject option"
  threads :: "nat \<Rightarrow> thread_obj option"
  fpu_owner :: "nat \<Rightarrow> nat option"
  next_obj :: nat
  next_slot :: nat

section \<open>Objects\<close>

definition OBJECT_BYTES :: nat where "OBJECT_BYTES = 48"
definition SLOT_BYTES :: nat where "SLOT_BYTES = 48"

definition upd_object :: "cap_state \<Rightarrow> nat \<Rightarrow> object \<Rightarrow> cap_state" where
  "upd_object st ob x = st\<lparr>objects := (objects st)(ob \<mapsto> x)\<rparr>"

definition upd_group :: "cap_state \<Rightarrow> nat \<Rightarrow> cap_group \<Rightarrow> cap_state" where
  "upd_group st g x = st\<lparr>groups := (groups st)(g \<mapsto> x)\<rparr>"

text \<open>The size of the allocation is computed in \<open>u64\<close>; \<open>None\<close> in the result is \<open>NULL\<close>.\<close>

definition obj_alloc :: "(nat \<Rightarrow> bool) \<Rightarrow> cap_state \<Rightarrow> object_type \<Rightarrow> u64 \<Rightarrow> nat option \<times> cap_state" where
  "obj_alloc alloc_ok st ty sz =
     (let total_size = word_of_nat OBJECT_BYTES + sz in
      if \<not> alloc_ok (unat total_size) then (None, st)
      else (Some (next_obj st),
            (upd_object st (next_obj st) \<lparr>obj_type = ty, obj_size = sz, copies = [], refcount = 0\<rparr>)
              \<lparr>next_obj := next_obj st + 1\<rparr>))"

definition obj_free :: "cap_state \<Rightarrow> nat option \<Rightarrow> cap_state option" where
  "obj_free st p =
     (case p of
        None \<Rightarrow> Some st
      | Some ob \<Rightarrow>
          do { x \<leftarrow> objects st ob;
               BUG_ON (refcount x \<noteq> 0);
               Some (st\<lparr>objects := (objects st)(ob := None), groups := (groups st)(ob := None),
                        pmos := (pmos st)(ob := None), threads := (threads st)(ob := None)\<rparr>) })"

definition obj_ref :: "cap_state \<Rightarrow> nat \<Rightarrow> cap_state option" where
  "obj_ref st ob = do { x \<leftarrow> objects st ob; Some (upd_object st ob (x\<lparr>refcount := refcount x + 1\<rparr>)) }"

definition clear_fpu_owner :: "cap_state \<Rightarrow> nat \<Rightarrow> cap_state option" where
  "clear_fpu_owner st t =
     do { th \<leftarrow> threads st t;
          let cpuid = th_fpu_cpu th;
          if 0 \<le> cpuid
          then Some (st\<lparr>fpu_owner := (if fpu_owner st (nat cpuid) = Some t
                                     then (fpu_owner st)(nat cpuid := None) else fpu_owner st),
                        threads := (threads st)(t \<mapsto> th\<lparr>th_fpu_cpu := - 1\<rparr>)\<rparr>)
          else Some st }"

text \<open>
  The memory a group, a thread or a memory object owns is released with it. \<open>thread_deinit\<close> unlinks the
  thread from the list of its group; \<open>list_del\<close> of a thread that is in no list is undefined.
\<close>

definition cap_group_deinit :: "cap_state \<Rightarrow> nat \<Rightarrow> cap_state option" where
  "cap_group_deinit st g = do { grp \<leftarrow> groups st g; Some (st\<lparr>groups := (groups st)(g := None)\<rparr>) }"

definition thread_deinit :: "cap_state \<Rightarrow> nat \<Rightarrow> cap_state option" where
  "thread_deinit st t =
     do { th \<leftarrow> threads st t;
          BUG_ON (\<not> th_exited th);
          grp \<leftarrow> groups st (th_group th);
          _ \<leftarrow> (if t \<in> set (thread_list grp) then Some () else None);
          Some ((upd_group st (th_group th) (grp\<lparr>thread_list := remove1 t (thread_list grp)\<rparr>))
                  \<lparr>threads := (threads st)(t := None)\<rparr>) }"

text \<open>
  The switch of \<open>pmo_deinit\<close> on the type: which pointers are passed to \<open>kfree\<close> and to \<open>radix_free\<close>.
  \<open>kfree\<close> of \<open>NULL\<close> stops in \<open>virt_to_page\<close>, which finds no memory pool for the address.
\<close>

definition pmo_release :: "pmobject \<Rightarrow> unit option" where
  "pmo_release pm =
     (case pmo_type pm of
        PMO_DATA \<Rightarrow> Some ()
      | PMO_DATA_NOCACHE \<Rightarrow> Some ()
      | PMO_SHM \<Rightarrow> BUG_ON (\<not> pmo_radix pm)
      | PMO_FILE \<Rightarrow> BUG_ON (\<not> pmo_radix pm)
      | PMO_ANONYM \<Rightarrow> BUG_ON (\<not> pmo_radix pm)
      | PMO_DEVICE \<Rightarrow> BUG_ON (\<not> pmo_private pm)
      | PMO_TZ_NS \<Rightarrow> BUG_ON (\<not> pmo_private pm)
      | PMO_FORBID \<Rightarrow> Some ()
      | _ \<Rightarrow> None)"

text \<open>
  \<open>obj_put\<close>, \<open>__free_object\<close> and \<open>pmo_deinit\<close> call each other: a memory object holds a reference to the group
  that owns it, and a group holds none, so the calls are at most four deep.
\<close>

fun obj_put_n :: "nat \<Rightarrow> cap_state \<Rightarrow> nat \<Rightarrow> cap_state option"
and free_object_n :: "nat \<Rightarrow> cap_state \<Rightarrow> nat \<Rightarrow> cap_state option"
and pmo_deinit_n :: "nat \<Rightarrow> cap_state \<Rightarrow> nat \<Rightarrow> cap_state option" where
  "obj_put_n 0 st ob = None"
| "obj_put_n (Suc fuel) st ob =
     do { x \<leftarrow> objects st ob;
          let old_refcount = refcount x;
          let st1 = upd_object st ob (x\<lparr>refcount := old_refcount - 1\<rparr>);
          if old_refcount = 1 then free_object_n fuel st1 ob else Some st1 }"
| "free_object_n 0 st ob = None"
| "free_object_n (Suc fuel) st ob =
     do { x \<leftarrow> objects st ob;
          st1 \<leftarrow> (if obj_type x = TYPE_THREAD then clear_fpu_owner st ob else Some st);
          st2 \<leftarrow> (case obj_type x of
                    TYPE_CAP_GROUP \<Rightarrow> cap_group_deinit st1 ob
                  | TYPE_THREAD \<Rightarrow> thread_deinit st1 ob
                  | TYPE_PMO \<Rightarrow> pmo_deinit_n fuel st1 ob
                  | _ \<Rightarrow> Some st1);
          BUG_ON (copies x \<noteq> []);
          Some (st2\<lparr>objects := (objects st2)(ob := None)\<rparr>) }"
| "pmo_deinit_n fuel st p =
     do { pm \<leftarrow> pmos st p;
          g \<leftarrow> pmo_owner pm;
          grp \<leftarrow> groups st g;
          let st1 = (upd_group st g (grp\<lparr>heap_size_used := heap_size_used grp - pmo_size pm\<rparr>))
                      \<lparr>pmos := (pmos st)(p := None)\<rparr>;
          st2 \<leftarrow> (case fuel of 0 \<Rightarrow> None | Suc f \<Rightarrow> obj_put_n f st1 g);
          pmo_release pm;
          Some st2 }"

definition obj_put :: "cap_state \<Rightarrow> nat \<Rightarrow> cap_state option" where
  "obj_put st ob = obj_put_n 5 st ob"

definition free_object_internal :: "cap_state \<Rightarrow> nat \<Rightarrow> cap_state option" where
  "free_object_internal st ob = free_object_n 4 st ob"

definition pmo_deinit :: "cap_state \<Rightarrow> nat \<Rightarrow> cap_state option" where
  "pmo_deinit st p = pmo_deinit_n 3 st p"

section \<open>Capabilities\<close>

definition cap_alloc :: "(nat \<Rightarrow> bool) \<Rightarrow> cap_state \<Rightarrow> nat \<Rightarrow> nat \<Rightarrow> (int \<times> cap_state) option" where
  "cap_alloc alloc_ok st g ob =
     do { grp \<leftarrow> groups st g;
          (sid, t1) \<leftarrow> alloc_slot_id alloc_ok (slot_tbl grp);
          if sid < 0 then Some (- ENOMEM, upd_group st g (grp\<lparr>slot_tbl := t1\<rparr>))
          else if \<not> alloc_ok SLOT_BYTES
          then do { t2 \<leftarrow> free_slot_id t1 sid; Some (- ENOMEM, upd_group st g (grp\<lparr>slot_tbl := t2\<rparr>)) }
          else do {
            x \<leftarrow> objects st ob;
            let slot = next_slot st;
            let st1 = upd_object (st\<lparr>slot_mem := (slot_mem st)(slot \<mapsto>
                          \<lparr>slot_id = sid, slot_group = g, isvalid = True, slot_object = ob\<rparr>),
                        next_slot := slot + 1\<rparr>) ob (x\<lparr>copies := slot # copies x, refcount := 1\<rparr>);
            BUG_ON (refcount x \<noteq> 0);
            t2 \<leftarrow> install_slot t1 sid slot;
            Some (sid, upd_group st1 g (grp\<lparr>slot_tbl := t2\<rparr>)) } }"

text \<open>
  \<open>__cap_free\<close>; its two flags only say which locks the caller holds already. \<open>list_del\<close> of a slot that is not in
  the list of its object is undefined.
\<close>

definition cap_free :: "cap_state \<Rightarrow> nat \<Rightarrow> int \<Rightarrow> (int \<times> cap_state) option" where
  "cap_free st g sid =
     do { grp \<leftarrow> groups st g;
          case get_slot (slot_tbl grp) sid of
            None \<Rightarrow> Some (- ECAPBILITY, st)
          | Some slot \<Rightarrow> do {
              sl \<leftarrow> slot_mem st slot;
              if \<not> isvalid sl then Some (- ECAPBILITY, st)
              else do {
                t1 \<leftarrow> free_slot_id (slot_tbl grp) sid;
                let ob = slot_object sl;
                x \<leftarrow> objects st ob;
                _ \<leftarrow> (if slot \<in> set (copies x) then Some () else None);
                let old_refcount = refcount x;
                let st1 = upd_object ((upd_group st g (grp\<lparr>slot_tbl := t1\<rparr>))\<lparr>slot_mem := (slot_mem st)(slot := None)\<rparr>)
                            ob (x\<lparr>copies := remove1 slot (copies x), refcount := old_refcount - 1\<rparr>);
                st2 \<leftarrow> (if old_refcount = 1 then free_object_internal st1 ob else Some st1);
                Some (0, st2) } } }"

fun insert_after :: "'a \<Rightarrow> 'a \<Rightarrow> 'a list \<Rightarrow> 'a list" where
  "insert_after x y [] = []"
| "insert_after x y (z # zs) = (if z = x then z # y # zs else z # insert_after x y zs)"

text \<open>
  The test after \<open>alloc_slot_id\<close> is for \<open>-1\<close>. When the source and the target group are the same, the source slot
  is read after the target number has been reserved, which does not change the slot array.
\<close>

definition cap_copy :: "(nat \<Rightarrow> bool) \<Rightarrow> cap_state \<Rightarrow> nat \<Rightarrow> nat \<Rightarrow> int \<Rightarrow> (int \<times> cap_state) option" where
  "cap_copy alloc_ok st src_g dest_g src_sid =
     do { dgrp \<leftarrow> groups st dest_g;
          (sid, t1) \<leftarrow> alloc_slot_id alloc_ok (slot_tbl dgrp);
          let st0 = upd_group st dest_g (dgrp\<lparr>slot_tbl := t1\<rparr>);
          if sid = - 1 then Some (- ENOMEM, st0)
          else if \<not> alloc_ok SLOT_BYTES
          then do { t2 \<leftarrow> free_slot_id t1 sid; Some (- ENOMEM, upd_group st0 dest_g (dgrp\<lparr>slot_tbl := t2\<rparr>)) }
          else do {
            sgrp \<leftarrow> groups st0 src_g;
            let fail = do { t2 \<leftarrow> free_slot_id t1 sid;
                            Some (- ECAPBILITY, upd_group st0 dest_g (dgrp\<lparr>slot_tbl := t2\<rparr>)) };
            case get_slot (slot_tbl sgrp) src_sid of
              None \<Rightarrow> fail
            | Some src_slot \<Rightarrow> do {
                ssl \<leftarrow> slot_mem st src_slot;
                if \<not> isvalid ssl then fail
                else do {
                  let ob = slot_object ssl;
                  x \<leftarrow> objects st ob;
                  let slot = next_slot st;
                  _ \<leftarrow> (if src_slot \<in> set (copies x) then Some () else None);
                  let st1 = upd_object (st0\<lparr>slot_mem := (slot_mem st)(slot \<mapsto>
                                \<lparr>slot_id = sid, slot_group = dest_g, isvalid = True, slot_object = ob\<rparr>),
                              next_slot := slot + 1\<rparr>)
                              ob (x\<lparr>copies := insert_after src_slot slot (copies x), refcount := refcount x + 1\<rparr>);
                  t2 \<leftarrow> install_slot t1 sid slot;
                  Some (sid, upd_group st1 dest_g (dgrp\<lparr>slot_tbl := t2\<rparr>)) } } } }"

definition get_opaque :: "cap_state \<Rightarrow> nat \<Rightarrow> int \<Rightarrow> object_type option \<Rightarrow> (nat option \<times> cap_state) option" where
  "get_opaque st g sid ty =
     do { grp \<leftarrow> groups st g;
          valid \<leftarrow> is_valid_slot_id (slot_tbl grp) sid;
          if \<not> valid then Some (None, st)
          else do {
            slot \<leftarrow> get_slot (slot_tbl grp) sid;
            sl \<leftarrow> slot_mem st slot;
            BUG_ON (\<not> isvalid sl);
            x \<leftarrow> objects st (slot_object sl);
            if ty = None \<or> ty = Some (obj_type x)
            then Some (Some (slot_object sl), upd_object st (slot_object sl) (x\<lparr>refcount := refcount x + 1\<rparr>))
            else Some (None, st) } }"

definition obj_get :: "cap_state \<Rightarrow> nat \<Rightarrow> int \<Rightarrow> object_type \<Rightarrow> (nat option \<times> cap_state) option" where
  "obj_get st g sid ty = get_opaque st g sid (Some ty)"

text \<open>The loop of \<open>cap_free_all\<close> over the copies of the object; the successor is read before the slot is freed.\<close>

fun free_copies :: "cap_state \<Rightarrow> nat list \<Rightarrow> cap_state option" where
  "free_copies st [] = Some st"
| "free_copies st (slot # rest) =
     do { sl \<leftarrow> slot_mem st slot;
          (r, st1) \<leftarrow> cap_free st (slot_group sl) (slot_id sl);
          BUG_ON (r \<noteq> 0);
          free_copies st1 rest }"

definition cap_free_all :: "cap_state \<Rightarrow> nat \<Rightarrow> int \<Rightarrow> (int \<times> cap_state) option" where
  "cap_free_all st g sid =
     do { (obj, st1) \<leftarrow> get_opaque st g sid None;
          case obj of
            None \<Rightarrow> Some (- ECAPBILITY, st1)
          | Some ob \<Rightarrow> do { x \<leftarrow> objects st1 ob;
                           st2 \<leftarrow> free_copies st1 (copies x);
                           st3 \<leftarrow> obj_put st2 ob;
                           Some (0, st3) } }"

section \<open>Invariant\<close>

text \<open>
  The view of the tables: which object a group names by which number. \<open>owner_of\<close> is the group that a memory
  object is charged to.
\<close>

definition tbl_map :: "slot_table \<Rightarrow> nat \<Rightarrow> nat option" where
  "tbl_map t i = (if i < slots_size t then slots t ! i else None)"

definition grp_map :: "cap_state \<Rightarrow> nat \<Rightarrow> nat \<Rightarrow> nat option" where
  "grp_map st g = (case groups st g of None \<Rightarrow> (\<lambda>_. None) | Some grp \<Rightarrow> tbl_map (slot_tbl grp))"

definition caps :: "cap_state \<Rightarrow> nat \<Rightarrow> nat \<Rightarrow> nat option" where
  "caps st g i = Option.bind (grp_map st g i) (\<lambda>s. map_option slot_object (slot_mem st s))"

definition owner_of :: "cap_state \<Rightarrow> nat \<Rightarrow> nat option" where
  "owner_of st p = Option.bind (pmos st p) pmo_owner"

definition pmos_of :: "cap_state \<Rightarrow> nat \<Rightarrow> nat set" where
  "pmos_of st g = {p. owner_of st p = Some g}"

definition psize :: "cap_state \<Rightarrow> nat \<Rightarrow> u64" where
  "psize st p = (case pmos st p of None \<Rightarrow> 0 | Some pm \<Rightarrow> pmo_size pm)"

text \<open>
  The invariant, for \<open>H\<close> the number of references to each object held by kernel code: the tables, the slots and
  the lists of copies describe the same capabilities; the count of an object is the number of its
  capabilities, of the references held and of the memory objects charged to it; a group that names
  anything names itself by number 0; the memory charged to a group is the size of the memory objects it owns.
\<close>

definition tables_ok :: "cap_state \<Rightarrow> bool" where
  "tables_ok st \<longleftrightarrow> (\<forall>g grp. groups st g = Some grp \<longrightarrow>
     table_inv (slot_tbl grp) (tbl_map (slot_tbl grp)) {} \<and>
     (\<exists>x. objects st g = Some x \<and> obj_type x = TYPE_CAP_GROUP))"

definition slots_ok :: "cap_state \<Rightarrow> bool" where
  "slots_ok st \<longleftrightarrow>
     (\<forall>g i s. grp_map st g i = Some s \<longrightarrow> (\<exists>sl. slot_mem st s = Some sl \<and> slot_id sl = int i \<and> slot_group sl = g)) \<and>
     (\<forall>s sl. slot_mem st s = Some sl \<longrightarrow> isvalid sl \<and> 0 \<le> slot_id sl \<and> s < next_slot st \<and>
        grp_map st (slot_group sl) (nat (slot_id sl)) = Some s \<and>
        (\<exists>x. objects st (slot_object sl) = Some x \<and> s \<in> set (copies x)))"

definition objs_ok :: "cap_state \<Rightarrow> (nat \<Rightarrow> nat) \<Rightarrow> bool" where
  "objs_ok st H \<longleftrightarrow>
     (\<forall>ob x. objects st ob = Some x \<longrightarrow> distinct (copies x) \<and> ob < next_obj st \<and>
        (\<forall>s \<in> set (copies x). \<exists>sl. slot_mem st s = Some sl \<and> slot_object sl = ob) \<and>
        unat (refcount x) = length (copies x) + H ob + card (pmos_of st ob)) \<and>
     (\<forall>ob. objects st ob = None \<longrightarrow> H ob = 0)"

definition pmos_ok :: "cap_state \<Rightarrow> bool" where
  "pmos_ok st \<longleftrightarrow> (\<forall>p pm. pmos st p = Some pm \<longrightarrow>
      (\<exists>x. objects st p = Some x \<and> obj_type x = TYPE_PMO) \<and> (\<exists>g. pmo_owner pm = Some g \<and> groups st g \<noteq> None))"

definition self_ok :: "cap_state \<Rightarrow> bool" where
  "self_ok st \<longleftrightarrow> (\<forall>g i. grp_map st g i \<noteq> None \<longrightarrow> caps st g 0 = Some g)"

definition heap_ok :: "cap_state \<Rightarrow> bool" where
  "heap_ok st \<longleftrightarrow> (\<forall>g grp. groups st g = Some grp \<longrightarrow> heap_size_used grp = sum (psize st) (pmos_of st g))"

definition cap_inv :: "cap_state \<Rightarrow> (nat \<Rightarrow> nat) \<Rightarrow> bool" where
  "cap_inv st H \<longleftrightarrow> tables_ok st \<and> slots_ok st \<and> objs_ok st H \<and> pmos_ok st \<and> self_ok st \<and> heap_ok st"

text \<open>The references to an object.\<close>

definition refs :: "cap_state \<Rightarrow> (nat \<Rightarrow> nat) \<Rightarrow> nat \<Rightarrow> nat" where
  "refs st H ob = (case objects st ob of None \<Rightarrow> 0 | Some x \<Rightarrow> length (copies x)) + H ob + card (pmos_of st ob)"

text \<open>
  When the last reference goes, a thread must have exited and be in the list of a live group, and a memory
  object must have been set up with the pointers that its type needs.
\<close>

definition freeable :: "cap_state \<Rightarrow> nat \<Rightarrow> bool" where
  "freeable st ob = (case objects st ob of None \<Rightarrow> False | Some x \<Rightarrow>
     (case obj_type x of
        TYPE_CAP_GROUP \<Rightarrow> groups st ob \<noteq> None
      | TYPE_THREAD \<Rightarrow> (case threads st ob of None \<Rightarrow> False | Some th \<Rightarrow> th_exited th \<and>
           (case groups st (th_group th) of None \<Rightarrow> False | Some grp \<Rightarrow> ob \<in> set (thread_list grp)))
      | TYPE_PMO \<Rightarrow> (case pmos st ob of None \<Rightarrow> False | Some pm \<Rightarrow> pmo_release pm = Some ())
      | _ \<Rightarrow> True))"

lemma tbl_map_eq: "table_inv t M A \<Longrightarrow> tbl_map t = M"
  using table_invD(7) by (fastforce simp: tbl_map_def)

lemma grp_map_Some [simp]: "groups st g = Some grp \<Longrightarrow> grp_map st g = tbl_map (slot_tbl grp)"
  by (simp add: grp_map_def)

lemma cap_invD:
  assumes "cap_inv st H"
  shows "groups st g = Some grp \<Longrightarrow> table_inv (slot_tbl grp) (tbl_map (slot_tbl grp)) {}"
    "groups st g = Some grp \<Longrightarrow> \<exists>x. objects st g = Some x \<and> obj_type x = TYPE_CAP_GROUP"
    "grp_map st g i = Some s \<Longrightarrow> \<exists>sl. slot_mem st s = Some sl \<and> slot_id sl = int i \<and> slot_group sl = g"
    "slot_mem st s = Some sl \<Longrightarrow> isvalid sl \<and> 0 \<le> slot_id sl \<and> s < next_slot st \<and>
        grp_map st (slot_group sl) (nat (slot_id sl)) = Some s \<and>
        (\<exists>x. objects st (slot_object sl) = Some x \<and> s \<in> set (copies x))"
    "objects st ob = Some x \<Longrightarrow> distinct (copies x) \<and> ob < next_obj st \<and>
        unat (refcount x) = length (copies x) + H ob + card (pmos_of st ob)"
    "objects st ob = Some x \<Longrightarrow> s \<in> set (copies x) \<Longrightarrow> \<exists>sl. slot_mem st s = Some sl \<and> slot_object sl = ob"
    "objects st ob = None \<Longrightarrow> H ob = 0"
    "pmos st p = Some pm \<Longrightarrow> (\<exists>x. objects st p = Some x \<and> obj_type x = TYPE_PMO) \<and>
        (\<exists>g. pmo_owner pm = Some g \<and> groups st g \<noteq> None)"
    "grp_map st g i \<noteq> None \<Longrightarrow> caps st g 0 = Some g"
    "groups st g = Some grp \<Longrightarrow> heap_size_used grp = sum (psize st) (pmos_of st g)"
  using assms unfolding cap_inv_def tables_ok_def slots_ok_def objs_ok_def pmos_ok_def self_ok_def heap_ok_def by blast+

lemma cap_inv_parts:
  assumes "tables_ok st" "slots_ok st" "objs_ok st H" "pmos_ok st" "self_ok st" "heap_ok st"
  shows "cap_inv st H"
  using assms unfolding cap_inv_def by blast

lemma cap_inv_dest:
  assumes "cap_inv st H"
  shows "tables_ok st" "slots_ok st" "objs_ok st H" "pmos_ok st" "self_ok st" "heap_ok st"
  using assms unfolding cap_inv_def by blast+

end
