(* ===== verification/Capability_Correct.thy ===== *)
theory Capability_Correct
  imports Capability Step_System "HOL-Library.Multiset"
begin

text \<open>
  The invariant of the capability system is preserved by every operation, and the tables behave as maps from
  numbers to objects. The state changes that the operations are made of come first: changing a count, adding
  and removing a slot, deleting an object, charging memory to a group.
\<close>

section \<open>State changes\<close>

definition grp_core :: "cap_group \<Rightarrow> slot_table \<times> u64" where
  "grp_core grp = (slot_tbl grp, heap_size_used grp)"

lemma cap_inv_cong:
  assumes "objects st' = objects st" "slot_mem st' = slot_mem st" "pmos st' = pmos st" "next_obj st' = next_obj st"
    "next_slot st' = next_slot st" "\<And>g. map_option grp_core (groups st' g) = map_option grp_core (groups st g)"
  shows "caps st' = caps st" "pmos_of st' = pmos_of st" "cap_inv st H \<Longrightarrow> cap_inv st' H"
proof -
  have g: "groups st' g = Some grp' \<Longrightarrow> \<exists>grp. groups st g = Some grp \<and> slot_tbl grp = slot_tbl grp' \<and> heap_size_used grp = heap_size_used grp'"
      "groups st' g = None \<longleftrightarrow> groups st g = None" for g grp'
    using assms(6) [of g] by (cases "groups st g"; auto simp: grp_core_def)+
  have m: "grp_map st' g = grp_map st g" for g
    using g [of g] by (cases "groups st' g") (auto simp: grp_map_def)
  then show c: "caps st' = caps st" using assms by (simp add: caps_def fun_eq_iff)
  have o: "pmos_of st' = pmos_of st" "psize st' = psize st" "owner_of st' = owner_of st"
    using assms by (simp_all add: pmos_of_def owner_of_def psize_def fun_eq_iff)
  then show "pmos_of st' = pmos_of st" by simp
  assume "cap_inv st H"
  note inv = cap_inv_dest [OF this]
  show "cap_inv st' H"
  proof (rule cap_inv_parts)
    show "tables_ok st'" using inv(1) g(1) assms(1) unfolding tables_ok_def by metis
    show "slots_ok st'" using inv(2) m assms by (simp add: slots_ok_def)
    show "objs_ok st' H" using inv(3) o assms by (simp add: objs_ok_def)
    show "pmos_ok st'" using inv(4) g(2) assms unfolding pmos_ok_def by simp
    show "self_ok st'" using inv(5) m c by (simp add: self_ok_def)
    show "heap_ok st'" using inv(6) g(1) o unfolding heap_ok_def by metis
  qed
qed

text \<open>A new count, that accounts for a new number of references held.\<close>

lemma upd_count_inv:
  assumes inv: "cap_inv st H" and x: "objects st ob = Some x"
    and x': "obj_type x' = obj_type x" "copies x' = copies x"
    and r: "unat (refcount x') = length (copies x) + h + card (pmos_of st ob)"
  shows "cap_inv (upd_object st ob x') (H(ob := h))" "caps (upd_object st ob x') = caps st"
proof -
  let ?st = "upd_object st ob x'"
  have f: "groups ?st = groups st" "slot_mem ?st = slot_mem st" "pmos ?st = pmos st" "objects ?st = (objects st)(ob \<mapsto> x')"
      "next_obj ?st = next_obj st" "next_slot ?st = next_slot st"
    by (simp_all add: upd_object_def)
  have m: "grp_map ?st = grp_map st" by (simp add: grp_map_def fun_eq_iff f)
  show c: "caps ?st = caps st" by (simp add: caps_def fun_eq_iff f m)
  have o: "pmos_of ?st = pmos_of st" "psize ?st = psize st" by (simp_all add: pmos_of_def owner_of_def psize_def fun_eq_iff f)
  note parts = cap_inv_dest [OF inv]
  show "cap_inv ?st (H(ob := h))"
  proof (rule cap_inv_parts)
    show "tables_ok ?st" using parts(1) x x' unfolding tables_ok_def f by fastforce
    show "slots_ok ?st" using parts(2) x x' unfolding slots_ok_def f m by fastforce
    show "objs_ok ?st (H(ob := h))" using parts(3) x x' r unfolding objs_ok_def f o by auto
    show "pmos_ok ?st" using parts(4) x x' unfolding pmos_ok_def f by fastforce
    show "self_ok ?st" using parts(5) m c by (simp add: self_ok_def)
    show "heap_ok ?st" using parts(6) o f by (simp add: heap_ok_def)
  qed
qed

lemma pmos_of_finite: "cap_inv st H \<Longrightarrow> finite (pmos_of st g)"
proof (rule finite_subset)
  assume inv: "cap_inv st H"
  show "pmos_of st g \<subseteq> {..<next_obj st}"
    using cap_invD(8) [OF inv] cap_invD(5) [OF inv] by (fastforce simp: pmos_of_def owner_of_def bind_eq_Some_conv)
qed simp

lemma no_refs:
  assumes inv: "cap_inv st H" and x: "objects st ob = Some x" and r: "refcount x = 0"
  shows "copies x = []" "H ob = 0" "pmos_of st ob = {}" "grp_map st ob = (\<lambda>_. None)"
proof -
  have "length (copies x) + H ob + card (pmos_of st ob) = 0" using cap_invD(5) [OF inv x] r by simp
  then show c: "copies x = []" "H ob = 0" "pmos_of st ob = {}" using pmos_of_finite [OF inv, of ob] by simp_all
  have "grp_map st ob i = None" for i
  proof (rule ccontr)
    assume "grp_map st ob i \<noteq> None"
    then have "caps st ob 0 = Some ob" by (rule cap_invD(9) [OF inv])
    then obtain s sl where "slot_mem st s = Some sl" "slot_object sl = ob" by (auto simp: caps_def bind_eq_Some_conv)
    then show False using cap_invD(4) [OF inv] x c(1) by fastforce
  qed
  then show "grp_map st ob = (\<lambda>_. None)" by blast
qed

text \<open>Deleting an object without references, with its payload.\<close>

lemma delete_object_inv:
  assumes inv: "cap_inv st H" and x: "objects st ob = Some x" and r: "refcount x = 0"
    and p: "pmos st ob = None"
    and st': "objects st' = (objects st)(ob := None)" "slot_mem st' = slot_mem st" "groups st' = (groups st)(ob := None)"
      "pmos st' = pmos st" "next_obj st' = next_obj st" "next_slot st' = next_slot st"
  shows "cap_inv st' H" "caps st' = caps st" "pmos_of st' = pmos_of st"
proof -
  note nr = no_refs [OF inv x r]
  have m: "grp_map st' g = grp_map st g" for g using nr(4) by (cases "g = ob") (auto simp: grp_map_def st')
  show c: "caps st' = caps st" by (simp add: caps_def fun_eq_iff st' m)
  have o: "pmos_of st' = pmos_of st" "psize st' = psize st" by (simp_all add: pmos_of_def owner_of_def psize_def fun_eq_iff st')
  then show "pmos_of st' = pmos_of st" by simp
  have ow: "pmos st q = Some pm \<Longrightarrow> pmo_owner pm \<noteq> Some ob" for q pm
    using nr(3) by (auto simp: pmos_of_def owner_of_def bind_eq_Some_conv)
  note parts = cap_inv_dest [OF inv]
  show "cap_inv st' H"
  proof (rule cap_inv_parts)
    show "tables_ok st'" using parts(1) unfolding tables_ok_def st' by auto
    show "slots_ok st'" unfolding slots_ok_def m st'
    proof (intro conjI allI impI)
      fix s sl assume s: "slot_mem st s = Some sl"
      then have "slot_object sl \<noteq> ob" using cap_invD(4) [OF inv s] x nr(1) by auto
      then show "\<exists>x. ((objects st)(ob := None)) (slot_object sl) = Some x \<and> s \<in> set (copies x)"
        using cap_invD(4) [OF inv s] by auto
    qed (use cap_invD(3,4) [OF inv] in blast)+
    show "objs_ok st' H" using parts(3) nr(2) unfolding objs_ok_def o st' by auto
    show "pmos_ok st'" using parts(4) ow p unfolding pmos_ok_def st' by fastforce
    show "self_ok st'" using parts(5) m c by (simp add: self_ok_def)
    show "heap_ok st'" using parts(6) unfolding heap_ok_def o st' by auto
  qed
qed

lemma tables_ok_upd:
  assumes ok: "tables_ok st" and g: "groups st g = Some grp" and x: "objects st ob = Some x" and t: "table_inv t M {}"
    and x': "obj_type x' = obj_type x" and "slot_tbl grp' = t"
    and st': "objects st' = (objects st)(ob \<mapsto> x')" "groups st' = (groups st)(g \<mapsto> grp')"
  shows "tables_ok st'"
  unfolding tables_ok_def st'
proof (intro allI impI conjI)
  fix h hgrp assume h: "((groups st)(g \<mapsto> grp')) h = Some hgrp"
  show "table_inv (slot_tbl hgrp) (tbl_map (slot_tbl hgrp)) {}"
    using h ok t tbl_map_eq [OF t] assms(6) unfolding tables_ok_def by (cases "h = g") auto
  have "groups st h \<noteq> None" using h g by (auto split: if_splits)
  then obtain y where "objects st h = Some y" "obj_type y = TYPE_CAP_GROUP" using ok unfolding tables_ok_def by blast
  then show "\<exists>y. ((objects st)(ob \<mapsto> x')) h = Some y \<and> obj_type y = TYPE_CAP_GROUP" using x x' by auto
qed

text \<open>A new slot \<open>s\<close> for object \<open>ob\<close>, under number \<open>e\<close> of group \<open>g\<close>.\<close>

lemma add_slot_inv:
  assumes inv: "cap_inv st H" and g: "groups st g = Some grp" and x: "objects st ob = Some x"
    and t: "table_inv t ((tbl_map (slot_tbl grp))(e \<mapsto> s)) {}" and e: "tbl_map (slot_tbl grp) e = None"
    and s: "s = next_slot st" and cs: "mset cs = add_mset s (mset (copies x))"
    and r: "unat rc = unat (refcount x) + 1" and self: "(\<exists>i. tbl_map (slot_tbl grp) i \<noteq> None) \<or> e = 0 \<and> ob = g"
    and st': "objects st' = (objects st)(ob \<mapsto> x\<lparr>copies := cs, refcount := rc\<rparr>)"
      "slot_mem st' = (slot_mem st)(s \<mapsto> \<lparr>slot_id = int e, slot_group = g, isvalid = True, slot_object = ob\<rparr>)"
      "groups st' = (groups st)(g \<mapsto> grp\<lparr>slot_tbl := t\<rparr>)" "pmos st' = pmos st" "next_obj st' = next_obj st"
      "next_slot st' = next_slot st + 1"
  shows "cap_inv st' H" "caps st' = (caps st)(g := (caps st g)(e \<mapsto> ob))"
proof -
  have m: "grp_map st' = (grp_map st)(g := (grp_map st g)(e \<mapsto> s))"
    using g tbl_map_eq [OF t] by (simp add: grp_map_def fun_eq_iff st')
  have fresh: "slot_mem st s = None" using cap_invD(4) [OF inv, of s] s by (cases "slot_mem st s") auto
  have sfresh: "grp_map st h i \<noteq> Some s" for h i using cap_invD(3) [OF inv, of h i s] fresh by auto
  have e0: "grp_map st g e = None" using e g by simp
  show c: "caps st' = (caps st)(g := (caps st g)(e \<mapsto> ob))"
  proof (intro ext)
    fix h i show "caps st' h i = ((caps st)(g := (caps st g)(e \<mapsto> ob))) h i"
      using sfresh [of h i] by (cases "grp_map st h i") (auto simp: caps_def st' m)
  qed
  have o: "pmos_of st' = pmos_of st" "psize st' = psize st" by (simp_all add: pmos_of_def owner_of_def psize_def fun_eq_iff st')
  have cs': "set cs = insert s (set (copies x))" "length cs = length (copies x) + 1"
    using arg_cong [OF cs, of set_mset] arg_cong [OF cs, of size] by simp_all
  have "s \<notin> set (copies x)" using cap_invD(6) [OF inv x, of s] fresh by auto
  then have d: "distinct cs" using cs cap_invD(5) [OF inv x]
    by (metis distinct.simps(2) mset.simps(2) mset_eq_imp_distinct_iff)
  note parts = cap_inv_dest [OF inv]
  show "cap_inv st' H"
  proof (rule cap_inv_parts)
    show "tables_ok st'" by (rule tables_ok_upd [OF parts(1) g x t _ _ st'(1,3)]) simp_all
    show "slots_ok st'" unfolding slots_ok_def m st'
    proof (intro conjI allI impI)
      fix h i s' assume hi: "((grp_map st)(g := (grp_map st g)(e \<mapsto> s))) h i = Some s'"
      show "\<exists>sl. ((slot_mem st)(s \<mapsto> \<lparr>slot_id = int e, slot_group = g, isvalid = True, slot_object = ob\<rparr>)) s' = Some sl \<and>
          slot_id sl = int i \<and> slot_group sl = h"
      proof (cases "h = g \<and> i = e")
        case False
        then have "grp_map st h i = Some s'" using hi by (auto split: if_splits)
        then show ?thesis using cap_invD(3) [OF inv, of h i s'] sfresh [of h i] by (cases "s' = s") simp_all
      qed (use hi in simp)
    next
      fix s' sl assume sl: "((slot_mem st)(s \<mapsto> \<lparr>slot_id = int e, slot_group = g, isvalid = True, slot_object = ob\<rparr>)) s' = Some sl"
      have "isvalid sl \<and> 0 \<le> slot_id sl \<and> s' < next_slot st + 1 \<and>
          ((grp_map st)(g := (grp_map st g)(e \<mapsto> s))) (slot_group sl) (nat (slot_id sl)) = Some s' \<and>
          (\<exists>y. ((objects st)(ob \<mapsto> x\<lparr>copies := cs, refcount := rc\<rparr>)) (slot_object sl) = Some y \<and> s' \<in> set (copies y))"
      proof (cases "s' = s")
        case True
        then have "sl = \<lparr>slot_id = int e, slot_group = g, isvalid = True, slot_object = ob\<rparr>" using sl by simp
        then show ?thesis using True cs'(1) s by simp
      next
        case False
        then have m': "slot_mem st s' = Some sl" using sl by simp
        from cap_invD(4) [OF inv this] obtain y where y: "isvalid sl" "0 \<le> slot_id sl" "s' < next_slot st"
          "grp_map st (slot_group sl) (nat (slot_id sl)) = Some s'" "objects st (slot_object sl) = Some y" "s' \<in> set (copies y)" by blast
        have "slot_object sl = ob \<Longrightarrow> s' \<in> set cs" using y(5,6) x cs'(1) by simp
        moreover have "\<not> (slot_group sl = g \<and> nat (slot_id sl) = e)" using y(4) e0 by auto
        ultimately show ?thesis using y by auto
      qed
      then show "isvalid sl" "0 \<le> slot_id sl" "s' < next_slot st + 1"
        "((grp_map st)(g := (grp_map st g)(e \<mapsto> s))) (slot_group sl) (nat (slot_id sl)) = Some s'"
        "\<exists>y. ((objects st)(ob \<mapsto> x\<lparr>copies := cs, refcount := rc\<rparr>)) (slot_object sl) = Some y \<and> s' \<in> set (copies y)" by blast+
    qed
    show "objs_ok st' H" unfolding objs_ok_def o st'
    proof (intro conjI allI impI ballI)
      fix ob' y s' assume y: "((objects st)(ob \<mapsto> x\<lparr>copies := cs, refcount := rc\<rparr>)) ob' = Some y"
      show "unat (refcount y) = length (copies y) + H ob' + card (pmos_of st ob')"
        using y cap_invD(5) [OF inv, of ob' y] cap_invD(5) [OF inv x] cs' r by (auto split: if_splits)
      show "distinct (copies y)" using y cap_invD(5) [OF inv, of ob' y] d by (auto split: if_splits)
      show "ob' < next_obj st" using y cap_invD(5) [OF inv, of ob' y] cap_invD(5) [OF inv x] by (auto split: if_splits)
      assume "s' \<in> set (copies y)"
      then show "\<exists>sl. ((slot_mem st)(s \<mapsto> \<lparr>slot_id = int e, slot_group = g, isvalid = True, slot_object = ob\<rparr>)) s' = Some sl \<and> slot_object sl = ob'"
        using y cap_invD(6) [OF inv, of ob' y s'] cap_invD(6) [OF inv x, of s'] cs' fresh by (auto split: if_splits)
    qed (use cap_invD(7) [OF inv] x in \<open>auto split: if_splits\<close>)
    show "pmos_ok st'" using parts(4) x g unfolding pmos_ok_def st' by fastforce
    show "self_ok st'" unfolding self_ok_def c
    proof (intro allI impI)
      fix h i assume "grp_map st' h i \<noteq> None"
      then have "h = g \<or> grp_map st h i \<noteq> None" by (auto simp: m split: if_splits)
      moreover have "caps st g 0 = Some g \<or> e = 0 \<and> ob = g" using self g cap_invD(9) [OF inv, of g] by auto
      moreover have "caps st g e = None" using e0 by (simp add: caps_def)
      ultimately show "((caps st)(g := (caps st g)(e \<mapsto> ob))) h 0 = Some h"
        using cap_invD(9) [OF inv, of h i] by auto
    qed
    show "heap_ok st'" using parts(6) g unfolding heap_ok_def o st' by auto
  qed
qed

lemma remove1_facts:
  assumes "distinct xs" "y \<in> set xs"
  shows "set (remove1 y xs) = set xs - {y}" "length (remove1 y xs) + 1 = length xs" "distinct (remove1 y xs)"
  using assms length_pos_if_in_set [OF assms(2)] by (simp_all add: length_remove1)

text \<open>Removing the slot \<open>s\<close> under number \<open>e\<close> of group \<open>g\<close>; number 0 goes last.\<close>

lemma remove_slot_inv:
  assumes inv: "cap_inv st H" and g: "groups st g = Some grp" and sl: "slot_mem st s = Some sl"
    and x: "objects st (slot_object sl) = Some x"
    and t: "table_inv t ((tbl_map (slot_tbl grp))(e := None)) {}" and e: "tbl_map (slot_tbl grp) e = Some s"
    and r: "unat rc = unat (refcount x) - 1" and last: "e = 0 \<longrightarrow> dom (tbl_map (slot_tbl grp)) = {0}"
    and st': "objects st' = (objects st)(slot_object sl \<mapsto> x\<lparr>copies := remove1 s (copies x), refcount := rc\<rparr>)"
      "slot_mem st' = (slot_mem st)(s := None)"
      "groups st' = (groups st)(g \<mapsto> grp\<lparr>slot_tbl := t\<rparr>)" "pmos st' = pmos st" "next_obj st' = next_obj st"
      "next_slot st' = next_slot st"
  shows "cap_inv st' H" "caps st' = (caps st)(g := (caps st g)(e := None))"
proof -
  have m: "grp_map st' = (grp_map st)(g := (grp_map st g)(e := None))"
    using g tbl_map_eq [OF t] by (simp add: grp_map_def fun_eq_iff st')
  have e0: "grp_map st g e = Some s" using e g by simp
  have sl': "slot_id sl = int e" "slot_group sl = g" using cap_invD(3) [OF inv e0] sl by auto
  have uniq: "grp_map st h i = Some s \<longleftrightarrow> h = g \<and> i = e" for h i
    using cap_invD(3) [OF inv, of h i s] sl sl' e0 by auto
  show c: "caps st' = (caps st)(g := (caps st g)(e := None))"
  proof (intro ext)
    fix h i show "caps st' h i = ((caps st)(g := (caps st g)(e := None))) h i"
      using uniq [of h i] by (cases "grp_map st h i") (auto simp: caps_def st' m)
  qed
  have o: "pmos_of st' = pmos_of st" "psize st' = psize st" by (simp_all add: pmos_of_def owner_of_def psize_def fun_eq_iff st')
  have xs: "distinct (copies x)" "s \<in> set (copies x)" using cap_invD(5) [OF inv x] cap_invD(4) [OF inv sl] x by auto
  then have cs: "set (remove1 s (copies x)) = set (copies x) - {s}" "length (remove1 s (copies x)) + 1 = length (copies x)"
      "distinct (remove1 s (copies x))" by (rule remove1_facts)+
  note parts = cap_inv_dest [OF inv]
  show "cap_inv st' H"
  proof (rule cap_inv_parts)
    show "tables_ok st'" by (rule tables_ok_upd [OF parts(1) g x t _ _ st'(1,3)]) simp_all
    show "slots_ok st'" unfolding slots_ok_def m st'
    proof (intro conjI allI impI)
      fix h i s' assume hi: "((grp_map st)(g := (grp_map st g)(e := None))) h i = Some s'"
      then have "grp_map st h i = Some s'" "\<not> (h = g \<and> i = e)" by (auto split: if_splits)
      then show "\<exists>sl. ((slot_mem st)(s := None)) s' = Some sl \<and> slot_id sl = int i \<and> slot_group sl = h"
        using cap_invD(3) [OF inv, of h i s'] uniq [of h i] by (cases "s' = s") simp_all
    next
      fix s' sl' assume s': "((slot_mem st)(s := None)) s' = Some sl'"
      then have m': "slot_mem st s' = Some sl'" "s' \<noteq> s" by (auto split: if_splits)
      from cap_invD(4) [OF inv m'(1)] obtain y where y: "isvalid sl'" "0 \<le> slot_id sl'" "s' < next_slot st"
        "grp_map st (slot_group sl') (nat (slot_id sl')) = Some s'" "objects st (slot_object sl') = Some y" "s' \<in> set (copies y)" by blast
      have "slot_object sl' = slot_object sl \<Longrightarrow> s' \<in> set (remove1 s (copies x))" using y(5,6) x cs(1) m'(2) by simp
      moreover have "\<not> (slot_group sl' = g \<and> nat (slot_id sl') = e)" using y(4) e0 m'(2) by auto
      ultimately show "isvalid sl'" "0 \<le> slot_id sl'" "s' < next_slot st"
        "((grp_map st)(g := (grp_map st g)(e := None))) (slot_group sl') (nat (slot_id sl')) = Some s'"
        "\<exists>y. ((objects st)(slot_object sl \<mapsto> x\<lparr>copies := remove1 s (copies x), refcount := rc\<rparr>)) (slot_object sl') = Some y \<and> s' \<in> set (copies y)"
        using y by auto
    qed
    show "objs_ok st' H" unfolding objs_ok_def o st'
    proof (intro conjI allI impI ballI)
      fix ob' y s' assume y: "((objects st)(slot_object sl \<mapsto> x\<lparr>copies := remove1 s (copies x), refcount := rc\<rparr>)) ob' = Some y"
      show "unat (refcount y) = length (copies y) + H ob' + card (pmos_of st ob')"
        using y cap_invD(5) [OF inv, of ob' y] cap_invD(5) [OF inv x] cs(2) r by (auto split: if_splits)
      show "distinct (copies y)" using y cap_invD(5) [OF inv, of ob' y] cs(3) by (cases "ob' = slot_object sl") auto
      show "ob' < next_obj st" using y cap_invD(5) [OF inv, of ob' y] cap_invD(5) [OF inv x] by (auto split: if_splits)
      assume "s' \<in> set (copies y)"
      then show "\<exists>sl. ((slot_mem st)(s := None)) s' = Some sl \<and> slot_object sl = ob'"
        using y cap_invD(6) [OF inv, of ob' y s'] cap_invD(6) [OF inv x, of s'] xs(1) sl x
        by (cases "ob' = slot_object sl"; cases "s' = s") auto
    qed (use cap_invD(7) [OF inv] x in \<open>auto split: if_splits\<close>)
    show "pmos_ok st'" using parts(4) x g unfolding pmos_ok_def st' by fastforce
    show "self_ok st'" unfolding self_ok_def c
    proof (intro allI impI)
      fix h i assume hi: "grp_map st' h i \<noteq> None"
      then have "grp_map st h i \<noteq> None" "h = g \<longrightarrow> i \<noteq> e" by (auto simp: m split: if_splits)
      moreover from this have "h = g \<longrightarrow> e \<noteq> 0" using last g by (metis domIff grp_map_Some singletonD)
      ultimately show "((caps st)(g := (caps st g)(e := None))) h 0 = Some h"
        using cap_invD(9) [OF inv, of h i] by auto
    qed
    show "heap_ok st'" using parts(6) g unfolding heap_ok_def o st' by auto
  qed
qed

text \<open>Charging a memory object to a group, which takes over one reference, and the converse.\<close>

lemma charge_inv:
  assumes inv: "cap_inv st H" and g: "groups st g = Some grp" and H: "0 < H g"
    and p: "pmos st p = None" "objects st p = Some x" "obj_type x = TYPE_PMO" and pm: "pmo_owner pm = Some g"
    and st': "objects st' = objects st" "slot_mem st' = slot_mem st" "next_obj st' = next_obj st" "next_slot st' = next_slot st"
      "groups st' = (groups st)(g \<mapsto> grp\<lparr>heap_size_used := heap_size_used grp + pmo_size pm\<rparr>)" "pmos st' = (pmos st)(p \<mapsto> pm)"
  shows "cap_inv st' (H(g := H g - 1))" "caps st' = caps st"
proof -
  have m: "grp_map st' = grp_map st" using g by (simp add: grp_map_def fun_eq_iff st')
  show c: "caps st' = caps st" by (simp add: caps_def fun_eq_iff st' m)
  have np: "p \<notin> pmos_of st h" for h using p(1) by (simp add: pmos_of_def owner_of_def)
  have o: "pmos_of st' h = (if h = g then insert p (pmos_of st h) else pmos_of st h)" for h
    using p(1) pm by (auto simp: pmos_of_def owner_of_def st')
  have ps: "sum (psize st') (pmos_of st h) = sum (psize st) (pmos_of st h)" for h
    using np by (intro sum.cong) (auto simp: psize_def st')
  have pp: "psize st' p = pmo_size pm" by (simp add: psize_def st')
  note parts = cap_inv_dest [OF inv] and fin = pmos_of_finite [OF inv]
  show "cap_inv st' (H(g := H g - 1))"
  proof (rule cap_inv_parts)
    show "tables_ok st'" using parts(1) g unfolding tables_ok_def st' by auto
    show "slots_ok st'" using parts(2) unfolding slots_ok_def st' m by simp
    show "objs_ok st' (H(g := H g - 1))" using parts(3) fin np H unfolding objs_ok_def o st' by auto
    have "groups st' h = None \<longleftrightarrow> groups st h = None" for h using g by (simp add: st')
    then show "pmos_ok st'" using parts(4) g p pm unfolding pmos_ok_def st'(1,6) by auto
    show "self_ok st'" using parts(5) m c by (simp add: self_ok_def)
    show "heap_ok st'" using parts(6) fin np g unfolding heap_ok_def o st' by (auto simp: ps pp algebra_simps)
  qed
qed

lemma uncharge_inv:
  assumes inv: "cap_inv st H" and p: "pmos st p = Some pm" "pmo_owner pm = Some g" "groups st g = Some grp"
    and st': "objects st' = objects st" "slot_mem st' = slot_mem st" "next_obj st' = next_obj st" "next_slot st' = next_slot st"
      "groups st' = (groups st)(g \<mapsto> grp\<lparr>heap_size_used := heap_size_used grp - pmo_size pm\<rparr>)" "pmos st' = (pmos st)(p := None)"
  shows "cap_inv st' (H(g := H g + 1))" "caps st' = caps st"
proof -
  have m: "grp_map st' = grp_map st" using p(3) by (simp add: grp_map_def fun_eq_iff st')
  show c: "caps st' = caps st" by (simp add: caps_def fun_eq_iff st' m)
  have np: "p \<in> pmos_of st h \<longleftrightarrow> h = g" for h using p(1,2) by (auto simp: pmos_of_def owner_of_def)
  have o: "pmos_of st' h = pmos_of st h - {p}" for h by (auto simp: pmos_of_def owner_of_def st')
  have ps: "sum (psize st') (pmos_of st h - {p}) = sum (psize st) (pmos_of st h - {p})" for h
    by (intro sum.cong) (auto simp: psize_def st')
  note parts = cap_inv_dest [OF inv] and fin = pmos_of_finite [OF inv]
  have card: "card (pmos_of st g) = card (pmos_of st g - {p}) + 1" using fin [of g] np by (metis card.remove Suc_eq_plus1)
  have other: "h \<noteq> g \<Longrightarrow> pmos_of st h - {p} = pmos_of st h" for h using np [of h] by simp
  obtain x where x: "objects st g = Some x" using cap_invD(2) [OF inv p(3)] by blast
  show "cap_inv st' (H(g := H g + 1))"
  proof (rule cap_inv_parts)
    show "tables_ok st'" using parts(1) p(3) unfolding tables_ok_def st' by auto
    show "slots_ok st'" using parts(2) unfolding slots_ok_def st' m by simp
    show "objs_ok st' (H(g := H g + 1))" unfolding objs_ok_def o st'
    proof (intro conjI allI impI)
      fix ob y assume y: "objects st ob = Some y"
      show "unat (refcount y) = length (copies y) + (H(g := H g + 1)) ob + card (pmos_of st ob - {p})"
        using cap_invD(5) [OF inv y] card other [of ob] by (cases "ob = g") auto
    qed (use parts(3) x in \<open>auto simp: objs_ok_def\<close>)
    have "groups st' h = None \<longleftrightarrow> groups st h = None" for h using p(3) by (simp add: st')
    then show "pmos_ok st'" using parts(4) unfolding pmos_ok_def st'(1,6) by auto
    show "self_ok st'" using parts(5) m c by (simp add: self_ok_def)
    show "heap_ok st'" unfolding heap_ok_def o st' ps
    proof (intro allI impI)
      fix h hgrp assume h: "((groups st)(g \<mapsto> grp\<lparr>heap_size_used := heap_size_used grp - pmo_size pm\<rparr>)) h = Some hgrp"
      have "sum (psize st) (pmos_of st g - {p}) = sum (psize st) (pmos_of st g) - pmo_size pm"
        using sum.remove [OF fin [of g], of p "psize st"] np p(1) by (simp add: psize_def)
      then show "heap_size_used hgrp = sum (psize st) (pmos_of st h - {p})"
        using h cap_invD(10) [OF inv, of h] p(3) other [of h] by (cases "h = g") auto
    qed
  qed
qed

section \<open>Dropping references\<close>

text \<open>The objects that remain are as before, apart from their counts.\<close>

definition shrinks :: "cap_state \<Rightarrow> cap_state \<Rightarrow> bool" where
  "shrinks st st' \<longleftrightarrow> next_obj st' = next_obj st \<and> next_slot st' = next_slot st \<and>
     (\<forall>ob x'. objects st' ob = Some x' \<longrightarrow>
        (\<exists>x. objects st ob = Some x \<and> obj_type x = obj_type x' \<and> copies x' = copies x))"

lemma shrinks_trans: "shrinks a b \<Longrightarrow> shrinks b c \<Longrightarrow> shrinks a c"
  unfolding shrinks_def by fastforce

lemma shrinks_refl [simp]: "shrinks a a" by (simp add: shrinks_def)

lemma drop_count:
  assumes inv: "cap_inv st H" and x: "objects st ob = Some x" and H: "0 < H ob"
  shows "cap_inv (upd_object st ob (x\<lparr>refcount := refcount x - 1\<rparr>)) (H(ob := H ob - 1))"
    "caps (upd_object st ob (x\<lparr>refcount := refcount x - 1\<rparr>)) = caps st"
    "refcount x = 1 \<longleftrightarrow> refs st H ob = 1"
proof -
  have u: "unat (refcount x) = length (copies x) + H ob + card (pmos_of st ob)" using cap_invD(5) [OF inv x] by simp
  then have "unat (refcount x - 1) = length (copies x) + (H ob - 1) + card (pmos_of st ob)"
    using H unat_sub64 [of 1 "refcount x"] by simp
  then show "cap_inv (upd_object st ob (x\<lparr>refcount := refcount x - 1\<rparr>)) (H(ob := H ob - 1))"
    "caps (upd_object st ob (x\<lparr>refcount := refcount x - 1\<rparr>)) = caps st"
    using upd_count_inv [OF inv x, of "x\<lparr>refcount := refcount x - 1\<rparr>" "H ob - 1"] by simp_all
  have "refcount x = 1 \<longleftrightarrow> unat (refcount x) = 1" by (metis unsigned_1 unsigned_word_eqI)
  then show "refcount x = 1 \<longleftrightarrow> refs st H ob = 1" using u x by (simp add: refs_def)
qed

lemma free_group:
  assumes inv: "cap_inv st H" and g: "groups st g = Some grp" and x: "objects st g = Some x" "refcount x = 0"
  shows "\<exists>st'. free_object_n (Suc f) st g = Some st' \<and> cap_inv st' H \<and> caps st' = caps st \<and> shrinks st st' \<and>
    objects st' = (objects st)(g := None) \<and> pmos st' = pmos st"
proof -
  have ty: "obj_type x = TYPE_CAP_GROUP" using cap_invD(2) [OF inv g] x by simp
  have p: "pmos st g = None" using cap_invD(8) [OF inv, of g] x ty by (cases "pmos st g") auto
  let ?st = "st\<lparr>groups := (groups st)(g := None), objects := (objects st)(g := None)\<rparr>"
  have "free_object_n (Suc f) st g = Some ?st"
    using x(1) ty g no_refs(1) [OF inv x] by (simp add: cap_group_deinit_def)
  moreover have "cap_inv ?st H" "caps ?st = caps st"
    by (rule delete_object_inv [OF inv x p]; simp)+
  moreover have "shrinks st ?st" by (auto simp: shrinks_def)
  ultimately show ?thesis by simp
qed

lemma put_group:
  assumes inv: "cap_inv st H" and g: "groups st g = Some grp" and H: "0 < H g"
  shows "\<exists>st'. obj_put_n (Suc (Suc f)) st g = Some st' \<and> cap_inv st' (H(g := H g - 1)) \<and> caps st' = caps st \<and> shrinks st st' \<and>
    (\<forall>ob. ob \<noteq> g \<longrightarrow> objects st' ob = objects st ob) \<and> (objects st' g = None \<longleftrightarrow> refs st H g = 1) \<and>
    pmos st' = pmos st"
proof -
  obtain x where x: "objects st g = Some x" using cap_invD(2) [OF inv g] by blast
  let ?x = "x\<lparr>refcount := refcount x - 1\<rparr>"
  let ?st = "upd_object st g ?x"
  note d = drop_count [OF inv x H]
  have f: "objects ?st = (objects st)(g \<mapsto> ?x)" "groups ?st = groups st" "pmos ?st = pmos st" by (simp_all add: upd_object_def)
  have sh: "shrinks st ?st" using x by (auto simp: shrinks_def upd_object_def)
  show ?thesis
  proof (cases "refcount x = 1")
    case True
    have "groups ?st g = Some grp" "objects ?st g = Some ?x" "refcount ?x = 0" using f g True by simp_all
    from free_group [OF d(1) this, of f] obtain st' where
      st': "free_object_n (Suc f) ?st g = Some st'" "cap_inv st' (H(g := H g - 1))" "caps st' = caps ?st" "shrinks ?st st'"
      "objects st' = (objects ?st)(g := None)" "pmos st' = pmos ?st" by blast
    then show ?thesis using x True d(2,3) shrinks_trans [OF sh] f by auto
  next
    case False
    then show ?thesis using x d sh f by auto
  qed
qed

lemma pmo_deinit_ok:
  assumes inv: "cap_inv st H" and p: "pmos st p = Some pm" "pmo_release pm = Some ()"
  shows "\<exists>st'. pmo_deinit_n (Suc (Suc (Suc f))) st p = Some st' \<and> cap_inv st' H \<and> caps st' = caps st \<and> shrinks st st' \<and>
    pmos st' p = None \<and> objects st' p = objects st p"
proof -
  obtain g grp x where g: "pmo_owner pm = Some g" "groups st g = Some grp" and x: "objects st p = Some x" "obj_type x = TYPE_PMO"
    using cap_invD(8) [OF inv p(1)] by auto
  let ?grp = "grp\<lparr>heap_size_used := heap_size_used grp - pmo_size pm\<rparr>"
  let ?st = "(upd_group st g ?grp)\<lparr>pmos := (pmos st)(p := None)\<rparr>"
  have u: "cap_inv ?st (H(g := H g + 1))" "caps ?st = caps st"
    by (rule uncharge_inv [OF inv p(1) g]; simp add: upd_group_def)+
  have gs: "groups ?st g = Some ?grp" by (simp add: upd_group_def)
  have sh: "shrinks st ?st" by (simp add: shrinks_def upd_group_def)
  have "p \<noteq> g" using cap_invD(2) [OF inv g(2)] x by auto
  have "0 < (H(g := H g + 1)) g" by simp
  from put_group [OF u(1) gs this, of f] obtain st' where st': "obj_put_n (Suc (Suc f)) ?st g = Some st'"
    "cap_inv st' ((H(g := H g + 1))(g := (H(g := H g + 1)) g - 1))" "caps st' = caps ?st" "shrinks ?st st'"
    "\<forall>ob. ob \<noteq> g \<longrightarrow> objects st' ob = objects ?st ob" "pmos st' = pmos ?st" by blast
  have "(H(g := H g + 1))(g := (H(g := H g + 1)) g - 1) = H" by auto
  moreover have "objects ?st p = objects st p" by (simp add: upd_group_def)
  ultimately show ?thesis using st' g p u(2) shrinks_trans [OF sh st'(4)] \<open>p \<noteq> g\<close> by (simp add: Let_def)
qed

lemma clear_fpu_owner_ok:
  assumes "threads st t = Some th"
  shows "\<exists>st1 th1. clear_fpu_owner st t = Some st1 \<and> objects st1 = objects st \<and> slot_mem st1 = slot_mem st \<and>
    groups st1 = groups st \<and> pmos st1 = pmos st \<and> next_obj st1 = next_obj st \<and> next_slot st1 = next_slot st \<and>
    threads st1 t = Some th1 \<and> th_group th1 = th_group th \<and> th_exited th1 = th_exited th"
  using assms by (cases "0 \<le> th_fpu_cpu th") (simp_all add: clear_fpu_owner_def Let_def)

lemma free_thread:
  assumes inv: "cap_inv st H" and x: "objects st ob = Some x" "refcount x = 0" "obj_type x = TYPE_THREAD"
    and fr: "freeable st ob"
  shows "\<exists>st'. free_object_n (Suc f) st ob = Some st' \<and> cap_inv st' H \<and> caps st' = caps st \<and> shrinks st st' \<and> objects st' ob = None"
proof -
  obtain th grp where th: "threads st ob = Some th" "th_exited th" "groups st (th_group th) = Some grp" "ob \<in> set (thread_list grp)"
    using fr x by (auto simp: freeable_def split: option.splits)
  obtain st1 th1 where st1: "clear_fpu_owner st ob = Some st1" "objects st1 = objects st" "slot_mem st1 = slot_mem st"
      "groups st1 = groups st" "pmos st1 = pmos st" "next_obj st1 = next_obj st" "next_slot st1 = next_slot st"
      "threads st1 ob = Some th1" "th_group th1 = th_group th" "th_exited th1"
    using clear_fpu_owner_ok [OF th(1)] th(2) by blast
  let ?grp = "grp\<lparr>thread_list := remove1 ob (thread_list grp)\<rparr>"
  let ?st2 = "(upd_group st1 (th_group th) ?grp)\<lparr>threads := (threads st1)(ob := None)\<rparr>"
  let ?st3 = "?st2\<lparr>objects := (objects ?st2)(ob := None)\<rparr>"
  have "free_object_n (Suc f) st ob = Some ?st3"
    using x th st1 no_refs(1) [OF inv x(1,2)] by (simp add: thread_deinit_def Let_def)
  moreover have c: "cap_inv ?st2 H" "caps ?st2 = caps st"
    using cap_inv_cong [of ?st2 st] inv th(3) st1 by (simp_all add: upd_group_def grp_core_def)
  moreover have p: "pmos st ob = None" "groups st ob = None"
    using cap_invD(8) [OF inv, of ob] cap_invD(2) [OF inv, of ob] x by (cases "pmos st ob"; cases "groups st ob"; auto)+
  have "cap_inv ?st3 H" "caps ?st3 = caps ?st2"
    using p th(3) st1 by (intro delete_object_inv [OF c(1), of ob x]; auto simp: x upd_group_def fun_eq_iff)+
  moreover have "shrinks st ?st3" using st1 by (auto simp: shrinks_def upd_group_def)
  ultimately show ?thesis by simp
qed

lemma free_object_ok:
  assumes inv: "cap_inv st H" and x: "objects st ob = Some x" "refcount x = 0" and fr: "freeable st ob"
  shows "\<exists>st'. free_object_internal st ob = Some st' \<and> cap_inv st' H \<and> caps st' = caps st \<and> shrinks st st' \<and> objects st' ob = None"
proof -
  have four: "(4 :: nat) = Suc (Suc (Suc (Suc 0)))" and suc3: "(4 :: nat) = Suc 3" by simp_all
  consider "obj_type x = TYPE_CAP_GROUP" | "obj_type x = TYPE_THREAD" | "obj_type x = TYPE_PMO"
    | "obj_type x \<notin> {TYPE_CAP_GROUP, TYPE_THREAD, TYPE_PMO}" by blast
  then show ?thesis
  proof cases
    case 1
    then obtain grp where "groups st ob = Some grp" using fr x by (auto simp: freeable_def)
    from free_group [OF inv this x] show ?thesis unfolding free_object_internal_def four by fastforce
  next
    case 2
    from free_thread [OF inv x this fr] show ?thesis unfolding free_object_internal_def four .
  next
    case 3
    then obtain pm where pm: "pmos st ob = Some pm" "pmo_release pm = Some ()" using fr x by (auto simp: freeable_def split: option.splits)
    from pmo_deinit_ok [OF inv pm, of 0] obtain st2 where st2: "pmo_deinit_n 3 st ob = Some st2" "cap_inv st2 H"
      "caps st2 = caps st" "shrinks st st2" "pmos st2 ob = None" "objects st2 ob = objects st ob" by (auto simp: eval_nat_numeral)
    let ?st = "st2\<lparr>objects := (objects st2)(ob := None)\<rparr>"
    have "groups st2 ob = None" using cap_invD(2) [OF st2(2), of ob] st2(6) x 3 by (cases "groups st2 ob") auto
    then have "cap_inv ?st H" "caps ?st = caps st2"
      by (intro delete_object_inv [OF st2(2), of ob x]; simp add: st2 x fun_eq_iff)+
    moreover have "shrinks st ?st" using st2(4) by (auto simp: shrinks_def)
    moreover have "free_object_internal st ob = Some ?st"
      unfolding free_object_internal_def suc3 free_object_n.simps using st2(1) x 3 no_refs(1) [OF inv x] by (simp del: pmo_deinit_n.simps)
    ultimately show ?thesis using st2(3) by simp
  next
    case 4
    let ?st = "st\<lparr>objects := (objects st)(ob := None)\<rparr>"
    have g: "groups st ob = None" "pmos st ob = None"
      using cap_invD(2) [OF inv, of ob] cap_invD(8) [OF inv, of ob] x 4 by (cases "groups st ob"; cases "pmos st ob"; auto)+
    then have "cap_inv ?st H" "caps ?st = caps st" by (intro delete_object_inv [OF inv x]; simp add: fun_eq_iff)+
    moreover have "shrinks st ?st" by (auto simp: shrinks_def)
    moreover have "free_object_internal st ob = Some ?st"
      using x 4 no_refs(1) [OF inv x] by (simp add: free_object_internal_def numeral_eq_Suc split: object_type.split)
    ultimately show ?thesis by simp
  qed
qed

lemma freeable_upd:
  "objects st ob = Some x \<Longrightarrow> obj_type x' = obj_type x \<Longrightarrow> freeable (upd_object st ob x') ob = freeable st ob"
  by (cases "obj_type x"; cases "threads st ob") (simp_all add: freeable_def upd_object_def)

lemma obj_put_ok:
  assumes inv: "cap_inv st H" and H: "0 < H ob" and fr: "refs st H ob = 1 \<longrightarrow> freeable st ob"
  shows "\<exists>st'. obj_put st ob = Some st' \<and> cap_inv st' (H(ob := H ob - 1)) \<and> caps st' = caps st \<and> shrinks st st' \<and>
    (objects st' ob = None \<longleftrightarrow> refs st H ob = 1)"
proof -
  obtain x where x: "objects st ob = Some x" using cap_invD(7) [OF inv, of ob] H by (cases "objects st ob") auto
  let ?x = "x\<lparr>refcount := refcount x - 1\<rparr>"
  let ?st = "upd_object st ob ?x"
  note d = drop_count [OF inv x H]
  have f: "objects ?st ob = Some ?x" by (simp add: upd_object_def)
  have sh: "shrinks st ?st" using x by (auto simp: shrinks_def upd_object_def)
  have unf: "obj_put st ob = (if refcount x = 1 then free_object_internal ?st ob else Some ?st)"
  proof -
    have "(5 :: nat) = Suc 4" by simp
    then show ?thesis unfolding obj_put_def free_object_internal_def by (simp only: obj_put_n.simps) (simp add: x Let_def)
  qed
  show ?thesis
  proof (cases "refcount x = 1")
    case True
    then have "freeable ?st ob" using fr d(3) freeable_upd [OF x, of ?x] by simp
    from free_object_ok [OF d(1) f _ this] True obtain st' where
      "free_object_internal ?st ob = Some st'" "cap_inv st' (H(ob := H ob - 1))" "caps st' = caps ?st" "shrinks ?st st'"
      "objects st' ob = None" by auto
    then show ?thesis using unf True d(2,3) shrinks_trans [OF sh] by auto
  next
    case False
    then show ?thesis using unf d sh f by auto
  qed
qed

section \<open>Capability operations\<close>

lemma mset_insert_after: "x \<in> set xs \<Longrightarrow> mset (insert_after x y xs) = add_mset y (mset xs)"
  by (induction xs) auto

lemma free_after_alloc:
  assumes "table_inv t1 M (insert e {})" "e \<notin> dom M"
  shows "\<exists>t2. free_slot_id t1 (int e) = Some t2 \<and> table_inv t2 M {}"
proof -
  obtain t2 where "free_slot_id t1 (int e) = Some t2" "table_inv t2 (M(e := None)) (insert e {} - {e})"
    using free_slot_id_ok [OF assms(1), of e] by auto
  moreover have "M(e := None) = M" using assms(2) by auto
  ultimately show ?thesis by simp
qed

lemma same_table_inv:
  assumes inv: "cap_inv st H" and g: "groups st g = Some grp" and t: "table_inv t (tbl_map (slot_tbl grp)) {}"
    and st': "objects st' = objects st" "slot_mem st' = slot_mem st" "pmos st' = pmos st" "next_obj st' = next_obj st"
      "next_slot st' = next_slot st" "groups st' = (groups st)(g \<mapsto> grp\<lparr>slot_tbl := t\<rparr>)"
  shows "cap_inv st' H" "caps st' = caps st"
proof -
  have m: "grp_map st' = grp_map st" using g tbl_map_eq [OF t] by (simp add: grp_map_def fun_eq_iff st')
  show c: "caps st' = caps st" by (simp add: caps_def fun_eq_iff st' m)
  have o: "pmos_of st' = pmos_of st" "psize st' = psize st" by (simp_all add: pmos_of_def owner_of_def psize_def fun_eq_iff st')
  have gn: "groups st' h = None \<longleftrightarrow> groups st h = None" for h using g by (simp add: st')
  note parts = cap_inv_dest [OF inv]
  show "cap_inv st' H"
  proof (rule cap_inv_parts)
    show "tables_ok st'" using parts(1) g t tbl_map_eq [OF t] unfolding tables_ok_def st' by auto
    show "slots_ok st'" using parts(2) unfolding slots_ok_def st' m by simp
    show "objs_ok st' H" using parts(3) unfolding objs_ok_def o st' by simp
    show "pmos_ok st'" using parts(4) gn unfolding pmos_ok_def st'(1,3) by simp
    show "self_ok st'" using parts(5) m c by (simp add: self_ok_def)
    show "heap_ok st'" using parts(6) g unfolding heap_ok_def o st' by auto
  qed
qed

lemma caps_grp_map: "cap_inv st H \<Longrightarrow> caps st g i = None \<longleftrightarrow> grp_map st g i = None"
  using cap_invD(3) [of st H g i] by (cases "grp_map st g i") (auto simp: caps_def)

text \<open>The smallest number that a group does not use.\<close>

definition least_free :: "cap_state \<Rightarrow> nat \<Rightarrow> nat \<Rightarrow> bool" where
  "least_free st g e \<longleftrightarrow> caps st g e = None \<and> (\<forall>i < e. caps st g i \<noteq> None)"

definition grows :: "cap_state \<Rightarrow> cap_state \<Rightarrow> nat \<Rightarrow> bool" where
  "grows st st' ob \<longleftrightarrow> next_obj st' = next_obj st \<and> pmos st' = pmos st \<and>
     (\<forall>ob'. map_option obj_type (objects st' ob') = map_option obj_type (objects st ob')) \<and>
     threads st' = threads st \<and> (\<forall>ob'. ob' \<noteq> ob \<longrightarrow> objects st' ob' = objects st ob') \<and>
     (\<forall>h. map_option badge (groups st' h) = map_option badge (groups st h))"

lemma cap_alloc_ok:
  assumes inv: "cap_inv st H" and mem: "small_memory alloc_ok" and g: "groups st g = Some grp"
    and x: "objects st ob = Some x" "refcount x = 0" and self: "(\<exists>i. caps st g i \<noteq> None) \<or> ob = g"
  shows "\<exists>st'. cap_alloc alloc_ok st g ob = Some (- ENOMEM, st') \<and> cap_inv st' H \<and> caps st' = caps st \<and> objects st' = objects st \<or>
    (\<exists>e. cap_alloc alloc_ok st g ob = Some (int e, st') \<and> cap_inv st' H \<and> least_free st g e \<and>
       caps st' = (caps st)(g := (caps st g)(e \<mapsto> ob)) \<and> grows st st' ob)"
proof -
  let ?M = "tbl_map (slot_tbl grp)"
  note t = cap_invD(1) [OF inv g]
  from alloc_slot_id_ok [OF t mem] show ?thesis
  proof (elim disjE exE conjE)
    assume "alloc_slot_id alloc_ok (slot_tbl grp) = Some (- ENOMEM, slot_tbl grp)"
    then have "cap_alloc alloc_ok st g ob = Some (- ENOMEM, upd_group st g grp)" by (simp add: cap_alloc_def g ENOMEM_def)
    moreover have "upd_group st g grp = st" using g by (simp add: upd_group_def fun_upd_idem)
    ultimately show ?thesis using inv by auto
  next
    fix e t1 assume a: "alloc_slot_id alloc_ok (slot_tbl grp) = Some (int e, t1)" "table_inv t1 ?M (insert e {})"
      "e \<notin> dom ?M \<union> {}" "\<forall>i < e. i \<in> dom ?M \<union> {}"
    then have e: "?M e = None" "\<And>i. i < e \<Longrightarrow> ?M i \<noteq> None" by auto
    have lf: "least_free st g e" using e g caps_grp_map [OF inv, of g] by (auto simp: least_free_def)
    show ?thesis
    proof (cases "alloc_ok SLOT_BYTES")
      case False
      obtain t2 where t2: "free_slot_id t1 (int e) = Some t2" "table_inv t2 ?M {}"
        using free_after_alloc [OF a(2)] e(1) by auto
      have "cap_inv (upd_group st g (grp\<lparr>slot_tbl := t2\<rparr>)) H" "caps (upd_group st g (grp\<lparr>slot_tbl := t2\<rparr>)) = caps st"
        by (rule same_table_inv [OF inv g t2(2)]; simp add: upd_group_def)+
      moreover have "cap_alloc alloc_ok st g ob = Some (- ENOMEM, upd_group st g (grp\<lparr>slot_tbl := t2\<rparr>))"
        using False a(1) t2(1) by (simp add: cap_alloc_def g)
      moreover have "objects (upd_group st g (grp\<lparr>slot_tbl := t2\<rparr>)) = objects st" by (simp add: upd_group_def)
      ultimately show ?thesis by blast
    next
      case True
      obtain t2 where t2: "install_slot t1 (int e) (next_slot st) = Some t2" "table_inv t2 (?M(e \<mapsto> next_slot st)) {}"
        using install_slot_ok [OF a(2), of e "next_slot st"] by auto
      let ?st1 = "upd_object (st\<lparr>slot_mem := (slot_mem st)(next_slot st \<mapsto>
                          \<lparr>slot_id = int e, slot_group = g, isvalid = True, slot_object = ob\<rparr>),
                        next_slot := next_slot st + 1\<rparr>) ob (x\<lparr>copies := next_slot st # copies x, refcount := 1\<rparr>)"
      let ?st' = "upd_group ?st1 g (grp\<lparr>slot_tbl := t2\<rparr>)"
      have "cap_alloc alloc_ok st g ob = Some (int e, ?st')"
        using True a(1) t2(1) x by (simp add: cap_alloc_def g Let_def)
      moreover have s: "(\<exists>i. ?M i \<noteq> None) \<or> e = 0 \<and> ob = g"
        using self e(2) [of 0] caps_grp_map [OF inv, of g] g by (cases "e = 0") auto
      have "cap_inv ?st' H" "caps ?st' = (caps st)(g := (caps st g)(e \<mapsto> ob))"
        by (rule add_slot_inv [OF inv g x(1) t2(2) e(1) refl, of "next_slot st # copies x" 1];
            use s x(2) in \<open>simp add: upd_group_def upd_object_def\<close>)+
      moreover have "grows st ?st' ob" using x(1) g by (auto simp: grows_def upd_group_def upd_object_def)
      ultimately show ?thesis using lf by blast
    qed
  qed
qed

text \<open>Looking a number up: the object it names, if any.\<close>

definition cap_lookup :: "cap_state \<Rightarrow> nat \<Rightarrow> int \<Rightarrow> nat option" where
  "cap_lookup st g sid = (if sid < 0 then None else caps st g (nat sid))"

lemma cap_lookupE:
  assumes inv: "cap_inv st H" and l: "cap_lookup st g sid = Some ob"
  obtains grp s sl x where "groups st g = Some grp" "0 \<le> sid" "tbl_map (slot_tbl grp) (nat sid) = Some s"
    "slot_mem st s = Some sl" "isvalid sl" "slot_id sl = sid" "slot_group sl = g" "slot_object sl = ob"
    "objects st ob = Some x" "s \<in> set (copies x)"
proof -
  from l obtain s sl where s: "0 \<le> sid" "grp_map st g (nat sid) = Some s" "slot_mem st s = Some sl" "slot_object sl = ob"
    by (auto simp: cap_lookup_def caps_def bind_eq_Some_conv split: if_splits)
  then obtain grp where grp: "groups st g = Some grp" by (auto simp: grp_map_def split: option.splits)
  have "slot_id sl = sid" "slot_group sl = g" using cap_invD(3) [OF inv s(2)] s(1,3) by auto
  then show thesis using that s grp cap_invD(4) [OF inv s(3)] by auto
qed

lemma cap_lookup_None:
  assumes inv: "cap_inv st H" and g: "groups st g = Some grp"
  shows "cap_lookup st g sid = None \<longleftrightarrow> get_slot (slot_tbl grp) sid = None"
  using caps_grp_map [OF inv, of g "nat sid"] g get_slot_ok [OF cap_invD(1) [OF inv g], of sid] by (simp add: cap_lookup_def)

lemma add_count:
  assumes inv: "cap_inv st H" and x: "objects st ob = Some x" and b: "refs st H ob + 1 < 2 ^ 64"
  shows "cap_inv (upd_object st ob (x\<lparr>refcount := refcount x + 1\<rparr>)) (H(ob := H ob + 1))"
    "caps (upd_object st ob (x\<lparr>refcount := refcount x + 1\<rparr>)) = caps st" "unat (refcount x + 1) = unat (refcount x) + 1"
proof -
  have u: "unat (refcount x) = length (copies x) + H ob + card (pmos_of st ob)" using cap_invD(5) [OF inv x] by simp
  then show u1: "unat (refcount x + 1) = unat (refcount x) + 1" using b unat_add64 [of "refcount x" 1] x by (simp add: refs_def)
  show "cap_inv (upd_object st ob (x\<lparr>refcount := refcount x + 1\<rparr>)) (H(ob := H ob + 1))"
    "caps (upd_object st ob (x\<lparr>refcount := refcount x + 1\<rparr>)) = caps st"
    using upd_count_inv [OF inv x, of "x\<lparr>refcount := refcount x + 1\<rparr>" "H ob + 1"] u u1 by simp_all
qed

lemma get_opaque_ok:
  assumes inv: "cap_inv st H" and g: "groups st g = Some grp"
    and b: "\<And>ob. cap_lookup st g sid = Some ob \<Longrightarrow> refs st H ob + 1 < 2 ^ 64"
  shows "case cap_lookup st g sid of
      None \<Rightarrow> get_opaque st g sid ty = Some (None, st)
    | Some ob \<Rightarrow> \<exists>x. objects st ob = Some x \<and>
        (if ty = None \<or> ty = Some (obj_type x)
         then get_opaque st g sid ty = Some (Some ob, upd_object st ob (x\<lparr>refcount := refcount x + 1\<rparr>)) \<and>
           cap_inv (upd_object st ob (x\<lparr>refcount := refcount x + 1\<rparr>)) (H(ob := H ob + 1)) \<and>
           caps (upd_object st ob (x\<lparr>refcount := refcount x + 1\<rparr>)) = caps st
         else get_opaque st g sid ty = Some (None, st))"
proof (cases "cap_lookup st g sid")
  case None
  then have "sid < 0 \<or> tbl_map (slot_tbl grp) (nat sid) = None"
    using caps_grp_map [OF inv, of g "nat sid"] g by (simp add: cap_lookup_def split: if_splits)
  then have "is_valid_slot_id (slot_tbl grp) sid = Some False" using is_valid_slot_id_ok [OF cap_invD(1) [OF inv g], of sid] by auto
  then show ?thesis using None g by (simp add: get_opaque_def)
next
  case (Some ob)
  then obtain s sl x where s: "0 \<le> sid" "tbl_map (slot_tbl grp) (nat sid) = Some s" "slot_mem st s = Some sl" "isvalid sl"
    "slot_object sl = ob" "objects st ob = Some x"
    by (rule cap_lookupE [OF inv]) (use g in auto)
  have "is_valid_slot_id (slot_tbl grp) sid = Some True" using is_valid_slot_id_ok [OF cap_invD(1) [OF inv g], of sid] s by simp
  moreover have "get_slot (slot_tbl grp) sid = Some s" using get_slot_ok [OF cap_invD(1) [OF inv g], of sid] s by simp
  ultimately have "get_opaque st g sid ty = (if ty = None \<or> ty = Some (obj_type x)
      then Some (Some ob, upd_object st ob (x\<lparr>refcount := refcount x + 1\<rparr>)) else Some (None, st))"
    using s g by (simp add: get_opaque_def)
  then show ?thesis using Some s(6) add_count(1,2) [OF inv s(6) b [OF Some]] by auto
qed

lemma cap_copy_full:
  assumes "groups st dest = Some dgrp" "alloc_slot_id alloc_ok (slot_tbl dgrp) = Some (- ENOMEM, t1)"
  shows "cap_copy alloc_ok st src dest sid = None"
proof -
  have "free_slot_id t1 (- 12) = None" "install_slot t1 (- 12) s = None" for s
    by (simp_all add: free_slot_id_def install_slot_def bind_eq_None_conv)
  then show ?thesis using assms
    by (simp add: cap_copy_def ENOMEM_def Let_def bind_eq_None_conv split: option.split)
qed

lemma cap_copy_ok:
  assumes inv: "cap_inv st H" and mem: "small_memory alloc_ok" and d: "groups st dest = Some dgrp"
    and sg: "groups st src = Some sgrp" and room: "alloc_slot_id alloc_ok (slot_tbl dgrp) \<noteq> Some (- ENOMEM, slot_tbl dgrp)"
    and self: "(\<exists>i. caps st dest i \<noteq> None) \<or> cap_lookup st src sid = Some dest"
    and b: "\<And>ob. cap_lookup st src sid = Some ob \<Longrightarrow> refs st H ob + 1 < 2 ^ 64"
  shows "\<exists>st'.
     (if \<not> alloc_ok SLOT_BYTES
      then cap_copy alloc_ok st src dest sid = Some (- ENOMEM, st') \<and> cap_inv st' H \<and> caps st' = caps st \<and> objects st' = objects st
      else case cap_lookup st src sid of
        None \<Rightarrow> cap_copy alloc_ok st src dest sid = Some (- ECAPBILITY, st') \<and> cap_inv st' H \<and> caps st' = caps st \<and> objects st' = objects st
      | Some ob \<Rightarrow> \<exists>e. cap_copy alloc_ok st src dest sid = Some (int e, st') \<and> cap_inv st' H \<and> least_free st dest e \<and>
          caps st' = (caps st)(dest := (caps st dest)(e \<mapsto> ob)) \<and> grows st st' ob)"
proof -
  let ?M = "tbl_map (slot_tbl dgrp)"
  from alloc_slot_id_ok [OF cap_invD(1) [OF inv d] mem] room obtain e t1 where
    a: "alloc_slot_id alloc_ok (slot_tbl dgrp) = Some (int e, t1)" "table_inv t1 ?M (insert e {})" "e \<notin> dom ?M \<union> {}"
      "\<forall>i < e. i \<in> dom ?M \<union> {}" by blast
  then have e: "?M e = None" "\<And>i. i < e \<Longrightarrow> ?M i \<noteq> None" by auto
  have lf: "least_free st dest e" using e d caps_grp_map [OF inv, of dest] by (auto simp: least_free_def)
  obtain t2 where t2: "free_slot_id t1 (int e) = Some t2" "table_inv t2 ?M {}" using free_after_alloc [OF a(2)] e(1) by auto
  let ?st0 = "upd_group st dest (dgrp\<lparr>slot_tbl := t1\<rparr>)"
  let ?stf = "upd_group ?st0 dest (dgrp\<lparr>slot_tbl := t2\<rparr>)"
  have f: "cap_inv ?stf H" "caps ?stf = caps st"
    by (rule same_table_inv [OF inv d t2(2)]; simp add: upd_group_def)+
  have fo: "objects ?stf = objects st" by (simp add: upd_group_def)
  obtain sgrp0 where sg0: "groups ?st0 src = Some sgrp0" "get_slot (slot_tbl sgrp0) sid = get_slot (slot_tbl sgrp) sid"
    using sg d get_slot_ok [OF a(2), of sid] get_slot_ok [OF cap_invD(1) [OF inv d], of sid]
    by (cases "src = dest") (auto simp: upd_group_def)
  show ?thesis
  proof (cases "alloc_ok SLOT_BYTES")
    case False
    then show ?thesis using f fo a(1) t2(1) d by (simp add: cap_copy_def Let_def)
  next
    case True
    show ?thesis
    proof (cases "cap_lookup st src sid")
      case None
      then have "get_slot (slot_tbl sgrp0) sid = None" using cap_lookup_None [OF inv sg] sg0 by simp
      then show ?thesis using True None f fo a(1) t2(1) d sg0(1) by (simp add: cap_copy_def Let_def)
    next
      case (Some ob)
      then obtain s sl x where s: "0 \<le> sid" "tbl_map (slot_tbl sgrp) (nat sid) = Some s" "slot_mem st s = Some sl" "isvalid sl"
        "slot_object sl = ob" "objects st ob = Some x" "s \<in> set (copies x)"
        by (rule cap_lookupE [OF inv]) (use sg in auto)
      have gs: "get_slot (slot_tbl sgrp0) sid = Some s" using get_slot_ok [OF cap_invD(1) [OF inv sg], of sid] s sg0 by simp
      obtain t3 where t3: "install_slot t1 (int e) (next_slot st) = Some t3" "table_inv t3 (?M(e \<mapsto> next_slot st)) {}"
        using install_slot_ok [OF a(2), of e "next_slot st"] by auto
      let ?x = "x\<lparr>copies := insert_after s (next_slot st) (copies x), refcount := refcount x + 1\<rparr>"
      let ?st1 = "upd_object (?st0\<lparr>slot_mem := (slot_mem st)(next_slot st \<mapsto>
                          \<lparr>slot_id = int e, slot_group = dest, isvalid = True, slot_object = ob\<rparr>),
                        next_slot := next_slot st + 1\<rparr>) ob ?x"
      let ?st' = "upd_group ?st1 dest (dgrp\<lparr>slot_tbl := t3\<rparr>)"
      have "cap_copy alloc_ok st src dest sid = Some (int e, ?st')"
        using True a(1) t3(1) s d sg0(1) gs by (simp add: cap_copy_def Let_def)
      moreover have sf: "(\<exists>i. ?M i \<noteq> None) \<or> e = 0 \<and> ob = dest"
        using self Some e(2) [of 0] caps_grp_map [OF inv, of dest] d by (cases "e = 0") auto
      have "cap_inv ?st' H" "caps ?st' = (caps st)(dest := (caps st dest)(e \<mapsto> ob))"
        by (rule add_slot_inv [OF inv d s(6) t3(2) e(1) refl, of "insert_after s (next_slot st) (copies x)" "refcount x + 1"];
            use sf mset_insert_after [OF s(7)] add_count(3) [OF inv s(6) b [OF Some]] in \<open>simp add: upd_group_def upd_object_def\<close>)+
      moreover have "grows st ?st' ob" using s(6) d by (auto simp: grows_def upd_group_def upd_object_def)
      ultimately show ?thesis using True Some lf by auto
    qed
  qed
qed

text \<open>What \<open>freeable\<close> depends on, besides the types of the objects.\<close>

definition frame :: "cap_state \<Rightarrow> cap_state \<Rightarrow> bool" where
  "frame st st' \<longleftrightarrow> pmos st' = pmos st \<and> threads st' = threads st \<and>
     (\<forall>h. map_option thread_list (groups st' h) = map_option thread_list (groups st h))"

lemma frame_trans: "frame a b \<Longrightarrow> frame b c \<Longrightarrow> frame a c" by (simp add: frame_def)

lemma freeable_frame:
  assumes "frame st st'" "objects st ob = Some x" "objects st' ob = Some x'" "obj_type x' = obj_type x"
  shows "freeable st' ob = freeable st ob"
proof -
  have f: "pmos st' = pmos st" "threads st' = threads st"
    "\<And>h. map_option thread_list (groups st' h) = map_option thread_list (groups st h)" using assms(1) by (simp_all add: frame_def)
  have e: "(case groups st' h of None \<Rightarrow> False | Some grp \<Rightarrow> ob \<in> set (thread_list grp)) =
      (case groups st h of None \<Rightarrow> False | Some grp \<Rightarrow> ob \<in> set (thread_list grp))" for h
    using f(3) [of h] by (cases "groups st h"; cases "groups st' h") auto
  have n: "groups st' ob = None \<longleftrightarrow> groups st ob = None" using f(3) [of ob] by (metis option.map_disc_iff)
  show ?thesis unfolding freeable_def f(1,2) e n using assms(2-4) by simp
qed

text \<open>Removing one capability, up to the point where the object may be freed.\<close>

lemma cap_free_step:
  assumes inv: "cap_inv st H" and l: "cap_lookup st g sid = Some ob"
    and zero: "sid = 0 \<longrightarrow> (\<forall>i. i \<noteq> 0 \<longrightarrow> caps st g i = None)"
  shows "\<exists>s x st1. objects st ob = Some x \<and> s \<in> set (copies x) \<and> grp_map st g (nat sid) = Some s \<and>
    cap_free st g sid = (if refcount x = 1 then free_object_internal st1 ob \<bind> (\<lambda>st2. Some (0, st2)) else Some (0, st1)) \<and>
    (refcount x = 1 \<longleftrightarrow> refs st H ob = 1) \<and> cap_inv st1 H \<and> caps st1 = (caps st)(g := (caps st g)(nat sid := None)) \<and>
    objects st1 = (objects st)(ob \<mapsto> x\<lparr>copies := remove1 s (copies x), refcount := refcount x - 1\<rparr>) \<and>
    slot_mem st1 = (slot_mem st)(s := None) \<and> frame st st1 \<and> next_obj st1 = next_obj st"
proof -
  from l obtain grp s sl x where s: "groups st g = Some grp" "0 \<le> sid" "tbl_map (slot_tbl grp) (nat sid) = Some s"
    "slot_mem st s = Some sl" "isvalid sl" "slot_object sl = ob" "objects st ob = Some x" "s \<in> set (copies x)"
    by (rule cap_lookupE [OF inv])
  note t = cap_invD(1) [OF inv s(1)]
  have gs: "get_slot (slot_tbl grp) sid = Some s" using get_slot_ok [OF t, of sid] s by simp
  obtain t1 where t1: "free_slot_id (slot_tbl grp) sid = Some t1" "table_inv t1 ((tbl_map (slot_tbl grp))(nat sid := None)) {}"
    using free_slot_id_ok [OF t, of "nat sid"] s(2,3) by auto
  let ?x = "x\<lparr>copies := remove1 s (copies x), refcount := refcount x - 1\<rparr>"
  let ?st1 = "upd_object ((upd_group st g (grp\<lparr>slot_tbl := t1\<rparr>))\<lparr>slot_mem := (slot_mem st)(s := None)\<rparr>) ob ?x"
  have u: "unat (refcount x) = length (copies x) + H ob + card (pmos_of st ob)" using cap_invD(5) [OF inv s(7)] by simp
  have pos: "1 \<le> unat (refcount x)" using u length_pos_if_in_set [OF s(8)] by linarith
  then have r: "unat (refcount x - 1) = unat (refcount x) - 1" using unat_sub64 [of 1 "refcount x"] by simp
  have z: "nat sid = 0 \<longrightarrow> dom (tbl_map (slot_tbl grp)) = {0}"
    using zero s(1-3) caps_grp_map [OF inv, of g] by (auto simp: dom_def)
  have "cap_inv ?st1 H" "caps ?st1 = (caps st)(g := (caps st g)(nat sid := None))"
    by (rule remove_slot_inv [OF inv s(1,4), of x t1 "nat sid" "refcount x - 1"];
        use s t1 r z in \<open>simp add: upd_group_def upd_object_def\<close>)+
  moreover have "cap_free st g sid = (if refcount x = 1 then free_object_internal ?st1 ob \<bind> (\<lambda>st2. Some (0, st2)) else Some (0, ?st1))"
    using s gs t1(1) by (simp add: cap_free_def Let_def)
  moreover have "refcount x = 1 \<longleftrightarrow> refs st H ob = 1"
  proof -
    have "refcount x = 1 \<longleftrightarrow> unat (refcount x) = 1" by (metis unsigned_1 unsigned_word_eqI)
    then show ?thesis using u s(7) by (simp add: refs_def)
  qed
  moreover have "frame st ?st1" using s(1) by (simp add: frame_def upd_group_def upd_object_def)
  moreover have "objects ?st1 = (objects st)(ob \<mapsto> ?x)" "slot_mem ?st1 = (slot_mem st)(s := None)" "next_obj ?st1 = next_obj st"
    by (simp_all add: upd_group_def upd_object_def)
  ultimately show ?thesis using s by auto
qed

lemma cap_free_ok:
  assumes inv: "cap_inv st H" and l: "cap_lookup st g sid = Some ob"
    and zero: "sid = 0 \<longrightarrow> (\<forall>i. i \<noteq> 0 \<longrightarrow> caps st g i = None)" and fr: "refs st H ob = 1 \<longrightarrow> freeable st ob"
  shows "\<exists>st'. cap_free st g sid = Some (0, st') \<and> cap_inv st' H \<and> caps st' = (caps st)(g := (caps st g)(nat sid := None)) \<and>
    (objects st' ob = None \<longleftrightarrow> refs st H ob = 1)"
proof -
  from cap_free_step [OF inv l zero] obtain s x st1 where s: "objects st ob = Some x"
    "cap_free st g sid = (if refcount x = 1 then free_object_internal st1 ob \<bind> (\<lambda>st2. Some (0, st2)) else Some (0, st1))"
    "refcount x = 1 \<longleftrightarrow> refs st H ob = 1" "cap_inv st1 H" "caps st1 = (caps st)(g := (caps st g)(nat sid := None))"
    "objects st1 = (objects st)(ob \<mapsto> x\<lparr>copies := remove1 s (copies x), refcount := refcount x - 1\<rparr>)" "frame st st1" by blast
  let ?x = "x\<lparr>copies := remove1 s (copies x), refcount := refcount x - 1\<rparr>"
  have x1: "objects st1 ob = Some ?x" using s(6) by simp
  show ?thesis
  proof (cases "refcount x = 1")
    case True
    have "freeable st1 ob" using fr True s(3) freeable_frame [OF s(7,1) x1] by simp
    from free_object_ok [OF s(4) x1 _ this] True obtain st' where
      "free_object_internal st1 ob = Some st'" "cap_inv st' H" "caps st' = caps st1" "objects st' ob = None" by auto
    then show ?thesis using True s by simp
  next
    case False
    then show ?thesis using s x1 by simp
  qed
qed

lemma cap_free_invalid:
  assumes inv: "cap_inv st H" and g: "groups st g = Some grp" and l: "cap_lookup st g sid = None"
  shows "cap_free st g sid = Some (- ECAPBILITY, st)"
  using cap_lookup_None [OF inv g] l g by (simp add: cap_free_def)

text \<open>Removing all capabilities of an object that is kept by a reference.\<close>

lemma free_copies_ok:
  assumes "cap_inv st H" "objects st ob = Some x" "copies x = cs" "0 < H ob"
    "\<forall>i. i \<noteq> 0 \<longrightarrow> caps st ob i = None"
  shows "\<exists>st' x'. free_copies st cs = Some st' \<and> cap_inv st' H \<and> frame st st' \<and> objects st' ob = Some x' \<and>
    obj_type x' = obj_type x \<and> copies x' = [] \<and>
    caps st' = (\<lambda>h i. if caps st h i = Some ob then None else caps st h i)"
  using assms
proof (induction cs arbitrary: st x)
  case Nil
  have "caps st h i \<noteq> Some ob" for h i
  proof
    assume "caps st h i = Some ob"
    then obtain s sl where "slot_mem st s = Some sl" "slot_object sl = ob" by (auto simp: caps_def bind_eq_Some_conv)
    then show False using cap_invD(4) [OF Nil.prems(1)] Nil.prems(2,3) by fastforce
  qed
  then show ?case using Nil by (auto simp: frame_def)
next
  case (Cons s cs)
  note inv = Cons.prems(1)
  obtain sl where sl: "slot_mem st s = Some sl" "slot_object sl = ob" using cap_invD(6) [OF inv Cons.prems(2)] Cons.prems(3) by auto
  have gm: "grp_map st (slot_group sl) (nat (slot_id sl)) = Some s" "0 \<le> slot_id sl" using cap_invD(4) [OF inv sl(1)] by auto
  then have l: "cap_lookup st (slot_group sl) (slot_id sl) = Some ob" using sl by (simp add: cap_lookup_def caps_def)
  have zero: "slot_id sl = 0 \<longrightarrow> (\<forall>i. i \<noteq> 0 \<longrightarrow> caps st (slot_group sl) i = None)"
  proof
    assume "slot_id sl = 0"
    moreover have "caps st (slot_group sl) 0 = Some (slot_group sl)" using cap_invD(9) [OF inv] gm(1) by blast
    ultimately have "slot_group sl = ob" using l by (simp add: cap_lookup_def)
    then show "\<forall>i. i \<noteq> 0 \<longrightarrow> caps st (slot_group sl) i = None" using Cons.prems(5) by simp
  qed
  from cap_free_step [OF inv l zero] obtain s1 y st1 where st1: "objects st ob = Some y"
    "grp_map st (slot_group sl) (nat (slot_id sl)) = Some s1"
    "cap_free st (slot_group sl) (slot_id sl) =
       (if refcount y = 1 then free_object_internal st1 ob \<bind> (\<lambda>st2. Some (0, st2)) else Some (0, st1))"
    "refcount y = 1 \<longleftrightarrow> refs st H ob = 1" "cap_inv st1 H"
    "caps st1 = (caps st)(slot_group sl := (caps st (slot_group sl))(nat (slot_id sl) := None))"
    "objects st1 = (objects st)(ob \<mapsto> y\<lparr>copies := remove1 s1 (copies y), refcount := refcount y - 1\<rparr>)" "frame st st1" by blast
  have "y = x" "s1 = s" using st1(1,2) Cons.prems(2) gm(1) by simp_all
  have "refs st H ob \<noteq> 1" using Cons.prems(2-4) by (simp add: refs_def)
  then have cf: "cap_free st (slot_group sl) (slot_id sl) = Some (0, st1)" using st1(3,4) by simp
  have x1: "objects st1 ob = Some (x\<lparr>copies := remove1 s (copies x), refcount := refcount x - 1\<rparr>)"
    using st1(7) \<open>y = x\<close> \<open>s1 = s\<close> by simp
  have c: "caps st1 h i = (if h = slot_group sl \<and> i = nat (slot_id sl) then None else caps st h i)" for h i
    using st1(6) by simp
  have dr: "\<forall>i. i \<noteq> 0 \<longrightarrow> caps st1 ob i = None" using Cons.prems(5) c by simp
  from Cons.IH [OF st1(5) x1 _ Cons.prems(4) dr] Cons.prems(3) obtain st' x' where
    st': "free_copies st1 cs = Some st'" "cap_inv st' H" "frame st1 st'" "objects st' ob = Some x'" "obj_type x' = obj_type x"
      "copies x' = []" "caps st' = (\<lambda>h i. if caps st1 h i = Some ob then None else caps st1 h i)" by auto
  moreover have "caps st' = (\<lambda>h i. if caps st h i = Some ob then None else caps st h i)"
    using st'(7) c l gm(2) by (auto simp: fun_eq_iff cap_lookup_def split: if_splits)
  ultimately show ?case using cf sl(1) frame_trans [OF st1(8) st'(3)] by auto
qed

lemma cap_free_all_ok:
  assumes inv: "cap_inv st H" and l: "cap_lookup st g sid = Some ob" and b: "refs st H ob + 1 < 2 ^ 64"
    and drained: "\<forall>i. i \<noteq> 0 \<longrightarrow> caps st ob i = None" and fr: "H ob = 0 \<longrightarrow> pmos_of st ob = {} \<longrightarrow> freeable st ob"
  shows "\<exists>st'. cap_free_all st g sid = Some (0, st') \<and> cap_inv st' H \<and>
    caps st' = (\<lambda>h i. if caps st h i = Some ob then None else caps st h i) \<and>
    (objects st' ob = None \<longleftrightarrow> H ob = 0 \<and> pmos_of st ob = {})"
proof -
  obtain grp where g: "groups st g = Some grp" using l by (rule cap_lookupE [OF inv])
  let ?H = "H(ob := H ob + 1)"
  from get_opaque_ok [OF inv g, of sid None] l b obtain x where x: "objects st ob = Some x"
    and go: "get_opaque st g sid None = Some (Some ob, upd_object st ob (x\<lparr>refcount := refcount x + 1\<rparr>))"
    and inv1: "cap_inv (upd_object st ob (x\<lparr>refcount := refcount x + 1\<rparr>)) ?H"
    and c1: "caps (upd_object st ob (x\<lparr>refcount := refcount x + 1\<rparr>)) = caps st" by auto
  let ?x = "x\<lparr>refcount := refcount x + 1\<rparr>"
  let ?st1 = "upd_object st ob ?x"
  have x1: "objects ?st1 ob = Some ?x" and f1: "frame st ?st1" by (simp_all add: upd_object_def frame_def)
  have "0 < ?H ob" "\<forall>i. i \<noteq> 0 \<longrightarrow> caps ?st1 ob i = None" using drained c1 by simp_all
  from free_copies_ok [OF inv1 x1 refl this, unfolded c1] obtain st2 x2 where
    st2: "free_copies ?st1 (copies ?x) = Some st2" "cap_inv st2 ?H" "frame ?st1 st2" "objects st2 ob = Some x2"
      "obj_type x2 = obj_type ?x" "copies x2 = []" "caps st2 = (\<lambda>h i. if caps st h i = Some ob then None else caps st h i)" by blast
  note f2 = frame_trans [OF f1 st2(3)]
  have po: "pmos_of st2 = pmos_of st" using f2 by (simp add: frame_def pmos_of_def owner_of_def fun_eq_iff)
  have fr2: "freeable st2 ob = freeable st ob" using freeable_frame [OF f2 x st2(4)] st2(5) by simp
  have one: "refs st2 ?H ob = 1 \<longleftrightarrow> H ob = 0 \<and> pmos_of st ob = {}"
    using st2(4,6) po pmos_of_finite [OF inv, of ob] by (auto simp: refs_def)
  have "?H(ob := ?H ob - 1) = H" by auto
  with obj_put_ok [OF st2(2), of ob] one fr fr2 obtain st3 where st3: "obj_put st2 ob = Some st3" "cap_inv st3 H"
    "caps st3 = caps st2" "objects st3 ob = None \<longleftrightarrow> refs st2 ?H ob = 1" by fastforce
  have "cap_free_all st g sid = Some (0, st3)" using go x1 st2(1) st3(1) by (simp add: cap_free_all_def)
  then show ?thesis using st3 st2(7) one by simp
qed

end
