(* ===== verification/Cap_Group.thy ===== *)
theory Cap_Group
  imports Capability_Correct
begin

text \<open>
  The system calls on capability groups (\<open>kernel/object/cap_group.c\<close>, \<open>object/capability.c\<close>): creating a
  process' group, moving capabilities to another group, revoking them; with the address check of
  \<open>include/mm/uaccess.h\<close> and the authorisation of \<open>syscall/syscall_hooks.c\<close>.

  What \<open>copy_from_user\<close> delivers is an argument: \<open>None\<close> is a fault, which the code sees as a non-zero result.
  \<open>cur\<close> is the group of the current thread. \<open>vmspace_init\<close> only fills in the new address space, which is not
  part of this state.
\<close>

section \<open>User addresses and authorisation\<close>



definition check_user_addr_range :: "u64 \<Rightarrow> u64 \<Rightarrow> int" where
  "check_user_addr_range start len = (if KBASE \<le> start + len then - 1 else 0)"

definition FSM_BADGE :: int where "FSM_BADGE = 2"
definition PROCMGR_BADGE :: int where "PROCMGR_BADGE = ROOT_CAP_GROUP_BADGE"
definition DRIVER_BADGE_START :: int where "DRIVER_BADGE_START = 100"
definition APP_BADGE_START :: int where "APP_BADGE_START = 200"

definition hook_sys_create_device_pmo :: "int \<Rightarrow> int" where "hook_sys_create_device_pmo b = 0"

definition hook_sys_get_phys_addr :: "int \<Rightarrow> int" where
  "hook_sys_get_phys_addr b = (if APP_BADGE_START \<le> b \<or> b < DRIVER_BADGE_START then - EPERM else 0)"

definition hook_sys_create_cap_group :: "int \<Rightarrow> int" where
  "hook_sys_create_cap_group b =
     (if b \<noteq> ROOT_CAP_GROUP_BADGE \<and> b \<noteq> FSM_BADGE \<and> b \<noteq> PROCMGR_BADGE then - EPERM else 0)"

definition hook_sys_register_recycle :: "int \<Rightarrow> int" where
  "hook_sys_register_recycle b = (if b \<noteq> PROCMGR_BADGE then - EPERM else 0)"

definition hook_sys_cap_group_recycle :: "int \<Rightarrow> int" where
  "hook_sys_cap_group_recycle b = (if b \<noteq> PROCMGR_BADGE then - EPERM else 0)"

section \<open>Creating a group\<close>

definition cap_group_init :: "(nat \<Rightarrow> bool) \<Rightarrow> cap_state \<Rightarrow> nat \<Rightarrow> nat \<Rightarrow> int \<Rightarrow> cap_state option" where
  "cap_group_init alloc_ok st g sz b =
     do { t \<leftarrow> snd (slot_table_init alloc_ok sz);
          Some (upd_group st g
            \<lparr>slot_tbl = t, thread_list = [], thread_cnt = 0, badge = b, notify_recycler = 0,
             cap_group_name = replicate (MAX_GROUP_NAME_LEN + 1) 0, pid = 0, uuid = replicate 16 0,
             heap_size_limit = - 1, heap_size_used = 0\<rparr>) }"

record cap_group_args =
  arg_badge :: int
  arg_name :: u64
  arg_name_len :: u64
  arg_pcid :: u64
  arg_pid :: int
  arg_puuid :: u64
  arg_heap_size :: u64

definition CAP_GROUP_ARGS_BYTES :: u64 where "CAP_GROUP_ARGS_BYTES = 56"
definition TEE_UUID_BYTES :: u64 where "TEE_UUID_BYTES = 16"

definition clip_name_len :: "u64 \<Rightarrow> nat" where
  "clip_name_len n = (if MAX_GROUP_NAME_LEN < unat n then MAX_GROUP_NAME_LEN else unat n)"

definition name_field :: "nat list \<Rightarrow> nat list" where
  "name_field nm = nm @ replicate (MAX_GROUP_NAME_LEN + 1 - length nm) 0"

text \<open>The three labels of the error path, in their order.\<close>

definition out_free_cap_grp_current :: "cap_state \<Rightarrow> nat \<Rightarrow> int \<Rightarrow> int \<Rightarrow> (int \<times> cap_state) option" where
  "out_free_cap_grp_current st cur cap r = do { (_, st1) \<leftarrow> cap_free st cur cap; st2 \<leftarrow> obj_free st1 None; Some (r, st2) }"

definition out_free_obj_vmspace :: "cap_state \<Rightarrow> nat \<Rightarrow> int \<Rightarrow> nat option \<Rightarrow> int \<Rightarrow> (int \<times> cap_state) option" where
  "out_free_obj_vmspace st cur cap vmspace r = do { st1 \<leftarrow> obj_free st vmspace; out_free_cap_grp_current st1 cur cap r }"

definition fill_new_group :: "(nat \<Rightarrow> bool) \<Rightarrow> (object_type \<Rightarrow> u64) \<Rightarrow> cap_state \<Rightarrow> nat \<Rightarrow> nat \<Rightarrow> int \<Rightarrow>
    u64 \<Rightarrow> (nat \<Rightarrow> nat list option) \<Rightarrow> (int \<times> cap_state) option" where
  "fill_new_group alloc_ok size_of st cur ng cap name_len name_in =
     (case obj_alloc alloc_ok st TYPE_VMSPACE (size_of TYPE_VMSPACE) of
        (None, st1) \<Rightarrow> out_free_obj_vmspace st1 cur cap None (- ENOMEM)
      | (Some vmspace, st1) \<Rightarrow>
          do { (r, st2) \<leftarrow> cap_alloc alloc_ok st1 ng vmspace;
               if r \<noteq> VMSPACE_OBJ_ID then out_free_obj_vmspace st2 cur cap (Some vmspace) (- ECAPBILITY)
               else do {
                 grp \<leftarrow> groups st2 ng;
                 case name_in (clip_name_len name_len) of
                   None \<Rightarrow> out_free_obj_vmspace st2 cur cap (Some vmspace) (- EINVAL)
                 | Some nm \<Rightarrow> Some (cap, upd_group st2 ng (grp\<lparr>notify_recycler := 0, cap_group_name := name_field nm\<rparr>)) } })"

definition sys_create_cap_group :: "(nat \<Rightarrow> bool) \<Rightarrow> (object_type \<Rightarrow> u64) \<Rightarrow> cap_state \<Rightarrow> nat \<Rightarrow> u64 \<Rightarrow>
    cap_group_args option \<Rightarrow> nat list \<Rightarrow> (nat \<Rightarrow> nat list option) \<Rightarrow> (int \<times> cap_state) option" where
  "sys_create_cap_group alloc_ok size_of st cur args_p args_in uuid_in name_in =
     do { cgrp \<leftarrow> groups st cur;
          let r = hook_sys_create_cap_group (badge cgrp);
          if r \<noteq> 0 then Some (r, st)
          else if check_user_addr_range args_p CAP_GROUP_ARGS_BYTES \<noteq> 0 then Some (- EINVAL, st)
          else case args_in of
            None \<Rightarrow> Some (- EINVAL, st)
          | Some args \<Rightarrow>
              if check_user_addr_range (arg_puuid args) TEE_UUID_BYTES \<noteq> 0 then Some (- EINVAL, st)
              else if check_user_addr_range (arg_name args) (arg_name_len args) \<noteq> 0 then Some (- EINVAL, st)
              else case obj_alloc alloc_ok st TYPE_CAP_GROUP (size_of TYPE_CAP_GROUP) of
                (None, st1) \<Rightarrow> Some (- ENOMEM, st1)
              | (Some ng, st1) \<Rightarrow>
                  do { st2 \<leftarrow> cap_group_init alloc_ok st1 ng BASE_OBJECT_NUM (arg_badge args);
                       grp \<leftarrow> groups st2 ng;
                       let st3 = upd_group st2 ng (grp\<lparr>heap_size_limit := arg_heap_size args, pid := arg_pid args,
                                   uuid := (if arg_puuid args \<noteq> 0 then uuid_in else replicate 16 0)\<rparr>);
                       (cap, st4) \<leftarrow> cap_alloc alloc_ok st3 cur ng;
                       if cap < 0 then do { st5 \<leftarrow> obj_free st4 (Some ng); Some (cap, st5) }
                       else do {
                         (r, st5) \<leftarrow> cap_copy alloc_ok st4 cur ng cap;
                         if r \<noteq> CAP_GROUP_OBJ_ID then out_free_cap_grp_current st5 cur cap (- ECAPBILITY)
                         else fill_new_group alloc_ok size_of st5 cur ng cap (arg_name_len args) name_in } } }"

definition create_root_cap_group :: "(nat \<Rightarrow> bool) \<Rightarrow> (object_type \<Rightarrow> u64) \<Rightarrow> cap_state \<Rightarrow> nat list \<Rightarrow> (nat \<times> cap_state) option" where
  "create_root_cap_group alloc_ok size_of st nm =
     (let (p, st1) = obj_alloc alloc_ok st TYPE_CAP_GROUP (size_of TYPE_CAP_GROUP) in
      do { g \<leftarrow> p;
           st2 \<leftarrow> cap_group_init alloc_ok st1 g BASE_OBJECT_NUM ROOT_CAP_GROUP_BADGE;
           (sid, st3) \<leftarrow> cap_alloc alloc_ok st2 g g;
           BUG_ON (sid \<noteq> CAP_GROUP_OBJ_ID);
           let (q, st4) = obj_alloc alloc_ok st3 TYPE_VMSPACE (size_of TYPE_VMSPACE);
           vmspace \<leftarrow> q;
           (sid, st5) \<leftarrow> cap_alloc alloc_ok st4 g vmspace;
           BUG_ON (sid \<noteq> VMSPACE_OBJ_ID);
           grp \<leftarrow> groups st5 g;
           Some (g, upd_group st5 g (grp\<lparr>cap_group_name := name_field (take MAX_GROUP_NAME_LEN nm)\<rparr>)) })"

section \<open>Transfer and revocation\<close>

definition MAX_TRANSFER_NUM :: int where "MAX_TRANSFER_NUM = 16"

fun copy_caps :: "(nat \<Rightarrow> bool) \<Rightarrow> cap_state \<Rightarrow> nat \<Rightarrow> nat \<Rightarrow> int list \<Rightarrow> (int list \<times> cap_state) option" where
  "copy_caps alloc_ok st cur dest [] = Some ([], st)"
| "copy_caps alloc_ok st cur dest (c # cs) =
     do { (r, st1) \<leftarrow> cap_copy alloc_ok st cur dest c;
          (rs, st2) \<leftarrow> copy_caps alloc_ok st1 cur dest cs;
          Some (r # rs, st2) }"

text \<open>
  The result, the numbers written to the user buffer and the state. The buffers are allocated without a
  test: when there is no memory for them the copy goes to \<open>NULL\<close>.
\<close>

definition sys_transfer_caps :: "(nat \<Rightarrow> bool) \<Rightarrow> cap_state \<Rightarrow> nat \<Rightarrow> int \<Rightarrow> u64 \<Rightarrow> int \<Rightarrow> u64 \<Rightarrow> int list option \<Rightarrow> bool \<Rightarrow>
    (int \<times> int list \<times> cap_state) option" where
  "sys_transfer_caps alloc_ok st cur dest_group_cap src_caps_buf nr_caps dst_caps_buf src_in write_ok =
     (let sz = word_of_int (4 * nr_caps) in
      if nr_caps \<le> 0 \<or> MAX_TRANSFER_NUM < nr_caps then Some (- EINVAL, [], st)
      else if check_user_addr_range src_caps_buf sz \<noteq> 0 \<or> check_user_addr_range dst_caps_buf sz \<noteq> 0
      then Some (- EINVAL, [], st)
      else do {
        (obj, st1) \<leftarrow> obj_get st cur dest_group_cap TYPE_CAP_GROUP;
        case obj of
          None \<Rightarrow> Some (- ECAPBILITY, [], st1)
        | Some dest \<Rightarrow> do {
            _ \<leftarrow> (if alloc_ok (unat sz) then Some () else None);
            case src_in of
              None \<Rightarrow> do { st2 \<leftarrow> obj_put st1 dest; Some (- EINVAL, [], st2) }
            | Some src_caps \<Rightarrow> do {
                (dst_caps, st2) \<leftarrow> copy_caps alloc_ok st1 cur dest src_caps;
                st3 \<leftarrow> obj_put st2 dest;
                Some (if write_ok then (0, dst_caps, st3) else (- EINVAL, [], st3)) } } })"



section \<open>New objects and groups\<close>

lemma no_object_no_group: "cap_inv st H \<Longrightarrow> objects st ob = None \<Longrightarrow> groups st ob = None \<and> pmos_of st ob = {} \<and> H ob = 0 \<and> pmos st ob = None"
  using cap_invD(2) [of st H ob] cap_invD(8) [of st H] cap_invD(7) [of st H ob]
  by (cases "groups st ob"; cases "pmos st ob"; fastforce simp: pmos_of_def owner_of_def bind_eq_Some_conv)

lemma add_object_inv:
  assumes inv: "cap_inv st H" and n: "ob = next_obj st"
    and st': "objects st' = (objects st)(ob \<mapsto> \<lparr>obj_type = ty, obj_size = sz, copies = [], refcount = 0\<rparr>)"
      "slot_mem st' = slot_mem st" "groups st' = groups st" "pmos st' = pmos st" "next_obj st' = next_obj st + 1"
      "next_slot st' = next_slot st"
  shows "cap_inv st' H" "caps st' = caps st" "objects st ob = None"
proof -
  show o: "objects st ob = None" using cap_invD(5) [OF inv, of ob] n by (cases "objects st ob") auto
  note no = no_object_no_group [OF inv o]
  have m: "grp_map st' = grp_map st" by (simp add: grp_map_def fun_eq_iff st')
  show c: "caps st' = caps st" by (simp add: caps_def fun_eq_iff st' m)
  have p: "pmos_of st' = pmos_of st" "psize st' = psize st" by (simp_all add: pmos_of_def owner_of_def psize_def fun_eq_iff st')
  have keep: "objects st h = Some x \<Longrightarrow> objects st' h = Some x" for h x using o by (auto simp: st')
  note parts = cap_inv_dest [OF inv]
  show "cap_inv st' H"
  proof (rule cap_inv_parts)
    show "tables_ok st'" using parts(1) keep unfolding tables_ok_def st'(3) by blast
    show "slots_ok st'" using parts(2) keep unfolding slots_ok_def st'(2,6) m by blast
    show "objs_ok st' H" using parts(3) no n unfolding objs_ok_def p st' by (auto intro: less_SucI)
    show "pmos_ok st'" using parts(4) keep unfolding pmos_ok_def st'(3,4) by blast
    show "self_ok st'" using parts(5) m c by (simp add: self_ok_def)
    show "heap_ok st'" using parts(6) unfolding heap_ok_def p st' by simp
  qed
qed

lemma obj_alloc_ok:
  assumes inv: "cap_inv st H" and a: "obj_alloc alloc_ok st ty sz = (Some ob, st')"
  shows "cap_inv st' H" "caps st' = caps st" "ob = next_obj st" "objects st ob = None"
    "objects st' ob = Some \<lparr>obj_type = ty, obj_size = sz, copies = [], refcount = 0\<rparr>" "groups st' = groups st"
    "pmos st' = pmos st" "threads st' = threads st" "next_obj st' = next_obj st + 1" "\<And>o'. o' \<noteq> ob \<Longrightarrow> objects st' o' = objects st o'"
proof -
  have e: "ob = next_obj st" "st' = (upd_object st ob \<lparr>obj_type = ty, obj_size = sz, copies = [], refcount = 0\<rparr>)\<lparr>next_obj := next_obj st + 1\<rparr>"
    using a by (auto simp: obj_alloc_def Let_def split: if_splits)
  show "cap_inv st' H" "caps st' = caps st" "objects st ob = None"
    using add_object_inv [OF inv e(1), of st' ty sz] e(2) by (simp_all add: upd_object_def)
qed (use a in \<open>auto simp: obj_alloc_def Let_def upd_object_def split: if_splits\<close>)

lemma add_group_inv:
  assumes inv: "cap_inv st H" and g: "groups st g = None" and x: "objects st g = Some x" "obj_type x = TYPE_CAP_GROUP"
    and t: "table_inv (slot_tbl grp) (\<lambda>_. None) {}" and h: "heap_size_used grp = 0" "pmos_of st g = {}"
  shows "cap_inv (upd_group st g grp) H" "caps (upd_group st g grp) = caps st"
proof -
  let ?st = "upd_group st g grp"
  have f: "groups ?st = (groups st)(g \<mapsto> grp)" "objects ?st = objects st" "slot_mem ?st = slot_mem st" "pmos ?st = pmos st"
    "next_obj ?st = next_obj st" "next_slot ?st = next_slot st" by (simp_all add: upd_group_def)
  have m: "grp_map ?st = grp_map st" using g tbl_map_eq [OF t] by (auto simp: grp_map_def fun_eq_iff f)
  show c: "caps ?st = caps st" by (simp add: caps_def fun_eq_iff f m)
  have p: "pmos_of ?st = pmos_of st" "psize ?st = psize st" by (simp_all add: pmos_of_def owner_of_def psize_def fun_eq_iff f)
  note parts = cap_inv_dest [OF inv]
  show "cap_inv ?st H"
  proof (rule cap_inv_parts)
    show "tables_ok ?st" using parts(1) x t tbl_map_eq [OF t] unfolding tables_ok_def f by auto
    show "slots_ok ?st" using parts(2) unfolding slots_ok_def f m by simp
    show "objs_ok ?st H" using parts(3) unfolding objs_ok_def p f by simp
    show "pmos_ok ?st" using parts(4) unfolding pmos_ok_def f by fastforce
    show "self_ok ?st" using parts(5) m c by (simp add: self_ok_def)
    show "heap_ok ?st" using parts(6) h unfolding heap_ok_def p f by auto
  qed
qed

lemma upd_group_core_inv:
  assumes "groups st g = Some grp" "grp_core grp' = grp_core grp"
  shows "caps (upd_group st g grp') = caps st" "cap_inv st H \<Longrightarrow> cap_inv (upd_group st g grp') H"
  using cap_inv_cong [of "upd_group st g grp'" st] assms by (simp_all add: upd_group_def)

lemma obj_free_ok:
  assumes inv: "cap_inv st H" and x: "objects st ob = Some x" "refcount x = 0" "pmos st ob = None"
  shows "\<exists>st'. obj_free st (Some ob) = Some st' \<and> cap_inv st' H \<and> caps st' = caps st"
proof -
  let ?st = "st\<lparr>objects := (objects st)(ob := None), groups := (groups st)(ob := None),
                pmos := (pmos st)(ob := None), threads := (threads st)(ob := None)\<rparr>"
  have "cap_inv ?st H" "caps ?st = caps st"
    using x(3) by (intro delete_object_inv [OF inv x]; simp add: fun_upd_idem)+
  then show ?thesis using x by (simp add: obj_free_def)
qed

text \<open>A group with an empty table, about to be filled.\<close>

lemma cap_group_init_ok:
  assumes inv: "cap_inv st H" and mem: "small_memory alloc_ok" and x: "objects st g = Some x" "obj_type x = TYPE_CAP_GROUP"
    and g: "groups st g = None" "pmos_of st g = {}" and i: "cap_group_init alloc_ok st g BASE_OBJECT_NUM b = Some st'"
  shows "cap_inv st' H" "caps st' = caps st" "objects st' = objects st" "pmos st' = pmos st" "threads st' = threads st"
    "next_obj st' = next_obj st" "\<exists>grp. groups st' = (groups st)(g \<mapsto> grp) \<and> badge grp = b"
proof -
  obtain t where t: "snd (slot_table_init alloc_ok BASE_OBJECT_NUM) = Some t"
    using i by (auto simp: cap_group_init_def bind_eq_Some_conv)
  then obtain r where "slot_table_init alloc_ok BASE_OBJECT_NUM = (r, Some t)" by (metis prod.collapse)
  note ti = empty_table_inv [OF mem this]
  let ?grp = "\<lparr>slot_tbl = t, thread_list = [], thread_cnt = 0, badge = b, notify_recycler = 0,
             cap_group_name = replicate (MAX_GROUP_NAME_LEN + 1) 0, pid = 0, uuid = replicate 16 0,
             heap_size_limit = - 1, heap_size_used = 0\<rparr>"
  have e: "st' = upd_group st g ?grp" using i t by (simp add: cap_group_init_def)
  show "cap_inv st' H" "caps st' = caps st"
    using add_group_inv [OF inv g(1) x, of ?grp] ti g(2) e by simp_all
qed (use i in \<open>auto simp: cap_group_init_def bind_eq_Some_conv upd_group_def\<close>)

section \<open>Creating a process group\<close>

lemma cap_room:
  assumes inv: "cap_inv st H" and mem: "small_memory alloc_ok" and g: "groups st g = Some grp" and i: "i < 64" "caps st g i = None"
  shows "alloc_slot_id alloc_ok (slot_tbl grp) \<noteq> Some (- ENOMEM, t')"
proof -
  note t = cap_invD(1) [OF inv g]
  have "64 \<le> slots_size (slot_tbl grp)" using table_invD(2,3) [OF t] by (auto dest: dvd_imp_le)
  moreover have "i \<notin> dom (tbl_map (slot_tbl grp))" using i(2) caps_grp_map [OF inv, of g i] g by auto
  ultimately have "\<not> (\<forall>i < slots_size (slot_tbl grp). i \<in> dom (tbl_map (slot_tbl grp)) \<union> {})"
    using less_le_trans [OF i(1)] by (metis Un_empty_right)
  then show ?thesis using alloc_slot_id_ok [OF t mem] by (auto simp: ENOMEM_def)
qed

lemma cap_alloc_room:
  assumes "groups st g = Some grp" "alloc_slot_id alloc_ok (slot_tbl grp) \<noteq> Some (- ENOMEM, slot_tbl grp)" "alloc_ok SLOT_BYTES"
    and inv: "cap_inv st H" and mem: "small_memory alloc_ok"
  shows "cap_alloc alloc_ok st g ob \<noteq> Some (- ENOMEM, st')"
  using alloc_slot_id_ok [OF cap_invD(1) [OF inv assms(1)] mem] assms(1-3)
  by (auto simp: cap_alloc_def Let_def ENOMEM_def bind_eq_Some_conv split: if_splits)

lemma cap_alloc_new:
  assumes inv: "cap_inv st H" and mem: "small_memory alloc_ok" and g: "groups st g = Some grp" and slot: "alloc_ok SLOT_BYTES"
    and room: "alloc_slot_id alloc_ok (slot_tbl grp) \<noteq> Some (- ENOMEM, slot_tbl grp)"
    and x: "objects st ob = Some x" "refcount x = 0" and self: "(\<exists>i. caps st g i \<noteq> None) \<or> ob = g"
  shows "\<exists>e st'. cap_alloc alloc_ok st g ob = Some (int e, st') \<and> cap_inv st' H \<and> least_free st g e \<and>
       caps st' = (caps st)(g := (caps st g)(e \<mapsto> ob)) \<and> grows st st' ob"
  using cap_alloc_ok [OF inv mem g x self] cap_alloc_room [OF g room slot inv mem] by blast

lemma groups_if_caps: "caps st g i \<noteq> None \<Longrightarrow> groups st g \<noteq> None"
  by (auto simp: caps_def grp_map_def split: option.splits)

lemma no_caps_of_new: "cap_inv st H \<Longrightarrow> objects st ob = None \<Longrightarrow> caps st ob = (\<lambda>_. None)"
  using no_object_no_group by (fastforce simp: caps_def grp_map_def)

lemma refs_one:
  assumes inv: "cap_inv st H" and x: "objects st ob = Some x" "length (copies x) = 1" and H: "H ob = 0" and p: "pmos_of st ob = {}"
  shows "refs st H ob + 1 < 2 ^ 64"
  using x H p by (simp add: refs_def)

text \<open>The second half: the address space of the new group and its name.\<close>

lemma fill_new_group_ok:
  assumes inv: "cap_inv st H" and mem: "small_memory alloc_ok" and slot: "alloc_ok SLOT_BYTES"
    and vs: "alloc_ok (unat (word_of_nat OBJECT_BYTES + size_of TYPE_VMSPACE))" and c: "caps st ng = [0 \<mapsto> ng]"
  shows "case name_in (clip_name_len nl) of
      None \<Rightarrow> fill_new_group alloc_ok size_of st cur ng cap nl name_in = None
    | Some nm \<Rightarrow> \<exists>st'. fill_new_group alloc_ok size_of st cur ng cap nl name_in = Some (cap, st') \<and> cap_inv st' H \<and>
        caps st' = (caps st)(ng := [0 \<mapsto> ng, 1 \<mapsto> next_obj st]) \<and> pmos st' = pmos st"
proof -
  let ?vs = "next_obj st"
  obtain st1 where a: "obj_alloc alloc_ok st TYPE_VMSPACE (size_of TYPE_VMSPACE) = (Some ?vs, st1)"
    using vs by (simp add: obj_alloc_def)
  note o = obj_alloc_ok [OF inv a]
  obtain grp1 where g1: "groups st1 ng = Some grp1" using groups_if_caps [of st ng 0] c o(6) by auto
  have room: "alloc_slot_id alloc_ok (slot_tbl grp1) \<noteq> Some (- ENOMEM, slot_tbl grp1)"
    using cap_room [OF o(1) mem g1, of 1] c o(2) by simp
  have "(\<exists>i. caps st1 ng i \<noteq> None) \<or> ?vs = ng" using c o(2) by auto
  from cap_alloc_new [OF o(1) mem g1 slot room o(5) _ this] obtain e st2 where
    st2: "cap_alloc alloc_ok st1 ng ?vs = Some (int e, st2)" "cap_inv st2 H" "least_free st1 ng e"
      "caps st2 = (caps st1)(ng := (caps st1 ng)(e \<mapsto> ?vs))" "grows st1 st2 ?vs" by auto
  have "[0 \<mapsto> ng] e = None" "\<not> 1 < e" using st2(3) c o(2) by (auto simp: least_free_def)
  then have "e = 1" by (cases "e = 0") auto
  then have c2: "caps st2 = (caps st)(ng := [0 \<mapsto> ng, 1 \<mapsto> ?vs])" using st2(4) c o(2) by auto
  obtain grp2 where g2: "groups st2 ng = Some grp2" using groups_if_caps [of st2 ng 0] c2 by auto
  show ?thesis
  proof (cases "name_in (clip_name_len nl)")
    case None
    have "caps st2 ng 1 = Some ?vs" using c2 by simp
    then have "cap_lookup st2 ng 1 = Some ?vs" by (simp add: cap_lookup_def)
    then obtain s x where x: "objects st2 ?vs = Some x" "s \<in> set (copies x)" by (rule cap_lookupE [OF st2(2)])
    have "length (copies x) \<noteq> 0" using x(2) by auto
    then have "refcount x \<noteq> 0" using cap_invD(5) [OF st2(2) x(1)] by auto
    then have "obj_free st2 (Some ?vs) = None" using x(1) by (simp add: obj_free_def)
    then show ?thesis using None a st2(1) g2 \<open>e = 1\<close>
      by (simp add: fill_new_group_def VMSPACE_OBJ_ID_def out_free_obj_vmspace_def)
  next
    case (Some nm)
    let ?grp = "grp2\<lparr>notify_recycler := 0, cap_group_name := name_field nm\<rparr>"
    have "grp_core ?grp = grp_core grp2" by (simp add: grp_core_def)
    note u = upd_group_core_inv [OF g2 this]
    have "fill_new_group alloc_ok size_of st cur ng cap nl name_in = Some (cap, upd_group st2 ng ?grp)"
      using Some a st2(1) g2 \<open>e = 1\<close> by (simp add: fill_new_group_def VMSPACE_OBJ_ID_def)
    moreover have "pmos st2 = pmos st" using st2(5) o(7) by (simp add: grows_def)
    ultimately show ?thesis using Some u(1) u(2) [OF st2(2)] c2 by (simp add: upd_group_def)
  qed
qed

lemma sys_create_cap_group_ok:
  assumes inv: "cap_inv st H" and mem: "small_memory alloc_ok" and cur: "caps st cur 0 = Some cur" and g: "groups st cur = Some cgrp"
    and room: "alloc_slot_id alloc_ok (slot_tbl cgrp) \<noteq> Some (- ENOMEM, slot_tbl cgrp)"
    and al: "alloc_ok SLOT_BYTES" "alloc_ok 512" "alloc_ok 8" "alloc_ok (unat (word_of_nat OBJECT_BYTES + size_of TYPE_CAP_GROUP))"
      "alloc_ok (unat (word_of_nat OBJECT_BYTES + size_of TYPE_VMSPACE))"
    and ok: "hook_sys_create_cap_group (badge cgrp) = 0" "check_user_addr_range args_p CAP_GROUP_ARGS_BYTES = 0"
      "check_user_addr_range (arg_puuid args) TEE_UUID_BYTES = 0" "check_user_addr_range (arg_name args) (arg_name_len args) = 0"
  shows "case name_in (clip_name_len (arg_name_len args)) of
      None \<Rightarrow> sys_create_cap_group alloc_ok size_of st cur args_p (Some args) uuid_in name_in = None
    | Some nm \<Rightarrow> \<exists>e st'. sys_create_cap_group alloc_ok size_of st cur args_p (Some args) uuid_in name_in = Some (int e, st') \<and>
        cap_inv st' H \<and> least_free st cur e \<and>
        caps st' = (caps st)(cur := (caps st cur)(e \<mapsto> next_obj st), next_obj st := [0 \<mapsto> next_obj st, 1 \<mapsto> next_obj st + 1]) \<and>
        pmos st' = pmos st"
proof -
  let ?ng = "next_obj st"
  obtain st1 where a: "obj_alloc alloc_ok st TYPE_CAP_GROUP (size_of TYPE_CAP_GROUP) = (Some ?ng, st1)"
    using al(4) by (simp add: obj_alloc_def)
  note o = obj_alloc_ok [OF inv a]
  note new = no_object_no_group [OF inv o(4)]
  have po1: "pmos_of st1 = pmos_of st" using o(7) by (simp add: pmos_of_def owner_of_def fun_eq_iff)
  have ng: "?ng \<noteq> cur" using new g by auto
  obtain st2 where i: "cap_group_init alloc_ok st1 ?ng BASE_OBJECT_NUM (arg_badge args) = Some st2"
    using al(2,3) by (simp add: cap_group_init_def slot_table_init_def BASE_OBJECT_NUM_def BITS_PER_LONG_def BITS_TO_LONGS_def DIV_ROUND_UP_def)
  have "groups st1 ?ng = None" "pmos_of st1 ?ng = {}" using new o(6) po1 by simp_all
  note ci = cap_group_init_ok [OF o(1) mem o(5) _ this i, simplified]
  obtain grp where grp: "groups st2 = (groups st1)(?ng \<mapsto> grp)" using ci(7) by blast
  let ?grp = "grp\<lparr>heap_size_limit := arg_heap_size args, pid := arg_pid args,
                  uuid := (if arg_puuid args \<noteq> 0 then uuid_in else replicate 16 0)\<rparr>"
  let ?st3 = "upd_group st2 ?ng ?grp"
  have gn: "groups st2 ?ng = Some grp" using grp by simp
  have gc: "grp_core ?grp = grp_core grp" by (simp add: grp_core_def)
  note u = upd_group_core_inv [OF gn gc]
  have inv3: "cap_inv ?st3 H" by (rule u(2) [OF ci(1)])
  have c3: "caps ?st3 = caps st" using u(1) ci(2) o(2) by simp
  have g3: "groups ?st3 cur = Some cgrp" using grp ng g o(6) by (simp add: upd_group_def)
  have x3: "objects ?st3 ?ng = Some \<lparr>obj_type = TYPE_CAP_GROUP, obj_size = size_of TYPE_CAP_GROUP, copies = [], refcount = 0\<rparr>"
    using o(5) ci(3) by (simp add: upd_group_def)
  have "(\<exists>i. caps ?st3 cur i \<noteq> None) \<or> ?ng = cur" using cur c3 by auto
  from cap_alloc_new [OF inv3 mem g3 al(1) room x3 _ this] obtain e st4 where
    st4: "cap_alloc alloc_ok ?st3 cur ?ng = Some (int e, st4)" "cap_inv st4 H" "least_free ?st3 cur e"
      "caps st4 = (caps ?st3)(cur := (caps ?st3 cur)(e \<mapsto> ?ng))" "grows ?st3 st4 ?ng" by auto
  have c4: "caps st4 = (caps st)(cur := (caps st cur)(e \<mapsto> ?ng))" using st4(4) c3 by simp
  have n4: "next_obj st4 = ?ng + 1" using st4(5) o(9) ci(6) by (simp add: grows_def upd_group_def)
  have empty: "caps st4 ?ng = (\<lambda>_. None)" using c4 no_caps_of_new [OF inv o(4)] ng by simp
  obtain grp4 where g4: "groups st4 ?ng = Some grp4"
  proof -
    have "map_option badge (groups st4 ?ng) = map_option badge (groups ?st3 ?ng)" using st4(5) by (simp add: grows_def)
    then show thesis using that by (auto simp: upd_group_def)
  qed
  obtain cgrp4 where cg4: "groups st4 cur = Some cgrp4" using groups_if_caps [of st4 cur e] c4 by auto
  have room4: "alloc_slot_id alloc_ok (slot_tbl grp4) \<noteq> Some (- ENOMEM, slot_tbl grp4)"
    using cap_room [OF st4(2) mem g4, of 0] empty by simp
  have l4: "cap_lookup st4 cur (int e) = Some ?ng" using c4 by (simp add: cap_lookup_def)
  obtain x4 s4 where x4: "objects st4 ?ng = Some x4" "s4 \<in> set (copies x4)" using l4 by (rule cap_lookupE [OF st4(2)])
  have b4: "refs st4 H ?ng + 1 < 2 ^ 64" if "cap_lookup st4 cur (int e) = Some ob" for ob
  proof -
    have "unat (refcount x4) = 1"
      using st4(1) x3 x4 by (auto simp: cap_alloc_def Let_def bind_eq_Some_conv upd_group_def upd_object_def split: if_splits)
    then show ?thesis using cap_invD(5) [OF st4(2) x4(1)] x4(1) by (simp add: refs_def)
  qed
  from cap_copy_ok [OF st4(2) mem g4 cg4 room4, of "int e"] l4 al(1) b4 obtain e5 st5 where
    st5: "cap_copy alloc_ok st4 cur ?ng (int e) = Some (int e5, st5)" "cap_inv st5 H" "least_free st4 ?ng e5"
      "caps st5 = (caps st4)(?ng := (caps st4 ?ng)(e5 \<mapsto> ?ng))" "grows st4 st5 ?ng" by auto
  have "e5 = 0" using st5(3) empty by (auto simp: least_free_def)
  have c5: "caps st5 ?ng = [0 \<mapsto> ?ng]" "caps st5 = (caps st4)(?ng := [0 \<mapsto> ?ng])" using st5(4) empty \<open>e5 = 0\<close> by auto
  have n5: "next_obj st5 = ?ng + 1" using st5(5) n4 by (simp add: grows_def)
  have lf: "least_free st cur e" using st4(3) c3 by (simp add: least_free_def)
  have p5: "pmos st5 = pmos st" using st5(5) st4(5) ci(4) o(7) by (simp add: grows_def upd_group_def)
  have unf: "sys_create_cap_group alloc_ok size_of st cur args_p (Some args) uuid_in name_in =
      fill_new_group alloc_ok size_of st5 cur ?ng (int e) (arg_name_len args) name_in"
    using g ok a i gn st4(1) st5(1) \<open>e5 = 0\<close> by (simp add: sys_create_cap_group_def CAP_GROUP_OBJ_ID_def)
  show ?thesis
    using fill_new_group_ok [where size_of = size_of and name_in = name_in and nl = "arg_name_len args" and cur = cur and cap = "int e",
        OF st5(2) mem al(1,5) c5(1)] lf c4 c5(2) n5 p5 unfolding unf
    by (auto split: option.splits)
qed

section \<open>The first process\<close>

definition boot_caps :: cap_state where
  "boot_caps = \<lparr>objects = (\<lambda>_. None), slot_mem = (\<lambda>_. None), groups = (\<lambda>_. None), pmos = (\<lambda>_. None), threads = (\<lambda>_. None),
     fpu_owner = (\<lambda>_. None), next_obj = 0, next_slot = 0\<rparr>"

lemma boot_caps_inv: "cap_inv boot_caps (\<lambda>_. 0)" "caps boot_caps = (\<lambda>_ _. None)"
  by (simp_all add: boot_caps_def cap_inv_def tables_ok_def slots_ok_def objs_ok_def pmos_ok_def self_ok_def heap_ok_def
      grp_map_def caps_def fun_eq_iff)

lemma create_root_cap_group_ok:
  assumes inv: "cap_inv st H" and mem: "small_memory alloc_ok"
    and al: "alloc_ok SLOT_BYTES" "alloc_ok 512" "alloc_ok 8" "alloc_ok (unat (word_of_nat OBJECT_BYTES + size_of TYPE_CAP_GROUP))"
      "alloc_ok (unat (word_of_nat OBJECT_BYTES + size_of TYPE_VMSPACE))"
  shows "\<exists>st' grp. create_root_cap_group alloc_ok size_of st nm = Some (next_obj st, st') \<and> cap_inv st' H \<and>
    caps st' = (caps st)(next_obj st := [0 \<mapsto> next_obj st, 1 \<mapsto> next_obj st + 1]) \<and>
    groups st' (next_obj st) = Some grp \<and> badge grp = ROOT_CAP_GROUP_BADGE \<and> pmos st' = pmos st \<and>
    map_option obj_type (objects st' (next_obj st + 1)) = Some TYPE_VMSPACE \<and> next_obj st' = next_obj st + 2"
proof -
  let ?ng = "next_obj st"
  obtain st1 where a: "obj_alloc alloc_ok st TYPE_CAP_GROUP (size_of TYPE_CAP_GROUP) = (Some ?ng, st1)"
    using al(4) by (simp add: obj_alloc_def)
  note o = obj_alloc_ok [OF inv a]
  note new = no_object_no_group [OF inv o(4)]
  have po1: "pmos_of st1 = pmos_of st" using o(7) by (simp add: pmos_of_def owner_of_def fun_eq_iff)
  obtain st2 where i: "cap_group_init alloc_ok st1 ?ng BASE_OBJECT_NUM ROOT_CAP_GROUP_BADGE = Some st2"
    using al(2,3) by (simp add: cap_group_init_def slot_table_init_def BASE_OBJECT_NUM_def BITS_PER_LONG_def BITS_TO_LONGS_def DIV_ROUND_UP_def)
  have "groups st1 ?ng = None" "pmos_of st1 ?ng = {}" using new o(6) po1 by simp_all
  note ci = cap_group_init_ok [OF o(1) mem o(5) _ this i, simplified]
  obtain grp where grp: "groups st2 ?ng = Some grp" "badge grp = ROOT_CAP_GROUP_BADGE" using ci(7) by auto
  have c2: "caps st2 = caps st" using ci(2) o(2) by simp
  have empty: "caps st2 ?ng = (\<lambda>_. None)" using c2 no_caps_of_new [OF inv o(4)] by simp
  have x2: "objects st2 ?ng = Some \<lparr>obj_type = TYPE_CAP_GROUP, obj_size = size_of TYPE_CAP_GROUP, copies = [], refcount = 0\<rparr>"
    using o(5) ci(3) by simp
  have room2: "alloc_slot_id alloc_ok (slot_tbl grp) \<noteq> Some (- ENOMEM, slot_tbl grp)"
    using cap_room [OF ci(1) mem grp(1), of 0] empty by simp
  from cap_alloc_new [OF ci(1) mem grp(1) al(1) room2 x2] obtain e st3 where
    st3: "cap_alloc alloc_ok st2 ?ng ?ng = Some (int e, st3)" "cap_inv st3 H" "least_free st2 ?ng e"
      "caps st3 = (caps st2)(?ng := (caps st2 ?ng)(e \<mapsto> ?ng))" "grows st2 st3 ?ng" by auto
  have "e = 0" using st3(3) empty by (auto simp: least_free_def)
  have c3: "caps st3 = (caps st)(?ng := [0 \<mapsto> ?ng])" using st3(4) empty \<open>e = 0\<close> c2 by auto
  have n3: "next_obj st3 = ?ng + 1" using st3(5) o(9) ci(6) by (simp add: grows_def)
  obtain st4 where a4: "obj_alloc alloc_ok st3 TYPE_VMSPACE (size_of TYPE_VMSPACE) = (Some (?ng + 1), st4)"
    using al(5) n3 by (simp add: obj_alloc_def)
  note o4 = obj_alloc_ok [OF st3(2) a4]
  obtain grp4 where g4: "groups st4 ?ng = Some grp4" "badge grp4 = ROOT_CAP_GROUP_BADGE"
  proof -
    have "map_option badge (groups st4 ?ng) = map_option badge (groups st2 ?ng)" using st3(5) o4(6) by (simp add: grows_def)
    then show thesis using that grp by auto
  qed
  have c4: "caps st4 ?ng = [0 \<mapsto> ?ng]" using o4(2) c3 by simp
  have room4: "alloc_slot_id alloc_ok (slot_tbl grp4) \<noteq> Some (- ENOMEM, slot_tbl grp4)"
    using cap_room [OF o4(1) mem g4(1), of 1] c4 by simp
  have "(\<exists>i. caps st4 ?ng i \<noteq> None) \<or> ?ng + 1 = ?ng" using c4 by auto
  from cap_alloc_new [OF o4(1) mem g4(1) al(1) room4 o4(5) _ this] obtain e5 st5 where
    st5: "cap_alloc alloc_ok st4 ?ng (?ng + 1) = Some (int e5, st5)" "cap_inv st5 H" "least_free st4 ?ng e5"
      "caps st5 = (caps st4)(?ng := (caps st4 ?ng)(e5 \<mapsto> ?ng + 1))" "grows st4 st5 (?ng + 1)" by auto
  have "[0 \<mapsto> ?ng] e5 = None" "\<not> 1 < e5" using st5(3) c4 by (auto simp: least_free_def)
  then have "e5 = 1" by (cases "e5 = 0") auto
  have c5: "caps st5 = (caps st)(?ng := [0 \<mapsto> ?ng, 1 \<mapsto> ?ng + 1])" using st5(4) c4 \<open>e5 = 1\<close> c3 o4(2) by auto
  obtain grp5 where g5: "groups st5 ?ng = Some grp5" "badge grp5 = ROOT_CAP_GROUP_BADGE"
  proof -
    have "map_option badge (groups st5 ?ng) = map_option badge (groups st4 ?ng)" using st5(5) by (simp add: grows_def)
    then show thesis using that g4 by auto
  qed
  let ?grp = "grp5\<lparr>cap_group_name := name_field (take MAX_GROUP_NAME_LEN nm)\<rparr>"
  have "grp_core ?grp = grp_core grp5" by (simp add: grp_core_def)
  note u = upd_group_core_inv [OF g5(1) this]
  have "create_root_cap_group alloc_ok size_of st nm = Some (?ng, upd_group st5 ?ng ?grp)"
    using a i st3(1) \<open>e = 0\<close> a4 st5(1) \<open>e5 = 1\<close> g5
    by (simp add: create_root_cap_group_def CAP_GROUP_OBJ_ID_def VMSPACE_OBJ_ID_def)
  moreover have "pmos st5 = pmos st" "map_option obj_type (objects st5 (?ng + 1)) = Some TYPE_VMSPACE" "next_obj st5 = ?ng + 2"
    using st5(5) st3(5) o4(5,7,9) ci(4) o(7) n3 by (simp_all add: grows_def)
  ultimately show ?thesis using u(1) u(2) [OF st5(2)] c5 g5(2) by (simp add: upd_group_def)
qed

section \<open>Counting capabilities\<close>

definition cap_set :: "cap_state \<Rightarrow> nat \<Rightarrow> (nat \<times> nat) set" where
  "cap_set st ob = {(g, i). caps st g i = Some ob}"

lemma copies_card:
  assumes inv: "cap_inv st H" and x: "objects st ob = Some x"
  shows "finite (cap_set st ob)" "card (cap_set st ob) = length (copies x)"
proof -
  let ?f = "\<lambda>s. (slot_group (the (slot_mem st s)), nat (slot_id (the (slot_mem st s))))"
  have inj: "inj_on ?f (set (copies x))"
  proof (rule inj_onI)
    fix s t assume st: "s \<in> set (copies x)" "t \<in> set (copies x)" "?f s = ?f t"
    obtain sl where sl: "slot_mem st s = Some sl" using cap_invD(6) [OF inv x st(1)] by blast
    obtain tl where tl: "slot_mem st t = Some tl" using cap_invD(6) [OF inv x st(2)] by blast
    show "s = t" using cap_invD(4) [OF inv sl] cap_invD(4) [OF inv tl] st(3) sl tl by simp
  qed
  have "?f ` set (copies x) = cap_set st ob"
  proof (intro equalityI subsetI)
    fix p assume "p \<in> ?f ` set (copies x)"
    then obtain s where s: "s \<in> set (copies x)" "p = ?f s" by blast
    obtain sl where sl: "slot_mem st s = Some sl" "slot_object sl = ob" using cap_invD(6) [OF inv x s(1)] by blast
    then show "p \<in> cap_set st ob" using s cap_invD(4) [OF inv sl(1)] by (simp add: cap_set_def caps_def)
  next
    fix p assume "p \<in> cap_set st ob"
    then obtain g i s sl where p: "p = (g, i)" "grp_map st g i = Some s" "slot_mem st s = Some sl" "slot_object sl = ob"
      by (auto simp: cap_set_def caps_def bind_eq_Some_conv)
    then have "s \<in> set (copies x)" "?f s = p" using cap_invD(3) [OF inv p(2)] cap_invD(4) [OF inv p(3)] x by auto
    then show "p \<in> ?f ` set (copies x)" by blast
  qed
  then show "finite (cap_set st ob)" "card (cap_set st ob) = length (copies x)"
    using card_image [OF inj] cap_invD(5) [OF inv x] distinct_card by (metis finite_imageI finite_set, metis)
qed

lemma refs_caps:
  assumes inv: "cap_inv st H"
  shows "refs st H ob = card (cap_set st ob) + H ob + card (pmos_of st ob)" "finite (cap_set st ob)"
proof -
  have none: "objects st ob = None \<Longrightarrow> cap_set st ob = {}"
    using cap_invD(4) [OF inv] by (fastforce simp: cap_set_def caps_def bind_eq_Some_conv)
  show "refs st H ob = card (cap_set st ob) + H ob + card (pmos_of st ob)"
    using none copies_card(2) [OF inv] by (cases "objects st ob") (auto simp: refs_def)
  show "finite (cap_set st ob)" using none copies_card(1) [OF inv] by (cases "objects st ob") auto
qed

section \<open>Transfer and revocation\<close>

definition bounded :: "cap_state \<Rightarrow> (nat \<Rightarrow> nat) \<Rightarrow> nat \<Rightarrow> bool" where
  "bounded st H n \<longleftrightarrow> (\<forall>ob. refs st H ob + n < 2 ^ 64)"

lemma bounded_mono: "bounded st H n \<Longrightarrow> m \<le> n \<Longrightarrow> bounded st H m"
  unfolding bounded_def by (meson add_left_mono le_less_trans)

lemma bounded_small:
  assumes inv: "cap_inv st (\<lambda>_. 0)" and s: "\<And>ob. cap_set st ob \<subseteq> S" and p: "pmos st = (\<lambda>_. None)" and "finite S" "card S \<le> 50"
  shows "bounded st (\<lambda>_. 0) 100"
  unfolding bounded_def
proof
  fix ob
  have "card (cap_set st ob) \<le> card S" using s \<open>finite S\<close> by (intro card_mono)
  then show "refs st (\<lambda>_. 0) ob + 100 < 2 ^ 64"
    using refs_caps(1) [OF inv, of ob] p \<open>card S \<le> 50\<close> by (simp add: pmos_of_def owner_of_def)
qed

lemma bounded_add_cap:
  assumes inv: "cap_inv st H" "cap_inv st' H" and c: "caps st' = (caps st)(g := (caps st g)(e \<mapsto> ob))" and p: "pmos st' = pmos st"
    and b: "bounded st H (Suc n)"
  shows "bounded st' H n"
  unfolding bounded_def
proof
  fix ob'
  have "cap_set st' ob' \<subseteq> insert (g, e) (cap_set st ob')" using c by (auto simp: cap_set_def split: if_splits)
  then have "card (cap_set st' ob') \<le> card (insert (g, e) (cap_set st ob'))" using refs_caps(2) [OF inv(1)] by (intro card_mono) auto
  also have "\<dots> \<le> Suc (card (cap_set st ob'))" by (simp add: card_insert_if refs_caps(2) [OF inv(1)])
  finally have "refs st' H ob' \<le> Suc (refs st H ob')"
    using refs_caps(1) [OF inv(1), of ob'] refs_caps(1) [OF inv(2), of ob'] p by (simp add: pmos_of_def owner_of_def)
  then show "refs st' H ob' + n < 2 ^ 64" using b [unfolded bounded_def, rule_format, of ob'] by linarith
qed

lemma cap_copy_pmos: "cap_copy alloc_ok st src dest sid = Some (r, st') \<Longrightarrow> pmos st' = pmos st"
  by (auto simp: cap_copy_def Let_def upd_group_def upd_object_def bind_eq_Some_conv split: if_splits option.splits)

lemma cap_copy_returns:
  assumes inv: "cap_inv st H" and mem: "small_memory alloc_ok" and slot: "alloc_ok SLOT_BYTES" and src: "groups st src \<noteq> None"
    and self: "caps st dest 0 \<noteq> None" and b: "bounded st H (Suc n)" and r: "cap_copy alloc_ok st src dest sid = Some (r, st')"
  shows "cap_inv st' H \<and> bounded st' H n \<and> (case cap_lookup st src sid of
      None \<Rightarrow> r = - ECAPBILITY \<and> caps st' = caps st
    | Some ob \<Rightarrow> 0 \<le> r \<and> caps st dest (nat r) = None \<and> caps st' = (caps st)(dest := (caps st dest)(nat r \<mapsto> ob)))"
proof -
  obtain dgrp where d: "groups st dest = Some dgrp" using groups_if_caps [OF self] by blast
  obtain sgrp where sg: "groups st src = Some sgrp" using src by blast
  have room: "alloc_slot_id alloc_ok (slot_tbl dgrp) \<noteq> Some (- ENOMEM, slot_tbl dgrp)" using cap_copy_full [OF d] r by fastforce
  have bb: "refs st H ob + 1 < 2 ^ 64" for ob
    using b [unfolded bounded_def, rule_format, of ob] by linarith
  show ?thesis
  proof (cases "cap_lookup st src sid")
    case None
    then have c: "r = - ECAPBILITY" "cap_inv st' H" "caps st' = caps st" "objects st' = objects st"
      using cap_copy_ok [OF inv mem d sg room _ bb, of sid] self slot r by auto
    have "pmos st' = pmos st" by (rule cap_copy_pmos [OF r])
    then have "refs st' H ob = refs st H ob" for ob using c(4) by (simp add: refs_def pmos_of_def owner_of_def)
    then have "bounded st' H n" using b unfolding bounded_def by (simp add: Suc_lessD)
    then show ?thesis using c None by simp
  next
    case (Some ob)
    then obtain e where e: "r = int e" "cap_inv st' H" "least_free st dest e"
      "caps st' = (caps st)(dest := (caps st dest)(e \<mapsto> ob))" "grows st st' ob"
      using cap_copy_ok [OF inv mem d sg room _ bb, of sid] self slot r by auto
    have "bounded st' H n" using bounded_add_cap [OF inv e(2,4) _ b] e(5) by (simp add: grows_def)
    then show ?thesis using e Some by (simp add: least_free_def)
  qed
qed

lemma copy_caps_ok:
  assumes "cap_inv st H" "small_memory alloc_ok" "alloc_ok SLOT_BYTES" "caps st cur 0 \<noteq> None" "caps st dest 0 \<noteq> None"
    "cur \<noteq> dest" "bounded st H (length cs + n)" "copy_caps alloc_ok st cur dest cs = Some (rs, st')"
  shows "cap_inv st' H \<and> bounded st' H n \<and> length rs = length cs \<and>
    (\<forall>g i. caps st g i \<noteq> None \<or> g \<noteq> dest \<longrightarrow> caps st' g i = caps st g i) \<and>
    (\<forall>k < length cs. case cap_lookup st cur (cs ! k) of
        None \<Rightarrow> rs ! k = - ECAPBILITY
      | Some ob \<Rightarrow> 0 \<le> rs ! k \<and> caps st dest (nat (rs ! k)) = None \<and> caps st' dest (nat (rs ! k)) = Some ob)"
  using assms
proof (induction cs arbitrary: st rs)
  case (Cons c cs)
  from Cons.prems(8) obtain r st1 rs1 where r: "cap_copy alloc_ok st cur dest c = Some (r, st1)"
    "copy_caps alloc_ok st1 cur dest cs = Some (rs1, st')" "rs = r # rs1" by (auto simp: bind_eq_Some_conv)
  have b: "bounded st H (Suc (length cs + n))" using Cons.prems(7) by simp
  note step = cap_copy_returns [OF Cons.prems(1-3) groups_if_caps [OF Cons.prems(4)] Cons.prems(5) b r(1)]
  have mono: "caps st g i \<noteq> None \<or> g \<noteq> dest \<Longrightarrow> caps st1 g i = caps st g i" for g i
    using step by (auto split: option.splits)
  have new: "caps st1 g i = None \<Longrightarrow> caps st g i = None" for g i using step by (auto split: option.splits if_splits)
  have l: "cap_lookup st1 cur c' = cap_lookup st cur c'" for c' using mono Cons.prems(6) by (simp add: cap_lookup_def)
  have "caps st1 cur 0 \<noteq> None" "caps st1 dest 0 \<noteq> None" using mono Cons.prems(4,5) by auto
  from Cons.IH [OF _ Cons.prems(2,3) this Cons.prems(6) _ r(2)] step have
    ih: "cap_inv st' H" "bounded st' H n" "length rs1 = length cs"
      "\<And>g i. caps st1 g i \<noteq> None \<or> g \<noteq> dest \<Longrightarrow> caps st' g i = caps st1 g i"
      "\<And>k. k < length cs \<Longrightarrow> case cap_lookup st1 cur (cs ! k) of None \<Rightarrow> rs1 ! k = - ECAPBILITY
        | Some ob \<Rightarrow> 0 \<le> rs1 ! k \<and> caps st1 dest (nat (rs1 ! k)) = None \<and> caps st' dest (nat (rs1 ! k)) = Some ob" by blast+
  have m': "caps st g i \<noteq> None \<or> g \<noteq> dest \<Longrightarrow> caps st' g i = caps st g i" for g i
    using ih(4) [of g i] mono [of g i] by auto
  have "case cap_lookup st cur ((c # cs) ! k) of None \<Rightarrow> (r # rs1) ! k = - ECAPBILITY
      | Some ob \<Rightarrow> 0 \<le> (r # rs1) ! k \<and> caps st dest (nat ((r # rs1) ! k)) = None \<and> caps st' dest (nat ((r # rs1) ! k)) = Some ob"
    if k: "k < length (c # cs)" for k
  proof (cases k)
    case 0
    then show ?thesis using step ih(4) [of dest "nat r"] by (auto split: option.splits)
  next
    case (Suc j)
    then show ?thesis using ih(5) [of j] k l new by (auto split: option.splits)
  qed
  then show ?case using ih(1-3) m' r(3) by auto
qed (auto simp: bounded_def)

lemma obj_get_put:
  assumes inv: "cap_inv st H" and g: "groups st g = Some grp" and b: "bounded st H 1"
    and o: "obj_get st g sid ty = Some (Some ob, st1)"
  shows "cap_lookup st g sid = Some ob" "\<exists>x. objects st ob = Some x \<and> obj_type x = ty"
    "cap_inv st1 (H(ob := H ob + 1))" "caps st1 = caps st" "pmos st1 = pmos st" "groups st1 = groups st"
    "refs st1 (H(ob := H ob + 1)) ob \<noteq> 1" "obj_put st1 ob = Some st"
proof -
  have bb: "\<And>ob. refs st H ob + 1 < 2 ^ 64" using b by (simp add: bounded_def)
  note go = get_opaque_ok [OF inv g bb, of sid "Some ty"]
  from go o show l: "cap_lookup st g sid = Some ob" unfolding obj_get_def by (auto split: option.splits if_splits)
  then obtain x where x: "objects st ob = Some x" "obj_type x = ty" "st1 = upd_object st ob (x\<lparr>refcount := refcount x + 1\<rparr>)"
    and i: "cap_inv st1 (H(ob := H ob + 1))" "caps st1 = caps st"
    using go o unfolding obj_get_def by (auto split: if_splits)
  then show "\<exists>x. objects st ob = Some x \<and> obj_type x = ty" "cap_inv st1 (H(ob := H ob + 1))" "caps st1 = caps st"
    "pmos st1 = pmos st" "groups st1 = groups st" by (auto simp: upd_object_def)
  obtain y s where y: "objects st ob = Some y" "s \<in> set (copies y)" using l by (rule cap_lookupE [OF inv])
  have x1: "objects st1 ob = Some (x\<lparr>refcount := refcount x + 1\<rparr>)" using x by (simp add: upd_object_def)
  have c: "copies x \<noteq> []" using x(1) y by auto
  then show r: "refs st1 (H(ob := H ob + 1)) ob \<noteq> 1" using x1 by (simp add: refs_def)
  have "refcount x + 1 \<noteq> 1" using drop_count(3) [OF i(1) x1] r by simp
  moreover have "upd_object st1 ob (x\<lparr>refcount := refcount x + 1 - 1\<rparr>) = st" using x(1,3) by (simp add: upd_object_def fun_upd_idem)
  moreover have "(5 :: nat) = Suc 4" by simp
  ultimately show "obj_put st1 ob = Some st" unfolding obj_put_def by (simp only: obj_put_n.simps) (simp add: x1 Let_def)
qed



section \<open>Properties\<close>

text \<open>A small system for the examples: the group of the first process, which names itself and its address space.\<close>

definition demo_alloc :: "nat \<Rightarrow> bool" where "demo_alloc n = (n < 2 ^ 32)"

lemma demo_alloc_simps: "small_memory demo_alloc" "demo_alloc SLOT_BYTES" "demo_alloc 512" "demo_alloc 8" "demo_alloc 64"
    "demo_alloc (unat (word_of_nat OBJECT_BYTES + 512 :: u64))"
  by (simp_all add: small_memory_def demo_alloc_def SLOT_BYTES_def OBJECT_BYTES_def)

lemma demo_root:
  "\<exists>st grp. create_root_cap_group demo_alloc (\<lambda>_. 512) boot_caps [] = Some (0, st) \<and> cap_inv st (\<lambda>_. 0) \<and>
    caps st = (\<lambda>_ _. None)(0 := [0 \<mapsto> 0, 1 \<mapsto> 1]) \<and> groups st 0 = Some grp \<and> badge grp = ROOT_CAP_GROUP_BADGE \<and>
    bounded st (\<lambda>_. 0) 100 \<and> pmos st = (\<lambda>_. None) \<and> map_option obj_type (objects st 1) = Some TYPE_VMSPACE \<and> next_obj st = 2"
proof -
  have n: "next_obj boot_caps = 0" "pmos boot_caps = (\<lambda>_. None)" by (simp_all add: boot_caps_def)
  from create_root_cap_group_ok [where size_of = "\<lambda>_. 512" and nm = "[]", OF boot_caps_inv(1) demo_alloc_simps(1-4) demo_alloc_simps(6,6)]
  obtain st grp where st: "create_root_cap_group demo_alloc (\<lambda>_. 512) boot_caps [] = Some (0, st)" "cap_inv st (\<lambda>_. 0)"
    "caps st = (\<lambda>_ _. None)(0 := [0 \<mapsto> 0, 1 \<mapsto> 1])" "groups st 0 = Some grp" "badge grp = ROOT_CAP_GROUP_BADGE" "pmos st = (\<lambda>_. None)"
    "map_option obj_type (objects st 1) = Some TYPE_VMSPACE" "next_obj st = 2"
    unfolding n boot_caps_inv(2) by auto
  have "cap_set st ob \<subseteq> {(0, 0), (0, 1)}" for ob using st(3) by (auto simp: cap_set_def split: if_splits)
  then have "bounded st (\<lambda>_. 0) 100" by (rule bounded_small [OF st(2) _ st(6)]) simp_all
  then show ?thesis using st by blast
qed





text \<open>
  C27. \<open>sys_transfer_caps\<close> between two groups: when it reports success, every capability that was there before
  is still there, only the target group has new ones, and the list returned gives, for each number that was
  asked for, \<open>-ECAPBILITY\<close> if the caller does not use it, and otherwise a number that was unused in the target group
  and now names the same object. The reference taken to the target group is given back.
\<close>

theorem sys_transfer_caps_correct:
  assumes inv: "cap_inv st H" and mem: "small_memory alloc_ok" "alloc_ok SLOT_BYTES" and b: "bounded st H 17"
    and cur: "caps st cur 0 \<noteq> None" and d: "cap_lookup st cur dcap = Some dest" "dest \<noteq> cur" "caps st dest 0 \<noteq> None"
    and len: "length src = nat nr"
    and r: "sys_transfer_caps alloc_ok st cur dcap sbuf nr dbuf (Some src) wok = Some (0, dst, st')"
  shows "cap_inv st' H \<and> length dst = length src \<and>
    (\<forall>g i. caps st g i \<noteq> None \<or> g \<noteq> dest \<longrightarrow> caps st' g i = caps st g i) \<and>
    (\<forall>k < length src. case cap_lookup st cur (src ! k) of
        None \<Rightarrow> dst ! k = - ECAPBILITY
      | Some ob \<Rightarrow> 0 \<le> dst ! k \<and> caps st dest (nat (dst ! k)) = None \<and> caps st' dest (nat (dst ! k)) = Some ob)"
proof -
  obtain grp where g: "groups st cur = Some grp" using groups_if_caps [OF cur] by blast
  have n: "length src \<le> 16" using r len
    by (auto simp: sys_transfer_caps_def Let_def EINVAL_def MAX_TRANSFER_NUM_def split: if_splits)
  from r obtain ob st1 st2 where o: "obj_get st cur dcap TYPE_CAP_GROUP = Some (Some ob, st1)"
    and c: "copy_caps alloc_ok st1 cur ob src = Some (dst, st2)" and p: "obj_put st2 ob = Some st'"
    by (auto simp: sys_transfer_caps_def Let_def EINVAL_def ECAPBILITY_def bind_eq_Some_conv split: if_splits option.splits)
  let ?H = "H(ob := H ob + 1)"
  have "bounded st H 1" by (rule bounded_mono [OF b]) simp
  note gp = obj_get_put [OF inv g this o]
  have "ob = dest" using gp(1) d(1) by simp
  have b1: "bounded st1 ?H (length src + 0)" unfolding bounded_def
  proof
    fix o'
    have "refs st1 ?H o' \<le> refs st H o' + 1"
      using refs_caps(1) [OF gp(3), of o'] refs_caps(1) [OF inv, of o'] gp(4,5)
      by (simp add: cap_set_def pmos_of_def owner_of_def)
    then show "refs st1 ?H o' + (length src + 0) < 2 ^ 64" using b [unfolded bounded_def, rule_format, of o'] n by linarith
  qed
  have cc: "caps st1 cur 0 \<noteq> None" "caps st1 ob 0 \<noteq> None" "cur \<noteq> ob" using cur d gp(4) \<open>ob = dest\<close> by auto
  note k = copy_caps_ok [OF gp(3) mem cc b1 c]
  have lk: "cap_lookup st1 = cap_lookup st" using gp(4) by (simp add: cap_lookup_def fun_eq_iff)
  have one: "refs st2 ?H ob \<noteq> 1"
  proof -
    have "caps st2 cur (nat dcap) = Some ob" using k d(1) gp(4) cc(3) \<open>ob = dest\<close> by (auto simp: cap_lookup_def split: if_splits)
    then have "cap_set st2 ob \<noteq> {}" by (auto simp: cap_set_def)
    then have "0 < card (cap_set st2 ob)" using refs_caps(2) [of st2 ?H ob] k by (simp add: card_gt_0_iff)
    then show ?thesis using refs_caps(1) [of st2 ?H ob] k by simp
  qed
  have e: "?H(ob := ?H ob - 1) = H" by auto
  from obj_put_ok [of st2 ?H ob] k one p have i: "cap_inv st' H" and cs: "caps st' = caps st2" unfolding e by auto
  show ?thesis unfolding cs using i k [unfolded gp(4) lk \<open>ob = dest\<close>] by blast
qed


text \<open>
  C29. \<open>sys_create_cap_group\<close>, called by a group that may create groups, with readable arguments and enough
  memory: if the name can be read, the result is the smallest number unused by the caller, which names the
  new group; the new group names itself by 0 and its address space by 1; nothing else changes. If the name
  cannot be read, the kernel stops, since the error path frees the address space although a capability
  refers to it.
\<close>

theorem sys_create_cap_group_correct:
  assumes "cap_inv st H" "small_memory alloc_ok" "caps st cur 0 = Some cur" "groups st cur = Some cgrp"
    "alloc_slot_id alloc_ok (slot_tbl cgrp) \<noteq> Some (- ENOMEM, slot_tbl cgrp)"
    "alloc_ok SLOT_BYTES" "alloc_ok 512" "alloc_ok 8" "alloc_ok (unat (word_of_nat OBJECT_BYTES + size_of TYPE_CAP_GROUP))"
    "alloc_ok (unat (word_of_nat OBJECT_BYTES + size_of TYPE_VMSPACE))"
    "hook_sys_create_cap_group (badge cgrp) = 0" "check_user_addr_range args_p CAP_GROUP_ARGS_BYTES = 0"
    "check_user_addr_range (arg_puuid args) TEE_UUID_BYTES = 0" "check_user_addr_range (arg_name args) (arg_name_len args) = 0"
  shows "case name_in (clip_name_len (arg_name_len args)) of
      None \<Rightarrow> sys_create_cap_group alloc_ok size_of st cur args_p (Some args) uuid_in name_in = None
    | Some nm \<Rightarrow> \<exists>e st'. sys_create_cap_group alloc_ok size_of st cur args_p (Some args) uuid_in name_in = Some (int e, st') \<and>
        cap_inv st' H \<and> least_free st cur e \<and>
        caps st' = (caps st)(cur := (caps st cur)(e \<mapsto> next_obj st), next_obj st := [0 \<mapsto> next_obj st, 1 \<mapsto> next_obj st + 1]) \<and>
        pmos st' = pmos st"
  using assms by (rule sys_create_cap_group_ok)

definition demo_args :: cap_group_args where
  "demo_args = \<lparr>arg_badge = 200, arg_name = 0x1000, arg_name_len = 4, arg_pcid = 5, arg_pid = 7, arg_puuid = 0, arg_heap_size = 0x100000\<rparr>"

lemma demo_call:
  assumes "cap_inv st (\<lambda>_. 0)" "caps st = (\<lambda>_ _. None)(0 := [0 \<mapsto> 0, 1 \<mapsto> 1])" "groups st 0 = Some grp" "badge grp = ROOT_CAP_GROUP_BADGE"
  shows "caps st 0 0 = Some 0" "alloc_slot_id demo_alloc (slot_tbl grp) \<noteq> Some (- ENOMEM, slot_tbl grp)"
    "hook_sys_create_cap_group (badge grp) = 0" "check_user_addr_range 0x2000 CAP_GROUP_ARGS_BYTES = 0"
    "check_user_addr_range (arg_puuid demo_args) TEE_UUID_BYTES = 0"
    "check_user_addr_range (arg_name demo_args) (arg_name_len demo_args) = 0"
  using assms(2,4) cap_room [OF assms(1) demo_alloc_simps(1) assms(3), of 5]
  by (simp_all add: hook_sys_create_cap_group_def check_user_addr_range_def demo_args_def KBASE_def CAP_GROUP_ARGS_BYTES_def TEE_UUID_BYTES_def)

theorem sys_create_cap_group_correct_witness:
  "\<exists>st. cap_inv st (\<lambda>_. 0) \<and>
    (\<exists>e st'. sys_create_cap_group demo_alloc (\<lambda>_. 512) st 0 0x2000 (Some demo_args) [] (\<lambda>n. Some [97, 98, 99, 100]) = Some (int e, st') \<and> e = 2) \<and>
    sys_create_cap_group demo_alloc (\<lambda>_. 512) st 0 0x2000 (Some demo_args) [] (\<lambda>n. None) = None"
proof -
  obtain st grp where st: "cap_inv st (\<lambda>_. 0)" "caps st = (\<lambda>_ _. None)(0 := [0 \<mapsto> 0, 1 \<mapsto> 1])" "groups st 0 = Some grp"
    "badge grp = ROOT_CAP_GROUP_BADGE" using demo_root by blast
  note d = demo_call [OF st]
  note w = sys_create_cap_group_correct [where size_of = "\<lambda>_. 512" and args = demo_args and args_p = "0x2000" and uuid_in = "[]",
      OF st(1) demo_alloc_simps(1) d(1) st(3) d(2) demo_alloc_simps(2-4) demo_alloc_simps(6,6) d(3-6)]
  obtain e st' where e: "sys_create_cap_group demo_alloc (\<lambda>_. 512) st 0 0x2000 (Some demo_args) [] (\<lambda>n. Some [97, 98, 99, 100]) = Some (int e, st')"
      "least_free st 0 e" using w [of "\<lambda>n. Some [97, 98, 99, 100]"] by auto
  have "caps st 0 0 = Some 0" "caps st 0 1 = Some 1" "caps st 0 2 = None" using st(2) by simp_all
  then have "e \<noteq> 0" "e \<noteq> 1" "\<not> 2 < e" using e(2) unfolding least_free_def by (metis option.distinct(1))+
  then have "e = 2" by simp
  then show ?thesis using st(1) e(1) w [of "\<lambda>n. None"] by auto
qed


text \<open>Two processes: the first one holds the second one's group under number 2.\<close>

lemma demo_two_groups:
  "\<exists>st. cap_inv st (\<lambda>_. 0) \<and> caps st = (\<lambda>_ _. None)(0 := [0 \<mapsto> 0, 1 \<mapsto> 1, 2 \<mapsto> 2], 2 := [0 \<mapsto> 2, 1 \<mapsto> 3]) \<and>
    bounded st (\<lambda>_. 0) 100 \<and> pmos st = (\<lambda>_. None)"
proof -
  obtain st grp where st: "cap_inv st (\<lambda>_. 0)" "caps st = (\<lambda>_ _. None)(0 := [0 \<mapsto> 0, 1 \<mapsto> 1])" "groups st 0 = Some grp"
    "badge grp = ROOT_CAP_GROUP_BADGE" "pmos st = (\<lambda>_. None)" "next_obj st = 2" using demo_root by blast
  note d = demo_call [OF st(1-4)]
  from sys_create_cap_group_ok [where size_of = "\<lambda>_. 512" and args = demo_args and args_p = "0x2000" and uuid_in = "[]" and
      name_in = "\<lambda>n. Some [97]", OF st(1) demo_alloc_simps(1) d(1) st(3) d(2) demo_alloc_simps(2-4) demo_alloc_simps(6,6) d(3-6)]
  obtain e st' where e: "cap_inv st' (\<lambda>_. 0)" "least_free st 0 e" "pmos st' = pmos st"
      "caps st' = (caps st)(0 := (caps st 0)(e \<mapsto> 2), 2 := [0 \<mapsto> 2, 1 \<mapsto> 2 + 1])" unfolding st(6) by auto
  have "caps st 0 0 = Some 0" "caps st 0 1 = Some 1" "caps st 0 2 = None" using st(2) by simp_all
  then have "e \<noteq> 0" "e \<noteq> 1" "\<not> 2 < e" using e(2) unfolding least_free_def by (metis option.distinct(1))+
  then have "e = 2" by simp
  then have c: "caps st' = (\<lambda>_ _. None)(0 := [0 \<mapsto> 0, 1 \<mapsto> 1, 2 \<mapsto> 2], 2 := [0 \<mapsto> 2, 1 \<mapsto> 3])"
    unfolding e(4) st(2) by (simp add: fun_upd_twist)
  have "cap_set st' ob \<subseteq> {(0, 0), (0, 1), (0, 2), (2, 0), (2, 1)}" for ob using c by (auto simp: cap_set_def split: if_splits)
  then have "bounded st' (\<lambda>_. 0) 100" by (rule bounded_small [OF e(1)]) (use e(3) st(5) in simp_all)
  then show ?thesis using e(1,3) c st(5) by auto
qed

lemma demo_transfer:
  assumes inv: "cap_inv st (\<lambda>_. 0)" and c: "caps st = (\<lambda>_ _. None)(0 := [0 \<mapsto> 0, 1 \<mapsto> 1, 2 \<mapsto> 2], 2 := [0 \<mapsto> 2, 1 \<mapsto> 3])"
    and b: "bounded st (\<lambda>_. 0) 100"
  shows "\<exists>dst st'. sys_transfer_caps demo_alloc st 0 2 0x1000 1 0x3000 (Some [1]) True = Some (0, dst, st')"
proof -
  have c0: "caps st 0 0 = Some 0" "caps st 0 1 = Some 1" "caps st 0 2 = Some 2" "caps st 2 0 = Some 2" "caps st 2 5 = None"
    unfolding c by simp_all
  obtain g0 where g0: "groups st 0 = Some g0" using groups_if_caps [of st 0 0] c0 by auto
  obtain g2 where g2: "groups st 2 = Some g2" using groups_if_caps [of st 2 0] c0 by auto
  have b1: "bounded st (\<lambda>_. 0) 1" by (rule bounded_mono [OF b]) simp
  then have bb: "\<And>ob. refs st (\<lambda>_. 0) ob + 1 < 2 ^ 64" by (simp add: bounded_def)
  have l: "cap_lookup st 0 2 = Some 2" "cap_lookup st 0 1 = Some 1" using c0 by (simp_all add: cap_lookup_def)
  have ty: "map_option obj_type (objects st 2) = Some TYPE_CAP_GROUP" using cap_invD(2) [OF inv g2] by auto
  obtain st1 where o: "obj_get st 0 2 TYPE_CAP_GROUP = Some (Some 2, st1)"
    using get_opaque_ok [OF inv g0 bb, of 2 "Some TYPE_CAP_GROUP"] l(1) ty by (auto simp: obj_get_def)
  note gp = obj_get_put [OF inv g0 b1 o]
  let ?H = "(\<lambda>_. 0)(2 := 0 + 1) :: nat \<Rightarrow> nat"
  have r1: "refs st1 ?H ob + 1 < 2 ^ 64" for ob
  proof -
    have "refs st1 ?H ob \<le> refs st (\<lambda>_. 0) ob + 1"
      using refs_caps(1) [OF gp(3), of ob] refs_caps(1) [OF inv, of ob] gp(4,5) by (simp add: cap_set_def pmos_of_def owner_of_def)
    then show ?thesis using b [unfolded bounded_def, rule_format, of ob] by linarith
  qed
  have g1: "groups st1 0 = Some g0" "groups st1 2 = Some g2" using g0 g2 gp(6) by simp_all
  have room: "alloc_slot_id demo_alloc (slot_tbl g2) \<noteq> Some (- ENOMEM, slot_tbl g2)"
    using cap_room [OF gp(3) demo_alloc_simps(1) g1(2), of 5] c0 gp(4) by simp
  have l1: "cap_lookup st1 0 1 = Some 1" using l(2) gp(4) by (simp add: cap_lookup_def)
  have "(\<exists>i. caps st1 2 i \<noteq> None) \<or> cap_lookup st1 0 1 = Some 2" using c0 gp(4) by auto
  from cap_copy_ok [OF gp(3) demo_alloc_simps(1) g1(2,1) room this] r1 l1 demo_alloc_simps(2) obtain e st2 where
    st2: "cap_copy demo_alloc st1 0 2 1 = Some (int e, st2)" "cap_inv st2 ?H" "caps st2 = (caps st1)(2 := (caps st1 2)(e \<mapsto> 1))" by auto
  have "caps st2 0 2 = Some 2" using st2(3) c0 gp(4) by simp
  then have "(0, 2) \<in> cap_set st2 2" by (simp add: cap_set_def)
  then have "0 < card (cap_set st2 2)" using refs_caps(2) [OF st2(2), of 2] by (auto simp: card_gt_0_iff)
  then have "refs st2 ?H 2 \<noteq> 1" using refs_caps(1) [OF st2(2), of 2] by simp
  then obtain st3 where st3: "obj_put st2 2 = Some st3" using obj_put_ok [OF st2(2), of 2] by auto
  have "sys_transfer_caps demo_alloc st 0 2 0x1000 1 0x3000 (Some [1]) True = Some (0, [int e], st3)"
    using o st2(1) st3 by (simp add: sys_transfer_caps_def MAX_TRANSFER_NUM_def check_user_addr_range_def KBASE_def demo_alloc_def)
  then show ?thesis by blast
qed

theorem sys_transfer_caps_correct_witness:
  "\<exists>st st' dst. sys_transfer_caps demo_alloc st 0 2 0x1000 1 0x3000 (Some [1]) True = Some (0, dst, st') \<and>
    length dst = 1 \<and> caps st' 2 (nat (dst ! 0)) = Some 1"
proof -
  obtain st where st: "cap_inv st (\<lambda>_. 0)" "caps st = (\<lambda>_ _. None)(0 := [0 \<mapsto> 0, 1 \<mapsto> 1, 2 \<mapsto> 2], 2 := [0 \<mapsto> 2, 1 \<mapsto> 3])"
    "bounded st (\<lambda>_. 0) 100" using demo_two_groups by blast
  obtain dst st' where t: "sys_transfer_caps demo_alloc st 0 2 0x1000 1 0x3000 (Some [1]) True = Some (0, dst, st')"
    using demo_transfer [OF st] by blast
  have c0: "caps st 0 0 \<noteq> None" "caps st 2 0 \<noteq> None" "cap_lookup st 0 2 = Some 2" "cap_lookup st 0 1 = Some 1" "(2 :: nat) \<noteq> 0"
    unfolding st(2) by (simp_all add: cap_lookup_def st(2))
  have b: "bounded st (\<lambda>_. 0) 17" by (rule bounded_mono [OF st(3)]) simp
  from sys_transfer_caps_correct [OF st(1) demo_alloc_simps(1,2) b c0(1,3,5,2) _ t] c0(4) t show ?thesis by auto
qed

end
