(* ===== verification/Pmo.thy ===== *)
theory Pmo
  imports Cap_Group Radix
begin

text \<open>
  Physical memory objects (\<open>kernel/object/memory.c\<close>): creation with the charge to the heap of the owning group, the
  system calls that create device and non-secure memory objects, the transfer of ownership, and the pages recorded in a
  memory object.

  What the allocators deliver is the argument \<open>env\<close>: the physical address \<open>kmalloc\<close> returns for a size (\<open>None\<close> is \<open>NULL\<close>), whether the
  radix tree and the private data can be allocated, and whether a fault pool is registered for the badge of the current group. A
  result carries a flag that tells whether \<open>heap_size_lock\<close> is still held.
\<close>

section \<open>Creation\<close>

record pmo_env =
  kmalloc_pa :: "u64 \<Rightarrow> u64 option"
  radix_mem :: bool
  private_mem :: bool
  file_pool :: bool

text \<open>The switch of \<open>pmo_init\<close> on the type, for a rounded length: the result, whether it returns at once, and the object.\<close>

definition pmo_setup :: "pmo_env \<Rightarrow> pmo_kind \<Rightarrow> u64 \<Rightarrow> u64 \<Rightarrow> (int \<times> bool \<times> pmobject) option" where
  "pmo_setup env ty len paddr =
     (let pm = \<lparr>pmo_start = 0, pmo_size = len, pmo_type = ty, pmo_radix = False, pmo_private = False, pmo_owner = None\<rparr> in
      case ty of
        PMO_DATA \<Rightarrow> (case kmalloc_pa env len of None \<Rightarrow> Some (- ENOMEM, True, pm) | Some pa \<Rightarrow> Some (0, False, pm\<lparr>pmo_start := pa\<rparr>))
      | PMO_DATA_NOCACHE \<Rightarrow> (case kmalloc_pa env len of None \<Rightarrow> Some (- ENOMEM, True, pm) | Some pa \<Rightarrow> Some (0, False, pm\<lparr>pmo_start := pa\<rparr>))
      | PMO_FILE \<Rightarrow> if \<not> file_pool env then Some (- EINVAL, False, pm)
                   else do { BUG_ON (\<not> radix_mem env); Some (0, False, pm\<lparr>pmo_private := True, pmo_radix := True\<rparr>) }
      | PMO_ANONYM \<Rightarrow> do { BUG_ON (\<not> radix_mem env); Some (0, False, pm\<lparr>pmo_radix := True\<rparr>) }
      | PMO_SHM \<Rightarrow> do { BUG_ON (\<not> radix_mem env); Some (0, False, pm\<lparr>pmo_radix := True\<rparr>) }
      | PMO_DEVICE \<Rightarrow> Some (0, False, pm\<lparr>pmo_start := paddr\<rparr>)
      | PMO_TZ_NS \<Rightarrow> Some (if private_mem env then 0 else - ENOMEM, False, pm\<lparr>pmo_start := paddr, pmo_private := private_mem env\<rparr>)
      | PMO_FORBID \<Rightarrow> Some (0, False, pm)
      | _ \<Rightarrow> Some (- EINVAL, False, pm))"

definition pmo_init :: "pmo_env \<Rightarrow> cap_state \<Rightarrow> nat \<Rightarrow> pmo_kind \<Rightarrow> u64 \<Rightarrow> u64 \<Rightarrow> nat \<Rightarrow> (int \<times> bool \<times> cap_state) option" where
  "pmo_init env st p ty len paddr g =
     do { grp \<leftarrow> groups st g;
          if heap_size_limit grp < heap_size_used grp + len then Some (- ENOMEM, False, st)
          else do {
            let len1 = ROUND_UP len (word_of_nat PAGE_SIZE);
            (r, lk, pm) \<leftarrow> pmo_setup env ty len1 paddr;
            if lk \<or> r \<noteq> 0 then Some (r, lk, st)
            else do {
              (ow, st1) \<leftarrow> obj_get (upd_group st g (grp\<lparr>heap_size_used := heap_size_used grp + len1\<rparr>)) g CAP_GROUP_OBJ_ID TYPE_CAP_GROUP;
              BUG_ON (ow = None);
              Some (0, False, st1\<lparr>pmos := (pmos st1)(p \<mapsto> pm\<lparr>pmo_owner := ow\<rparr>)\<rparr>) } } }"

definition create_pmo :: "pmo_env \<Rightarrow> (nat \<Rightarrow> bool) \<Rightarrow> u64 \<Rightarrow> cap_state \<Rightarrow> u64 \<Rightarrow> pmo_kind \<Rightarrow> nat \<Rightarrow> u64 \<Rightarrow> (int \<times> bool \<times> cap_state) option" where
  "create_pmo env alloc_ok pmo_bytes st len ty g paddr =
     (case obj_alloc alloc_ok st TYPE_PMO pmo_bytes of
        (None, st1) \<Rightarrow> Some (- ENOMEM, False, st1)
      | (Some p, st1) \<Rightarrow>
          do { (r, lk, st2) \<leftarrow> pmo_init env st1 p ty len paddr g;
               if r \<noteq> 0 then do { st3 \<leftarrow> obj_free st2 (Some p); Some (r, lk, st3) }
               else do {
                 (cap, st3) \<leftarrow> cap_alloc alloc_ok st2 g p;
                 if cap < 0 then do { st4 \<leftarrow> pmo_deinit st3 p; st5 \<leftarrow> obj_free st4 (Some p); Some (cap, lk, st5) }
                 else Some (cap, lk, st3) } })"

definition sys_create_device_pmo ::
  "pmo_env \<Rightarrow> (nat \<Rightarrow> bool) \<Rightarrow> u64 \<Rightarrow> cap_state \<Rightarrow> nat \<Rightarrow> u64 \<Rightarrow> u64 \<Rightarrow> (int \<times> bool \<times> cap_state) option" where
  "sys_create_device_pmo env alloc_ok pmo_bytes st cur paddr len =
     (if len = 0 then Some (- EINVAL, False, st)
      else do {
        grp \<leftarrow> groups st cur;
        let r = hook_sys_create_device_pmo (badge grp);
        if r \<noteq> 0 then Some (r, False, st)
        else create_pmo env alloc_ok pmo_bytes st len PMO_DEVICE cur paddr })"

definition sys_tee_create_ns_pmo ::
  "pmo_env \<Rightarrow> (nat \<Rightarrow> bool) \<Rightarrow> u64 \<Rightarrow> cap_state \<Rightarrow> nat \<Rightarrow> u64 \<Rightarrow> u64 \<Rightarrow> (int \<times> bool \<times> cap_state) option" where
  "sys_tee_create_ns_pmo env alloc_ok pmo_bytes st cur paddr len =
     (if len = 0 then Some (- EINVAL, False, st) else create_pmo env alloc_ok pmo_bytes st len PMO_TZ_NS cur paddr)"

section \<open>Pages of a memory object\<close>

definition commit_page_to_pmo :: "nat \<Rightarrow> pmobject \<Rightarrow> radix \<Rightarrow> u64 \<Rightarrow> addr \<Rightarrow> radix option" where
  "commit_page_to_pmo avail pm rdx index pa =
     do { BUG_ON (pmo_type pm \<noteq> PMO_ANONYM \<and> pmo_type pm \<noteq> PMO_SHM \<and> pmo_type pm \<noteq> PMO_FILE);
          (ret, _, rdx1) \<leftarrow> radix_add avail rdx index pa;
          BUG_ON (ret \<noteq> 0);
          Some rdx1 }"

definition get_page_from_pmo :: "radix \<Rightarrow> u64 \<Rightarrow> addr option" where
  "get_page_from_pmo rdx index = radix_get rdx index"

section \<open>Transfer of ownership\<close>

text \<open>The part under the locks; the flag tells whether the reference to the target is still to be dropped.\<close>

definition move_pmo :: "cap_state \<Rightarrow> nat \<Rightarrow> nat \<Rightarrow> nat \<Rightarrow> (int \<times> bool \<times> cap_state) option" where
  "move_pmo st p cur tg =
     do { pm \<leftarrow> pmos st p;
          if pmo_owner pm = Some cur
          then do {
            tgrp \<leftarrow> groups st tg;
            cgrp \<leftarrow> groups st cur;
            if heap_size_used tgrp + pmo_size pm \<le> heap_size_limit tgrp
            then do {
              let st1 = upd_group st cur (cgrp\<lparr>heap_size_used := heap_size_used cgrp - pmo_size pm\<rparr>);
              let st2 = upd_group st1 tg (tgrp\<lparr>heap_size_used := heap_size_used tgrp + pmo_size pm\<rparr>);
              let st3 = st2\<lparr>pmos := (pmos st2)(p \<mapsto> pm\<lparr>pmo_owner := Some tg\<rparr>)\<rparr>;
              st4 \<leftarrow> obj_put st3 cur;
              Some (0, False, st4) }
            else Some (- ENOMEM, True, st) }
          else Some (- EINVAL, True, st) }"

definition sys_transfer_pmo_owner :: "cap_state \<Rightarrow> nat \<Rightarrow> int \<Rightarrow> int \<Rightarrow> (int \<times> cap_state) option" where
  "sys_transfer_pmo_owner st cur pmo cap_group =
     do { (po, st1) \<leftarrow> obj_get st cur pmo TYPE_PMO;
          case po of
            None \<Rightarrow> Some (- ECAPBILITY, st1)
          | Some p \<Rightarrow> do {
              pm \<leftarrow> pmos st1 p;
              (ret, st4) \<leftarrow>
                (if pmo_type pm = PMO_TZASC_CMA then Some (- EINVAL, st1)
                 else do {
                   (tgo, st2) \<leftarrow> obj_get st1 cur cap_group TYPE_CAP_GROUP;
                   case tgo of
                     None \<Rightarrow> Some (- ECAPBILITY, st2)
                   | Some tg \<Rightarrow> do {
                       (ret, put_tg, st3) \<leftarrow> (if tg = cur then Some (0, True, st2) else move_pmo st2 p cur tg);
                       st4 \<leftarrow> (if put_tg then obj_put st3 tg else Some st3);
                       Some (ret, st4) } });
              st5 \<leftarrow> obj_put st4 p;
              Some (ret, st5) } }"

section \<open>Correctness of creation\<close>

text \<open>The lookup of a group in its own table does not read the heap counters.\<close>

lemma obj_get_heap:
  assumes g: "groups st g = Some grp" and o: "obj_get st g sid ty = Some (Some ob, st2)"
  shows "obj_get (upd_group st g (grp\<lparr>heap_size_used := u\<rparr>)) g sid ty = Some (Some ob, upd_group st2 g (grp\<lparr>heap_size_used := u\<rparr>))"
  using o g by (auto simp: obj_get_def get_opaque_def upd_group_def upd_object_def BUG_ON_def split: if_splits elim!: bind_SomeE)

lemma pmo_setup_ok:
  assumes "pmo_setup env ty len paddr = Some (0, False, pm)"
  shows "pmo_size pm = len" "pmo_type pm = ty" "ty \<noteq> PMO_DEVICE \<Longrightarrow> pmo_release (pm\<lparr>pmo_owner := ow\<rparr>) = Some ()"
    "ty = PMO_DEVICE \<Longrightarrow> \<not> pmo_private pm"
  using assms
  by (auto simp: pmo_setup_def pmo_release_def Let_def BUG_ON_def ENOMEM_def EINVAL_def split: pmo_kind.splits option.splits if_splits)

lemma pmo_setup_held: "pmo_setup env ty len paddr = Some (r, lk, pm) \<Longrightarrow> lk \<Longrightarrow> r \<noteq> 0"
  by (auto simp: pmo_setup_def Let_def BUG_ON_def ENOMEM_def EINVAL_def split: pmo_kind.splits option.splits if_splits)

lemma pmo_setup_total: "radix_mem env \<Longrightarrow> \<exists>r lk pm. pmo_setup env ty len paddr = Some (r, lk, pm) \<and> r \<le> 0"
  by (cases ty) (auto simp: pmo_setup_def Let_def BUG_ON_def ENOMEM_def EINVAL_def split: option.splits)

lemma self_get:
  assumes inv: "cap_inv st H" and g: "groups st g = Some grp" and self: "caps st g 0 = Some g" and b: "refs st H g + 1 < 2 ^ 64"
  obtains x where "objects st g = Some x" "obj_get st g CAP_GROUP_OBJ_ID TYPE_CAP_GROUP = Some (Some g, upd_object st g (x\<lparr>refcount := refcount x + 1\<rparr>))"
    "cap_inv (upd_object st g (x\<lparr>refcount := refcount x + 1\<rparr>)) (H(g := H g + 1))"
    "caps (upd_object st g (x\<lparr>refcount := refcount x + 1\<rparr>)) = caps st"
proof -
  have l: "cap_lookup st g CAP_GROUP_OBJ_ID = Some g" using self by (simp add: cap_lookup_def CAP_GROUP_OBJ_ID_def)
  obtain y where y: "objects st g = Some y" "obj_type y = TYPE_CAP_GROUP" using cap_invD(2) [OF inv g] by blast
  have bb: "\<And>ob. cap_lookup st g CAP_GROUP_OBJ_ID = Some ob \<Longrightarrow> refs st H ob + 1 < 2 ^ 64" using l b by simp
  from get_opaque_ok [OF inv g bb, of CAP_GROUP_OBJ_ID "Some TYPE_CAP_GROUP"] l y show ?thesis using that by (auto simp: obj_get_def)
qed

text \<open>A successful \<open>pmo_init\<close> charges the rounded length to the group and takes a reference to it.\<close>

lemma pmo_init_ok:
  assumes inv: "cap_inv st H" and g: "groups st g = Some grp" and self: "caps st g 0 = Some g" and b: "refs st H g + 1 < 2 ^ 64"
    and p: "pmos st p = None" "objects st p = Some x" "obj_type x = TYPE_PMO" and env: "radix_mem env"
  shows "\<exists>r lk st'. pmo_init env st p ty len paddr g = Some (r, lk, st') \<and> (r < 0 \<and> st' = st \<or>
    r = 0 \<and> \<not> lk \<and> cap_inv st' H \<and> caps st' = caps st \<and> objects st' p = Some x \<and> threads st' = threads st \<and> next_obj st' = next_obj st \<and>
    heap_size_used grp + len \<le> heap_size_limit grp \<and>
    groups st' = (groups st)(g \<mapsto> grp\<lparr>heap_size_used := heap_size_used grp + ROUND_UP len (word_of_nat PAGE_SIZE)\<rparr>) \<and>
    (\<exists>pm. pmos st' = (pmos st)(p \<mapsto> pm) \<and> pmo_size pm = ROUND_UP len (word_of_nat PAGE_SIZE) \<and> pmo_type pm = ty \<and> pmo_owner pm = Some g \<and>
       (ty \<noteq> PMO_DEVICE \<longrightarrow> pmo_release pm = Some ()) \<and> (ty = PMO_DEVICE \<longrightarrow> pmo_release pm = None)))"
proof (cases "heap_size_limit grp < heap_size_used grp + len")
  case True
  then have "pmo_init env st p ty len paddr g = Some (- ENOMEM, False, st)" "- ENOMEM < 0" using g by (simp_all add: pmo_init_def ENOMEM_def)
  then show ?thesis by blast
next
  case False
  define len1 where "len1 = ROUND_UP len (word_of_nat PAGE_SIZE)"
  obtain r lk pm where s: "pmo_setup env ty len1 paddr = Some (r, lk, pm)" "r \<le> 0" using pmo_setup_total [OF env] by blast
  show ?thesis
  proof (cases "r = 0")
    case nz: False
    then have "pmo_init env st p ty len paddr g = Some (r, lk, st)" "r < 0" using s g False by (simp_all add: pmo_init_def len1_def)
    then show ?thesis by blast
  next
    case True
    then have h: "\<not> lk" using pmo_setup_held [OF s(1)] by blast
    then have s0: "pmo_setup env ty len1 paddr = Some (0, False, pm)" using s(1) True by simp
    note ps = pmo_setup_ok [OF s0]
    obtain y where y: "objects st g = Some y"
        "obj_get st g CAP_GROUP_OBJ_ID TYPE_CAP_GROUP = Some (Some g, upd_object st g (y\<lparr>refcount := refcount y + 1\<rparr>))"
        "cap_inv (upd_object st g (y\<lparr>refcount := refcount y + 1\<rparr>)) (H(g := H g + 1))"
        "caps (upd_object st g (y\<lparr>refcount := refcount y + 1\<rparr>)) = caps st"
      using self_get [OF inv g self b] by blast
    have gt: "obj_type y = TYPE_CAP_GROUP" using cap_invD(2) [OF inv g] y(1) by auto
    then have gp: "g \<noteq> p" using p(2,3) y(1) by auto
    define st1 where "st1 = upd_object st g (y\<lparr>refcount := refcount y + 1\<rparr>)"
    define pm' where "pm' = pm\<lparr>pmo_owner := Some g\<rparr>"
    define st' where "st' = (upd_group st1 g (grp\<lparr>heap_size_used := heap_size_used grp + len1\<rparr>))\<lparr>pmos := (pmos st)(p \<mapsto> pm')\<rparr>"
    have f: "groups st1 = groups st" "pmos st1 = pmos st" "objects st1 p = Some x" using gp p(2) by (simp_all add: st1_def upd_object_def)
    have g1: "groups st1 g = Some grp" and p1: "pmos st1 p = None" using g p(1) f by simp_all
    have I1: "cap_inv st1 (H(g := H g + 1))" using y(3) by (simp add: st1_def)
    have e: "pmo_init env st p ty len paddr g = Some (0, False, st')"
      using g False s0 obj_get_heap [OF g y(2)]
      by (simp add: pmo_init_def len1_def [symmetric] BUG_ON_def st'_def st1_def pm'_def upd_group_def upd_object_def)
    have "cap_inv st' ((H(g := H g + 1))(g := (H(g := H g + 1)) g - 1))" "caps st' = caps st1"
      using charge_inv [OF I1 g1 _ p1 f(3) p(3), of pm' st'] ps(1) f by (simp_all add: st'_def pm'_def upd_group_def)
    then have I': "cap_inv st' H" "caps st' = caps st" using y(4) by (simp_all add: st1_def)
    have rel: "ty \<noteq> PMO_DEVICE \<longrightarrow> pmo_release pm' = Some ()" "ty = PMO_DEVICE \<longrightarrow> pmo_release pm' = None"
      using ps(2,4) ps(3) [of "Some g"] by (simp_all add: pm'_def pmo_release_def BUG_ON_def)
    have "pmos st' = (pmos st)(p \<mapsto> pm')" "pmo_size pm' = len1" "pmo_type pm' = ty" "pmo_owner pm' = Some g"
      using ps(1,2) by (simp_all add: st'_def pm'_def)
    moreover have "objects st' p = Some x" "threads st' = threads st" "next_obj st' = next_obj st"
        "groups st' = (groups st)(g \<mapsto> grp\<lparr>heap_size_used := heap_size_used grp + len1\<rparr>)"
      using f by (simp_all add: st'_def st1_def upd_group_def upd_object_def)
    ultimately show ?thesis using e I' rel False unfolding len1_def by (intro exI [of _ 0] exI [of _ False] exI [of _ st']) auto
  qed
qed

lemma cap_alloc_frame:
  assumes "cap_alloc alloc_ok st g ob = Some (r, st')"
  shows "pmos st' = pmos st" "map_option heap_size_used (groups st' h) = map_option heap_size_used (groups st h)"
    "map_option heap_size_limit (groups st' h) = map_option heap_size_limit (groups st h)" "h \<noteq> g \<Longrightarrow> groups st' h = groups st h"
  using assms by (auto simp: cap_alloc_def upd_group_def upd_object_def Let_def BUG_ON_def split: if_splits elim!: bind_SomeE)

text \<open>What a new memory object of the group looks like.\<close>

definition new_pmo :: "cap_state \<Rightarrow> cap_state \<Rightarrow> nat \<Rightarrow> pmo_kind \<Rightarrow> u64 \<Rightarrow> nat \<Rightarrow> bool" where
  "new_pmo st st' g ty len p \<longleftrightarrow>
     (\<exists>pm. pmos st' = (pmos st)(p \<mapsto> pm) \<and> pmo_size pm = ROUND_UP len (word_of_nat PAGE_SIZE) \<and> pmo_type pm = ty \<and> pmo_owner pm = Some g \<and>
        (pmo_release pm = Some ()) = (ty \<noteq> PMO_DEVICE)) \<and> (\<forall>h. h \<noteq> g \<longrightarrow> groups st' h = groups st h) \<and>
     (\<exists>grp grp'. groups st g = Some grp \<and> groups st' g = Some grp' \<and> heap_size_used grp + len \<le> heap_size_limit grp \<and>
        heap_size_used grp' = heap_size_used grp + ROUND_UP len (word_of_nat PAGE_SIZE) \<and> heap_size_limit grp' = heap_size_limit grp)"

lemma create_pmo_ok:
  assumes inv: "cap_inv st H" and mem: "small_memory alloc_ok" and g: "groups st g = Some grp" and self: "caps st g 0 = Some g"
    and b: "refs st H g + 1 < 2 ^ 64" and env: "radix_mem env"
    and dev: "ty = PMO_DEVICE \<Longrightarrow> alloc_ok SLOT_BYTES \<and> alloc_slot_id alloc_ok (slot_tbl grp) \<noteq> Some (- ENOMEM, slot_tbl grp)"
  shows "\<exists>r lk st'. create_pmo env alloc_ok bytes st len ty g paddr = Some (r, lk, st') \<and> cap_inv st' H \<and>
    (r < 0 \<and> caps st' = caps st \<or>
     (\<exists>e. r = int e \<and> \<not> lk \<and> least_free st g e \<and> caps st' = (caps st)(g := (caps st g)(e \<mapsto> next_obj st)) \<and>
        objects st (next_obj st) = None \<and> new_pmo st st' g ty len (next_obj st)))"
proof -
  obtain po st1 where oa: "obj_alloc alloc_ok st TYPE_PMO bytes = (po, st1)" by fastforce
  show ?thesis
  proof (cases po)
    case None
    then have "st1 = st" using oa by (auto simp: obj_alloc_def Let_def split: if_splits)
    then have "create_pmo env alloc_ok bytes st len ty g paddr = Some (- ENOMEM, False, st)" using oa None by (simp add: create_pmo_def)
    moreover have "- ENOMEM < 0" by (simp add: ENOMEM_def)
    ultimately show ?thesis using inv by blast
  next
    case (Some p)
    define x where "x = \<lparr>obj_type = TYPE_PMO, obj_size = bytes, copies = [], refcount = 0\<rparr>"
    note a = obj_alloc_ok [OF inv oa [unfolded Some]]
    have x1: "objects st1 p = Some x" "obj_type x = TYPE_PMO" "refcount x = 0" using a(5) by (simp_all add: x_def)
    have g1: "groups st1 g = Some grp" and self1: "caps st1 g 0 = Some g" using a(2,6) g self by simp_all
    have np: "pmos st p = None" using cap_invD(8) [OF inv, of p] a(4) by (cases "pmos st p") auto
    then have np1: "pmos st1 p = None" using a(7) by simp
    have gp: "g \<noteq> p" using cap_invD(2) [OF inv g] a(4) by auto
    have b1: "refs st1 H g + 1 < 2 ^ 64"
      using b a(10) [OF gp] a(7) by (simp add: refs_def pmos_of_def owner_of_def)
    from pmo_init_ok [OF a(1) g1 self1 b1 np1 x1(1,2) env, of ty len paddr]
    obtain r lk st2 where pi: "pmo_init env st1 p ty len paddr g = Some (r, lk, st2)"
      and c: "r < 0 \<and> st2 = st1 \<or> r = 0 \<and> \<not> lk \<and> cap_inv st2 H \<and> caps st2 = caps st1 \<and> objects st2 p = Some x \<and> threads st2 = threads st1 \<and>
        next_obj st2 = next_obj st1 \<and> heap_size_used grp + len \<le> heap_size_limit grp \<and>
        groups st2 = (groups st1)(g \<mapsto> grp\<lparr>heap_size_used := heap_size_used grp + ROUND_UP len (word_of_nat PAGE_SIZE)\<rparr>) \<and>
        (\<exists>pm. pmos st2 = (pmos st1)(p \<mapsto> pm) \<and> pmo_size pm = ROUND_UP len (word_of_nat PAGE_SIZE) \<and> pmo_type pm = ty \<and> pmo_owner pm = Some g \<and>
           (ty \<noteq> PMO_DEVICE \<longrightarrow> pmo_release pm = Some ()) \<and> (ty = PMO_DEVICE \<longrightarrow> pmo_release pm = None))" by blast
    from c show ?thesis
    proof (elim disjE conjE exE)
      assume r: "r < 0" "st2 = st1"
      obtain st3 where st3: "obj_free st1 (Some p) = Some st3" "cap_inv st3 H" "caps st3 = caps st1"
        using obj_free_ok [OF a(1) x1(1,3) np1] by blast
      then have "create_pmo env alloc_ok bytes st len ty g paddr = Some (r, lk, st3)" using oa Some pi r by (simp add: create_pmo_def)
      then show ?thesis using st3 r(1) a(2) by auto
    next
      fix pm
      assume r: "r = 0" "\<not> lk" and I2: "cap_inv st2 H" and c2: "caps st2 = caps st1" and o2: "objects st2 p = Some x"
        and lim: "heap_size_used grp + len \<le> heap_size_limit grp"
        and gs: "groups st2 = (groups st1)(g \<mapsto> grp\<lparr>heap_size_used := heap_size_used grp + ROUND_UP len (word_of_nat PAGE_SIZE)\<rparr>)"
        and pm: "pmos st2 = (pmos st1)(p \<mapsto> pm)" "pmo_size pm = ROUND_UP len (word_of_nat PAGE_SIZE)" "pmo_type pm = ty" "pmo_owner pm = Some g"
          "ty \<noteq> PMO_DEVICE \<longrightarrow> pmo_release pm = Some ()" "ty = PMO_DEVICE \<longrightarrow> pmo_release pm = None"
      let ?grp = "grp\<lparr>heap_size_used := heap_size_used grp + ROUND_UP len (word_of_nat PAGE_SIZE)\<rparr>"
      have g2: "groups st2 g = Some ?grp" using gs by simp
      have self2: "(\<exists>i. caps st2 g i \<noteq> None) \<or> p = g" using self1 c2 by (metis option.distinct(1))
      from cap_alloc_ok [OF I2 mem g2 o2 x1(3) self2] obtain st3 where
        ca: "cap_alloc alloc_ok st2 g p = Some (- ENOMEM, st3) \<and> cap_inv st3 H \<and> caps st3 = caps st2 \<and> objects st3 = objects st2 \<or>
          (\<exists>e. cap_alloc alloc_ok st2 g p = Some (int e, st3) \<and> cap_inv st3 H \<and> least_free st2 g e \<and>
            caps st3 = (caps st2)(g := (caps st2 g)(e \<mapsto> p)) \<and> grows st2 st3 p)" by blast
      from ca show ?thesis
      proof (elim disjE conjE exE)
        assume al: "cap_alloc alloc_ok st2 g p = Some (- ENOMEM, st3)" and i3: "cap_inv st3 H" "caps st3 = caps st2" "objects st3 = objects st2"
        have nd: "ty \<noteq> PMO_DEVICE"
        proof
          assume "ty = PMO_DEVICE"
          then have "alloc_ok SLOT_BYTES" "alloc_slot_id alloc_ok (slot_tbl ?grp) \<noteq> Some (- ENOMEM, slot_tbl ?grp)" using dev by simp_all
          from cap_alloc_new [OF I2 mem g2 this o2 x1(3) self2] al show False by (auto simp: ENOMEM_def)
        qed
        have p3: "pmos st3 p = Some pm" using cap_alloc_frame(1) [OF al] pm(1) by simp
        have rel: "pmo_release pm = Some ()" using pm(5) nd by simp
        have n3: "(3 :: nat) = Suc (Suc (Suc 0))" by simp
        obtain st4 where st4: "pmo_deinit st3 p = Some st4" "cap_inv st4 H" "caps st4 = caps st3" "pmos st4 p = None" "objects st4 p = objects st3 p"
          using pmo_deinit_ok [OF i3(1) p3 rel, of 0] unfolding pmo_deinit_def n3 by blast
        have o4: "objects st4 p = Some x" using st4(5) i3(3) o2 by simp
        obtain st5 where st5: "obj_free st4 (Some p) = Some st5" "cap_inv st5 H" "caps st5 = caps st4"
          using obj_free_ok [OF st4(2) o4 x1(3) st4(4)] by blast
        have "create_pmo env alloc_ok bytes st len ty g paddr = Some (- ENOMEM, lk, st5)"
          using oa Some pi r al st4(1) st5(1) by (simp add: create_pmo_def ENOMEM_def)
        moreover have "- ENOMEM < 0" by (simp add: ENOMEM_def)
        ultimately show ?thesis using st5 st4(3) i3(2) c2 a(2) by auto
      next
        fix e
        assume al: "cap_alloc alloc_ok st2 g p = Some (int e, st3)" and i3: "cap_inv st3 H" "least_free st2 g e" "caps st3 = (caps st2)(g := (caps st2 g)(e \<mapsto> p))"
        have "create_pmo env alloc_ok bytes st len ty g paddr = Some (int e, lk, st3)" using oa Some pi r al by (simp add: create_pmo_def)
        moreover have "least_free st g e" using i3(2) c2 a(2) by (simp add: least_free_def)
        moreover have "caps st3 = (caps st)(g := (caps st g)(e \<mapsto> next_obj st))" using i3(3) c2 a(2,3) by simp
        moreover have "new_pmo st st3 g ty len (next_obj st)"
        proof -
          obtain grp' where g3: "groups st3 g = Some grp'" "heap_size_used grp' = heap_size_used ?grp" "heap_size_limit grp' = heap_size_limit ?grp"
            using cap_alloc_frame(2,3) [OF al, of g] g2 by (auto simp: map_option_eq_Some)
          have p3: "pmos st3 = (pmos st)(p \<mapsto> pm)" using cap_alloc_frame(1) [OF al] pm(1) a(7) by simp
          have gh: "\<forall>h. h \<noteq> g \<longrightarrow> groups st3 h = groups st h" using cap_alloc_frame(4) [OF al] gs a(6) by simp
          show ?thesis using g g3 p3 pm lim a(3) gh by (auto simp: new_pmo_def)
        qed
        ultimately show ?thesis using i3(1) r(2) a(3,4) by auto
      qed
    qed
  qed
qed

text \<open>When memory, heap budget and a slot are there, creation succeeds.\<close>

lemma create_pmo_success:
  assumes inv: "cap_inv st H" and mem: "small_memory alloc_ok" and g: "groups st g = Some grp" and self: "caps st g 0 = Some g"
    and b: "refs st H g + 1 < 2 ^ 64" and env: "radix_mem env"
    and al: "alloc_ok (unat (word_of_nat OBJECT_BYTES + bytes))" "alloc_ok SLOT_BYTES"
    and room: "alloc_slot_id alloc_ok (slot_tbl grp) \<noteq> Some (- ENOMEM, slot_tbl grp)"
    and lim: "heap_size_used grp + len \<le> heap_size_limit grp"
    and set: "pmo_setup env ty (ROUND_UP len (word_of_nat PAGE_SIZE)) paddr = Some (0, False, pm)"
    and c: "create_pmo env alloc_ok bytes st len ty g paddr = Some (r, lk, st')"
  shows "0 \<le> r"
proof -
  obtain st1 where oa: "obj_alloc alloc_ok st TYPE_PMO bytes = (Some (next_obj st), st1)" using al(1) by (simp add: obj_alloc_def Let_def)
  define p where "p = next_obj st"
  define x where "x = \<lparr>obj_type = TYPE_PMO, obj_size = bytes, copies = [], refcount = 0\<rparr>"
  note a = obj_alloc_ok [OF inv oa, folded p_def]
  have x1: "objects st1 p = Some x" "obj_type x = TYPE_PMO" "refcount x = 0" using a(5) by (simp_all add: x_def)
  have g1: "groups st1 g = Some grp" and self1: "caps st1 g 0 = Some g" using a(2,6) g self by simp_all
  have np1: "pmos st1 p = None" using cap_invD(8) [OF inv, of p] a(4,7) by (cases "pmos st p") auto
  have gp: "g \<noteq> p" using cap_invD(2) [OF inv g] a(4) by auto
  have b1: "refs st1 H g + 1 < 2 ^ 64" using b a(10) [OF gp] a(7) by (simp add: refs_def pmos_of_def owner_of_def)
  obtain r1 l1 st2 where pi: "pmo_init env st1 p ty len paddr g = Some (r1, l1, st2)"
    and cs: "r1 < 0 \<or> cap_inv st2 H \<and> caps st2 = caps st1 \<and> objects st2 p = Some x \<and>
      groups st2 = (groups st1)(g \<mapsto> grp\<lparr>heap_size_used := heap_size_used grp + ROUND_UP len (word_of_nat PAGE_SIZE)\<rparr>)"
    using pmo_init_ok [OF a(1) g1 self1 b1 np1 x1(1,2) env, of ty len paddr] by blast
  have "\<not> heap_size_limit grp < heap_size_used grp + len" using lim by simp
  then have r1: "r1 = 0" using pi set g1 by (auto simp: pmo_init_def Let_def split: if_splits elim!: bind_SomeE)
  then have I2: "cap_inv st2 H" and c2: "caps st2 = caps st1" and o2: "objects st2 p = Some x"
    and gs: "groups st2 g = Some (grp\<lparr>heap_size_used := heap_size_used grp + ROUND_UP len (word_of_nat PAGE_SIZE)\<rparr>)" using cs by simp_all
  have self2: "(\<exists>i. caps st2 g i \<noteq> None) \<or> p = g" using self1 c2 by (metis option.distinct(1))
  obtain e st3 where "cap_alloc alloc_ok st2 g p = Some (int e, st3)"
    using cap_alloc_new [OF I2 mem gs al(2) _ o2 x1(3) self2] room by auto
  then show ?thesis using c oa pi r1 by (simp add: create_pmo_def p_def)
qed

section \<open>Release and transfer\<close>

lemma obj_put_live:
  assumes inv: "cap_inv st H" and H: "0 < H ob" and r: "refs st H ob \<noteq> 1"
  shows "\<exists>st'. obj_put st ob = Some st' \<and> cap_inv st' (H(ob := H ob - 1)) \<and> caps st' = caps st \<and> groups st' = groups st \<and> pmos st' = pmos st"
proof -
  obtain x where x: "objects st ob = Some x" using cap_invD(7) [OF inv, of ob] H by (cases "objects st ob") auto
  note d = drop_count [OF inv x H]
  have "(5 :: nat) = Suc 4" by simp
  then have "obj_put st ob = Some (upd_object st ob (x\<lparr>refcount := refcount x - 1\<rparr>))"
    unfolding obj_put_def using d(3) r by (simp only: obj_put_n.simps) (simp add: x Let_def)
  then show ?thesis using d(1,2) by (simp add: upd_object_def)
qed

lemma refs_cap:
  assumes inv: "cap_inv st H" and c: "caps st g i = Some ob" and H: "0 < H ob"
  shows "refs st H ob \<noteq> 1"
proof -
  have "(g, i) \<in> cap_set st ob" using c by (simp add: cap_set_def)
  then have "0 < card (cap_set st ob)" using refs_caps(2) [OF inv] by (auto simp: card_gt_0_iff)
  then show ?thesis using refs_caps(1) [OF inv, of ob] H by simp
qed

lemma move_pmo_ok:
  assumes inv: "cap_inv st H" and p: "pmos st p = Some pm" "pmo_owner pm = Some cur" and ne: "tg \<noteq> cur"
    and g: "groups st cur = Some cgrp" "groups st tg = Some tgrp" and H: "0 < H tg" and self: "caps st cur i = Some cur"
    and lim: "heap_size_used tgrp + pmo_size pm \<le> heap_size_limit tgrp"
  shows "\<exists>st'. move_pmo st p cur tg = Some (0, False, st') \<and> cap_inv st' (H(tg := H tg - 1)) \<and> caps st' = caps st \<and>
    pmos st' = (pmos st)(p \<mapsto> pm\<lparr>pmo_owner := Some tg\<rparr>) \<and>
    groups st' = (groups st)(cur \<mapsto> cgrp\<lparr>heap_size_used := heap_size_used cgrp - pmo_size pm\<rparr>, tg \<mapsto> tgrp\<lparr>heap_size_used := heap_size_used tgrp + pmo_size pm\<rparr>)"
proof -
  define sa where "sa = (upd_group st cur (cgrp\<lparr>heap_size_used := heap_size_used cgrp - pmo_size pm\<rparr>))\<lparr>pmos := (pmos st)(p := None)\<rparr>"
  define sb where "sb = (upd_group (upd_group st cur (cgrp\<lparr>heap_size_used := heap_size_used cgrp - pmo_size pm\<rparr>)) tg
      (tgrp\<lparr>heap_size_used := heap_size_used tgrp + pmo_size pm\<rparr>))\<lparr>pmos := (pmos st)(p \<mapsto> pm\<lparr>pmo_owner := Some tg\<rparr>)\<rparr>"
  obtain x where x: "objects st p = Some x" "obj_type x = TYPE_PMO" using cap_invD(8) [OF inv p(1)] by auto
  have A: "cap_inv sa (H(cur := H cur + 1))" "caps sa = caps st"
    using uncharge_inv [OF inv p g(1), of sa] by (simp_all add: sa_def upd_group_def)
  have sg: "groups sa tg = Some tgrp" "pmos sa p = None" "objects sa p = Some x" using g(2) ne x(1) by (simp_all add: sa_def upd_group_def)
  have B: "cap_inv sb ((H(cur := H cur + 1))(tg := (H(cur := H cur + 1)) tg - 1))" "caps sb = caps sa"
    using charge_inv [OF A(1) sg(1) _ sg(2,3) x(2), of "pm\<lparr>pmo_owner := Some tg\<rparr>" sb] H ne
    by (simp_all add: sa_def sb_def upd_group_def)
  let ?H = "H(cur := H cur + 1, tg := H tg - 1)"
  have B': "cap_inv sb ?H" using B(1) ne by simp
  have "caps sb cur i = Some cur" using B(2) A(2) self by simp
  then have "refs sb ?H cur \<noteq> 1" by (rule refs_cap [OF B']) (use ne in simp)
  then obtain st' where st': "obj_put sb cur = Some st'" "cap_inv st' (?H(cur := ?H cur - 1))" "caps st' = caps sb" "groups st' = groups sb" "pmos st' = pmos sb"
    using obj_put_live [OF B', of cur] ne by auto
  have "?H(cur := ?H cur - 1) = H(tg := H tg - 1)" using ne by (auto simp: fun_eq_iff)
  then have "cap_inv st' (H(tg := H tg - 1))" using st'(2) by simp
  moreover have "move_pmo st p cur tg = Some (0, False, st')"
    using p g lim st'(1) by (simp add: move_pmo_def Let_def sb_def upd_group_def)
  ultimately show ?thesis using st' B(2) A(2) by (simp add: sb_def upd_group_def)
qed

lemma no_caps_to_new:
  assumes inv: "cap_inv st H" and "objects st ob = None"
  shows "cap_set st ob = {}"
  using cap_invD(4) [OF inv] assms(2) by (fastforce simp: cap_set_def caps_def bind_eq_Some_conv)

lemma free_unset_pmo:
  assumes "objects st p = Some x" "obj_type x = TYPE_PMO" "pmos st p = Some pm" "pmo_release pm = None"
  shows "free_object_internal st p = None"
proof -
  have "(4 :: nat) = Suc 3" by simp
  then show ?thesis unfolding free_object_internal_def
    by (simp only: free_object_n.simps) (simp add: assms pmo_deinit_n.simps Let_def)
qed

lemma device_pmo_last:
  assumes inv: "cap_inv st H" and inv': "cap_inv st' H" and self: "caps st g 0 = Some g" and e: "least_free st g e"
    and c: "caps st' = (caps st)(g := (caps st g)(e \<mapsto> p))" and new: "objects st p = None" and pmo: "new_pmo st st' g PMO_DEVICE len p"
  shows "cap_free st' g (int e) = None"
proof -
  obtain pm where pm: "pmos st' p = Some pm" "pmo_release pm \<noteq> Some ()" using pmo by (auto simp: new_pmo_def)
  have rel: "pmo_release pm = None" using pm(2) by (cases "pmo_release pm") auto
  obtain x where x: "objects st' p = Some x" "obj_type x = TYPE_PMO" using cap_invD(8) [OF inv' pm(1)] by auto
  have "e \<noteq> 0" using e self unfolding least_free_def by (metis option.distinct(1))
  have l: "cap_lookup st' g (int e) = Some p" using c by (simp add: cap_lookup_def)
  have "cap_set st' p = {(g, e)}" using no_caps_to_new [OF inv new] c by (auto simp: cap_set_def split: if_splits)
  moreover have "pmos_of st' p = {}"
  proof -
    have "pmo_owner q \<noteq> Some p" if "pmos st' r = Some q" for r q
      using cap_invD(8) [OF inv' that] cap_invD(2) [OF inv', of p] x by auto
    then show ?thesis by (auto simp: pmos_of_def owner_of_def bind_eq_Some_conv)
  qed
  moreover have "H p = 0" using cap_invD(7) [OF inv new] by simp
  ultimately have r: "refs st' H p = 1" using refs_caps(1) [OF inv', of p] by simp
  have "int e = 0 \<longrightarrow> (\<forall>i. i \<noteq> 0 \<longrightarrow> caps st' g i = None)" using \<open>e \<noteq> 0\<close> by simp
  from cap_free_step [OF inv' l this] r x(1) obtain s st1 where st1:
      "cap_free st' g (int e) = free_object_internal st1 p \<bind> (\<lambda>st2. Some (0, st2))"
      "objects st1 = (objects st')(p \<mapsto> x\<lparr>copies := remove1 s (copies x), refcount := refcount x - 1\<rparr>)" "frame st' st1" by auto
  have "free_object_internal st1 p = None"
    by (rule free_unset_pmo [where x = "x\<lparr>copies := remove1 s (copies x), refcount := refcount x - 1\<rparr>", OF _ _ _ rel])
       (use st1(2,3) x(2) pm(1) in \<open>simp_all add: frame_def\<close>)
  then show ?thesis using st1(1) by simp
qed

lemma obj_get_found:
  assumes inv: "cap_inv st H" and g: "groups st g = Some grp" and b: "bounded st H 1"
    and l: "cap_lookup st g sid = Some ob" and x: "objects st ob = Some x" "obj_type x = ty"
  shows "\<exists>st1. obj_get st g sid ty = Some (Some ob, st1)"
proof -
  have bb: "\<And>ob. refs st H ob + 1 < 2 ^ 64" using b by (simp add: bounded_def)
  from get_opaque_ok [OF inv g bb, of sid "Some ty"] l x show ?thesis by (auto simp: obj_get_def)
qed

lemma bounded_get:
  assumes inv: "cap_inv st H" "cap_inv st1 (H(ob := H ob + 1))" and e: "caps st1 = caps st" "pmos st1 = pmos st" and b: "bounded st H 2"
  shows "bounded st1 (H(ob := H ob + 1)) 1"
  unfolding bounded_def
proof
  fix o'
  have "refs st1 (H(ob := H ob + 1)) o' \<le> refs st H o' + 1"
    using refs_caps(1) [OF inv(1), of o'] refs_caps(1) [OF inv(2), of o'] e by (simp add: cap_set_def pmos_of_def owner_of_def)
  moreover have "refs st H o' + 2 < 2 ^ 64" using b by (simp add: bounded_def)
  ultimately show "refs st1 (H(ob := H ob + 1)) o' + 1 < 2 ^ 64" by linarith
qed

text \<open>The object of the given type behind a capability number.\<close>

definition cap_object :: "cap_state \<Rightarrow> nat \<Rightarrow> int \<Rightarrow> object_type \<Rightarrow> nat option" where
  "cap_object st g sid ty = (case cap_lookup st g sid of None \<Rightarrow> None
     | Some ob \<Rightarrow> if map_option obj_type (objects st ob) = Some ty then Some ob else None)"

lemma cap_objectD:
  assumes "cap_object st g sid ty = Some ob"
  shows "cap_lookup st g sid = Some ob" "\<exists>x. objects st ob = Some x \<and> obj_type x = ty"
  using assms by (auto simp: cap_object_def split: option.splits if_splits)

lemma obj_get_none:
  assumes inv: "cap_inv st H" and g: "groups st g = Some grp" and b: "bounded st H 1" and c: "cap_object st g sid ty = None"
  shows "obj_get st g sid ty = Some (None, st)"
proof -
  have bb: "\<And>ob. refs st H ob + 1 < 2 ^ 64" using b by (simp add: bounded_def)
  from get_opaque_ok [OF inv g bb, of sid "Some ty"] c show ?thesis
    by (auto simp: obj_get_def cap_object_def split: option.splits if_splits)
qed

lemma cap_object_get:
  assumes inv: "cap_inv st H" and g: "groups st g = Some grp" and b: "bounded st H 1"
    and o: "obj_get st g sid ty = Some (Some ob, st1)"
  shows "cap_object st1 g sid' ty' = cap_object st g sid' ty'"
proof -
  have bb: "\<And>ob. refs st H ob + 1 < 2 ^ 64" using b by (simp add: bounded_def)
  note q = obj_get_put [OF inv g b o]
  from get_opaque_ok [OF inv g bb, of sid "Some ty"] q(1) o obtain x where
    "objects st ob = Some x" "st1 = upd_object st ob (x\<lparr>refcount := refcount x + 1\<rparr>)"
    by (auto simp: obj_get_def split: if_splits)
  then have "map_option obj_type (objects st1 ob') = map_option obj_type (objects st ob')" for ob'
    by (simp add: upd_object_def)
  then show ?thesis using q(4) by (simp add: cap_object_def cap_lookup_def cong: option.case_cong)
qed

text \<open>The transfer up to the point where the memory object has been looked up and accepted.\<close>

lemma transfer_pmo_rejected:
  assumes inv: "cap_inv st H" and b: "bounded st H 2" and g: "groups st cur = Some cgrp"
  shows "cap_object st cur pmo TYPE_PMO = None \<Longrightarrow> sys_transfer_pmo_owner st cur pmo cg = Some (- ECAPBILITY, st)"
    "cap_object st cur pmo TYPE_PMO = Some p \<Longrightarrow> pmos st p = Some pm \<Longrightarrow> pmo_type pm = PMO_TZASC_CMA \<Longrightarrow>
      sys_transfer_pmo_owner st cur pmo cg = Some (- EINVAL, st)"
    "cap_object st cur pmo TYPE_PMO = Some p \<Longrightarrow> pmos st p = Some pm \<Longrightarrow> pmo_type pm \<noteq> PMO_TZASC_CMA \<Longrightarrow>
      cap_object st cur cg TYPE_CAP_GROUP = None \<Longrightarrow> sys_transfer_pmo_owner st cur pmo cg = Some (- ECAPBILITY, st)"
proof -
  have b1: "bounded st H 1" by (rule bounded_mono [OF b]) simp
  show "cap_object st cur pmo TYPE_PMO = None \<Longrightarrow> sys_transfer_pmo_owner st cur pmo cg = Some (- ECAPBILITY, st)"
    using obj_get_none [OF inv g b1] by (simp add: sys_transfer_pmo_owner_def)
  assume p: "cap_object st cur pmo TYPE_PMO = Some p" "pmos st p = Some pm"
  obtain st1 where o1: "obj_get st cur pmo TYPE_PMO = Some (Some p, st1)"
    using obj_get_found [OF inv g b1] cap_objectD [OF p(1)] by blast
  note q1 = obj_get_put [OF inv g b1 o1]
  show "pmo_type pm = PMO_TZASC_CMA \<Longrightarrow> sys_transfer_pmo_owner st cur pmo cg = Some (- EINVAL, st)"
    using o1 q1(5,8) p(2) by (simp add: sys_transfer_pmo_owner_def)
  have bb: "bounded st1 (H(p := H p + 1)) 1" by (rule bounded_get [OF inv q1(3,4,5) b])
  have g1: "groups st1 cur = Some cgrp" using q1(6) g by simp
  assume "pmo_type pm \<noteq> PMO_TZASC_CMA" "cap_object st cur cg TYPE_CAP_GROUP = None"
  moreover have "cap_object st1 cur cg TYPE_CAP_GROUP = cap_object st cur cg TYPE_CAP_GROUP"
    by (rule cap_object_get [OF inv g b1 o1])
  ultimately show "sys_transfer_pmo_owner st cur pmo cg = Some (- ECAPBILITY, st)"
    using obj_get_none [OF q1(3) g1 bb, of cg TYPE_CAP_GROUP] o1 q1(5,8) p(2) by (simp add: sys_transfer_pmo_owner_def)
qed

lemma transfer_pmo_ok:
  assumes inv: "cap_inv st H" and b: "bounded st H 2" and g: "groups st cur = Some cgrp" "groups st tg = Some tgrp"
    and l: "cap_lookup st cur pmo = Some p" "cap_lookup st cur cg = Some tg" and self: "caps st cur 0 = Some cur"
    and p: "pmos st p = Some pm" "pmo_type pm \<noteq> PMO_TZASC_CMA"
  shows "if tg = cur then sys_transfer_pmo_owner st cur pmo cg = Some (0, st)
    else if pmo_owner pm \<noteq> Some cur then sys_transfer_pmo_owner st cur pmo cg = Some (- EINVAL, st)
    else if heap_size_used tgrp + pmo_size pm \<le> heap_size_limit tgrp
    then \<exists>st'. sys_transfer_pmo_owner st cur pmo cg = Some (0, st') \<and> cap_inv st' H \<and> caps st' = caps st \<and> pmos st' = (pmos st)(p \<mapsto> pm\<lparr>pmo_owner := Some tg\<rparr>) \<and>
      groups st' = (groups st)(cur \<mapsto> cgrp\<lparr>heap_size_used := heap_size_used cgrp - pmo_size pm\<rparr>, tg \<mapsto> tgrp\<lparr>heap_size_used := heap_size_used tgrp + pmo_size pm\<rparr>)
    else sys_transfer_pmo_owner st cur pmo cg = Some (- ENOMEM, st)"
proof -
  have b1: "bounded st H 1" by (rule bounded_mono [OF b]) simp
  obtain x where x: "objects st p = Some x" "obj_type x = TYPE_PMO" using cap_invD(8) [OF inv p(1)] by auto
  obtain y where y: "objects st tg = Some y" "obj_type y = TYPE_CAP_GROUP" using cap_invD(2) [OF inv g(2)] by auto
  have pt: "p \<noteq> tg" using x y by auto
  obtain st1 where o1: "obj_get st cur pmo TYPE_PMO = Some (Some p, st1)" using obj_get_found [OF inv g(1) b1 l(1) x] by blast
  note q1 = obj_get_put [OF inv g(1) b1 o1]
  let ?H1 = "H(p := H p + 1)"
  have bb: "bounded st1 ?H1 1" by (rule bounded_get [OF inv q1(3,4,5) b])
  have g1: "groups st1 cur = Some cgrp" "groups st1 tg = Some tgrp" using q1(6) g by simp_all
  have l1: "cap_lookup st1 cur cg = Some tg" using l(2) q1(4) by (simp add: cap_lookup_def)
  obtain y1 where y1: "objects st1 tg = Some y1" "obj_type y1 = TYPE_CAP_GROUP" using cap_invD(2) [OF q1(3) g1(2)] by auto
  obtain st2 where o2: "obj_get st1 cur cg TYPE_CAP_GROUP = Some (Some tg, st2)" using obj_get_found [OF q1(3) g1(1) bb l1 y1] by blast
  note q2 = obj_get_put [OF q1(3) g1(1) bb o2]
  let ?H2 = "?H1(tg := ?H1 tg + 1)"
  have p2: "pmos st2 p = Some pm" using q2(5) q1(5) p(1) by simp
  have g2: "groups st2 cur = Some cgrp" "groups st2 tg = Some tgrp" using q2(6) g1 by simp_all
  have s2: "caps st2 cur 0 = Some cur" using q2(4) q1(4) self by simp
  have pm1: "pmos st1 p = Some pm" using q1(5) p(1) by simp
  have unf: "sys_transfer_pmo_owner st cur pmo cg =
      do { (ret, put_tg, st3) \<leftarrow> (if tg = cur then Some (0, True, st2) else move_pmo st2 p cur tg);
           st4 \<leftarrow> (if put_tg then obj_put st3 tg else Some st3); st5 \<leftarrow> obj_put st4 p; Some (ret, st5) }"
    using o1 o2 pm1 p(2) by (auto simp: sys_transfer_pmo_owner_def case_prod_beta intro!: arg_cong [where f = "Option.bind _"] split: Option.bind_split)
  consider (self) "tg = cur" | (other) "tg \<noteq> cur" "pmo_owner pm \<noteq> Some cur"
    | (move) "tg \<noteq> cur" "pmo_owner pm = Some cur" "heap_size_used tgrp + pmo_size pm \<le> heap_size_limit tgrp"
    | (full) "tg \<noteq> cur" "pmo_owner pm = Some cur" "\<not> heap_size_used tgrp + pmo_size pm \<le> heap_size_limit tgrp" by blast
  then show ?thesis
  proof cases
    case self
    then show ?thesis using unf q1(8) q2(8) by simp
  next
    case other
    then have "move_pmo st2 p cur tg = Some (- EINVAL, True, st2)" using p2 by (simp add: move_pmo_def)
    then show ?thesis using other unf q1(8) q2(8) by simp
  next
    case move
    obtain st3 where st3: "move_pmo st2 p cur tg = Some (0, False, st3)" "cap_inv st3 (?H2(tg := ?H2 tg - 1))" "caps st3 = caps st2"
        "pmos st3 = (pmos st2)(p \<mapsto> pm\<lparr>pmo_owner := Some tg\<rparr>)"
        "groups st3 = (groups st2)(cur \<mapsto> cgrp\<lparr>heap_size_used := heap_size_used cgrp - pmo_size pm\<rparr>, tg \<mapsto> tgrp\<lparr>heap_size_used := heap_size_used tgrp + pmo_size pm\<rparr>)"
      using move_pmo_ok [OF q2(3) p2 move(2,1) g2 _ s2 move(3)] by auto
    have "?H2(tg := ?H2 tg - 1) = ?H1" by (auto simp: fun_eq_iff)
    then have I3: "cap_inv st3 ?H1" using st3(2) by simp
    have "caps st3 cur (nat pmo) = Some p" using st3(3) q2(4) q1(4) l(1) by (simp add: cap_lookup_def split: if_splits)
    then have "refs st3 ?H1 p \<noteq> 1" by (rule refs_cap [OF I3]) simp
    then obtain st5 where st5: "obj_put st3 p = Some st5" "cap_inv st5 (?H1(p := ?H1 p - 1))" "caps st5 = caps st3" "groups st5 = groups st3" "pmos st5 = pmos st3"
      using obj_put_live [OF I3, of p] by auto
    have "?H1(p := ?H1 p - 1) = H" by (auto simp: fun_eq_iff)
    then show ?thesis using move unf st3 st5 q1(4,5,6) q2(4,5,6) by simp
  next
    case full
    then have "move_pmo st2 p cur tg = Some (- ENOMEM, True, st2)" using p2 g2 by (simp add: move_pmo_def)
    then show ?thesis using full unf q1(8) q2(8) by simp
  qed
qed

section \<open>An example system\<close>

definition demo_env :: pmo_env where
  "demo_env = \<lparr>kmalloc_pa = (\<lambda>_. Some 0x80000000), radix_mem = True, private_mem = True, file_pool = False\<rparr>"

text \<open>Two groups without memory objects and without a heap limit.\<close>

definition demo_groups :: "cap_state \<Rightarrow> bool" where
  "demo_groups st \<longleftrightarrow> cap_inv st (\<lambda>_. 0) \<and> caps st = (\<lambda>_ _. None)(0 := [0 \<mapsto> 0, 1 \<mapsto> 1, 2 \<mapsto> 2], 2 := [0 \<mapsto> 2, 1 \<mapsto> 3]) \<and>
     pmos st = (\<lambda>_. None) \<and> bounded st (\<lambda>_. 0) 100 \<and>
     (\<forall>g grp. groups st g = Some grp \<longrightarrow> heap_size_limit grp = - 1 \<and> heap_size_used grp = 0)"

lemma demo_groups_ex: "\<exists>st. demo_groups st"
proof -
  obtain st where st: "cap_inv st (\<lambda>_. 0)" "caps st = (\<lambda>_ _. None)(0 := [0 \<mapsto> 0, 1 \<mapsto> 1, 2 \<mapsto> 2], 2 := [0 \<mapsto> 2, 1 \<mapsto> 3])"
    "bounded st (\<lambda>_. 0) 100" "pmos st = (\<lambda>_. None)" using demo_two_groups by blast
  let ?st = "st\<lparr>groups := (\<lambda>g. map_option (\<lambda>grp. grp\<lparr>heap_size_limit := - 1\<rparr>) (groups st g))\<rparr>"
  have core: "map_option grp_core (groups ?st g) = map_option grp_core (groups st g)" for g
    by (cases "groups st g") (simp_all add: grp_core_def)
  note c = cap_inv_cong [of ?st st, OF _ _ _ _ _ core]
  have i: "cap_inv ?st (\<lambda>_. 0)" "caps ?st = caps st" using c st(1) by simp_all
  have "bounded ?st (\<lambda>_. 0) 100" using st(3,4) by (simp add: bounded_def refs_def pmos_of_def owner_of_def)
  moreover have "heap_size_used grp = 0" if "groups ?st g = Some grp" for g grp
    using cap_inv_dest(6) [OF i(1)] that st(4) by (auto simp: heap_ok_def pmos_of_def owner_of_def)
  ultimately show ?thesis using i st(2,4) by (intro exI [of _ ?st]) (auto simp: demo_groups_def)
qed

lemma demo_groups_facts:
  assumes "demo_groups st"
  obtains g0 where "cap_inv st (\<lambda>_. 0)" "groups st 0 = Some g0" "caps st 0 0 = Some 0" "refs st (\<lambda>_. 0) 0 + 1 < 2 ^ 64"
    "heap_size_limit g0 = - 1" "heap_size_used g0 = 0" "alloc_slot_id demo_alloc (slot_tbl g0) \<noteq> Some (- ENOMEM, slot_tbl g0)"
proof -
  have i: "cap_inv st (\<lambda>_. 0)" and b: "bounded st (\<lambda>_. 0) 100" and c: "caps st 0 0 = Some 0" "caps st 0 5 = None"
    using assms by (simp_all add: demo_groups_def)
  obtain g0 where g0: "groups st 0 = Some g0" using groups_if_caps [of st 0 0] c by auto
  have "refs st (\<lambda>_. 0) 0 + 100 < 2 ^ 64" using b by (simp add: bounded_def)
  then show ?thesis
    using that [OF i g0 c(1)] assms g0 cap_room [OF i demo_alloc_simps(1) g0 _ c(2)] by (simp add: demo_groups_def)
qed

section \<open>Properties\<close>

text \<open>
  C38. Creating a memory object (of any type but a device) keeps the capability invariant: a failure leaves every capability as it
  was, and a success gives the group its lowest unused number for a new object whose rounded size is charged to the heap of
  the group, whose unrounded size was within the limit, and which can be freed. Creation does succeed when memory, heap budget and a slot are available.
\<close>

theorem create_pmo_correct:
  assumes "cap_inv st H" "small_memory alloc_ok" "groups st g = Some grp" "caps st g 0 = Some g" "refs st H g + 1 < 2 ^ 64" "radix_mem env" "ty \<noteq> PMO_DEVICE"
  shows "\<exists>r lk st'. create_pmo env alloc_ok bytes st len ty g paddr = Some (r, lk, st') \<and> cap_inv st' H \<and>
    (r < 0 \<and> caps st' = caps st \<or>
     (\<exists>e. r = int e \<and> \<not> lk \<and> least_free st g e \<and> caps st' = (caps st)(g := (caps st g)(e \<mapsto> next_obj st)) \<and> new_pmo st st' g ty len (next_obj st))) \<and>
    (alloc_ok (unat (word_of_nat OBJECT_BYTES + bytes)) \<longrightarrow> alloc_ok SLOT_BYTES \<longrightarrow>
     alloc_slot_id alloc_ok (slot_tbl grp) \<noteq> Some (- ENOMEM, slot_tbl grp) \<longrightarrow> heap_size_used grp + len \<le> heap_size_limit grp \<longrightarrow>
     (\<exists>pm. pmo_setup env ty (ROUND_UP len (word_of_nat PAGE_SIZE)) paddr = Some (0, False, pm)) \<longrightarrow> 0 \<le> r)"
proof -
  obtain r lk st' where c: "create_pmo env alloc_ok bytes st len ty g paddr = Some (r, lk, st')" "cap_inv st' H"
    "r < 0 \<and> caps st' = caps st \<or> (\<exists>e. r = int e \<and> \<not> lk \<and> least_free st g e \<and>
       caps st' = (caps st)(g := (caps st g)(e \<mapsto> next_obj st)) \<and> objects st (next_obj st) = None \<and> new_pmo st st' g ty len (next_obj st))"
    using create_pmo_ok [OF assms(1-6), of ty bytes len paddr] assms(7) by blast
  show ?thesis
    using c create_pmo_success [OF assms(1-6) _ _ _ _ _ c(1)] by (intro exI [of _ r] exI [of _ lk] exI [of _ st']) blast
qed

theorem create_pmo_correct_witness:
  "\<exists>st r lk st'. demo_groups st \<and> create_pmo demo_env demo_alloc 512 st 5000 PMO_ANONYM 0 0 = Some (r, lk, st') \<and> 0 \<le> r \<and>
     new_pmo st st' 0 PMO_ANONYM 5000 (next_obj st)"
proof -
  obtain st where st: "demo_groups st" using demo_groups_ex by blast
  obtain g0 where f: "cap_inv st (\<lambda>_. 0)" "groups st 0 = Some g0" "caps st 0 0 = Some 0" "refs st (\<lambda>_. 0) 0 + 1 < 2 ^ 64"
    "heap_size_limit g0 = - 1" "heap_size_used g0 = 0" "alloc_slot_id demo_alloc (slot_tbl g0) \<noteq> Some (- ENOMEM, slot_tbl g0)"
    using demo_groups_facts [OF st] by blast
  have e: "radix_mem demo_env" "PMO_ANONYM \<noteq> PMO_DEVICE" by (simp_all add: demo_env_def)
  have s: "\<exists>pm. pmo_setup demo_env PMO_ANONYM (ROUND_UP 5000 (word_of_nat PAGE_SIZE)) 0 = Some (0, False, pm)"
    by (simp add: pmo_setup_def demo_env_def Let_def BUG_ON_def)
  have l: "heap_size_used g0 + 5000 \<le> heap_size_limit g0" using f(5,6) by simp
  from create_pmo_correct [OF f(1) demo_alloc_simps(1) f(2,3,4) e, of 512 5000 0] demo_alloc_simps(2,6) f(7) s l
  obtain r lk st' where "create_pmo demo_env demo_alloc 512 st 5000 PMO_ANONYM 0 0 = Some (r, lk, st')" "0 \<le> r"
    "new_pmo st st' 0 PMO_ANONYM 5000 (next_obj st)" by force
  then show ?thesis using st by blast
qed

text \<open>
  C39. A device memory object cannot be released: once \<open>sys_create_device_pmo\<close> has returned a capability, freeing it again
  reaches \<open>kfree\<close> of the private data, which a device memory object does not have, and the kernel stops.
\<close>

theorem device_pmo_release_stops:
  assumes "cap_inv st H" "small_memory alloc_ok" "groups st cur = Some grp" "caps st cur 0 = Some cur" "refs st H cur + 1 < 2 ^ 64" "radix_mem env"
    "alloc_ok SLOT_BYTES" "alloc_slot_id alloc_ok (slot_tbl grp) \<noteq> Some (- ENOMEM, slot_tbl grp)"
    "alloc_ok (unat (word_of_nat OBJECT_BYTES + bytes))" "len \<noteq> 0" "heap_size_used grp + len \<le> heap_size_limit grp"
  shows "\<exists>e lk st'. sys_create_device_pmo env alloc_ok bytes st cur paddr len = Some (int e, lk, st') \<and> cap_free st' cur (int e) = None"
proof -
  obtain r lk st' where c: "create_pmo env alloc_ok bytes st len PMO_DEVICE cur paddr = Some (r, lk, st')" "cap_inv st' H"
    "r < 0 \<or> (\<exists>e. r = int e \<and> least_free st cur e \<and>
       caps st' = (caps st)(cur := (caps st cur)(e \<mapsto> next_obj st)) \<and> objects st (next_obj st) = None \<and> new_pmo st st' cur PMO_DEVICE len (next_obj st))"
    using create_pmo_ok [OF assms(1-6), of PMO_DEVICE bytes len paddr] assms(7,8) by blast
  have set: "pmo_setup env PMO_DEVICE (ROUND_UP len (word_of_nat PAGE_SIZE)) paddr = Some (0, False,
      \<lparr>pmo_start = paddr, pmo_size = ROUND_UP len (word_of_nat PAGE_SIZE), pmo_type = PMO_DEVICE, pmo_radix = False, pmo_private = False, pmo_owner = None\<rparr>)"
    by (simp add: pmo_setup_def Let_def)
  have "0 \<le> r" by (rule create_pmo_success [OF assms(1-6,9,7,8,11) set c(1)])
  then obtain e where e: "r = int e" "least_free st cur e" "caps st' = (caps st)(cur := (caps st cur)(e \<mapsto> next_obj st))"
    "objects st (next_obj st) = None" "new_pmo st st' cur PMO_DEVICE len (next_obj st)" using c(3) by auto
  have "cap_free st' cur (int e) = None" by (rule device_pmo_last [OF assms(1) c(2) assms(4) e(2-5)])
  then show ?thesis using c(1) e(1) assms(3,10) by (auto simp: sys_create_device_pmo_def hook_sys_create_device_pmo_def)
qed

theorem device_pmo_release_stops_witness:
  "\<exists>st e lk st'. demo_groups st \<and> sys_create_device_pmo demo_env demo_alloc 512 st 0 0xfe000000 4096 = Some (int e, lk, st') \<and> cap_free st' 0 (int e) = None"
proof -
  obtain st where st: "demo_groups st" using demo_groups_ex by blast
  obtain g0 where f: "cap_inv st (\<lambda>_. 0)" "groups st 0 = Some g0" "caps st 0 0 = Some 0" "refs st (\<lambda>_. 0) 0 + 1 < 2 ^ 64"
    "heap_size_limit g0 = - 1" "heap_size_used g0 = 0" "alloc_slot_id demo_alloc (slot_tbl g0) \<noteq> Some (- ENOMEM, slot_tbl g0)"
    using demo_groups_facts [OF st] by blast
  have e: "radix_mem demo_env" by (simp add: demo_env_def)
  have l: "heap_size_used g0 + 4096 \<le> heap_size_limit g0" "(4096 :: u64) \<noteq> 0" using f(5,6) by simp_all
  show ?thesis
    using device_pmo_release_stops [OF f(1) demo_alloc_simps(1) f(2,3,4) e demo_alloc_simps(2) f(7) demo_alloc_simps(6) l(2,1), of "0xfe000000"] st by blast
qed

text \<open>
  C40. \<open>sys_transfer_pmo_owner\<close>, on every branch, for capabilities that name objects that have been set up: a
  number that names no memory object is \<open>-ECAPBILITY\<close>, contiguous secure memory \<open>-EINVAL\<close>, a target that is
  no group \<open>-ECAPBILITY\<close>; a transfer to oneself succeeds and does nothing; an object the caller does not own is
  \<open>-EINVAL\<close>, and one that does not fit the target's heap limit \<open>-ENOMEM\<close>. All of these leave the whole state as
  it was. Otherwise ownership and the charge move from the caller's group to the target (what one loses the other gains), and
  every capability and every reference count stay as they were.
\<close>

theorem sys_transfer_pmo_owner_correct:
  assumes "cap_inv st H" "bounded st H 2" "groups st cur = Some cgrp" "caps st cur 0 = Some cur"
    "\<And>p. cap_object st cur pmo TYPE_PMO = Some p \<Longrightarrow> pmos st p \<noteq> None"
    "\<And>tg. cap_object st cur cg TYPE_CAP_GROUP = Some tg \<Longrightarrow> groups st tg \<noteq> None"
  shows "case cap_object st cur pmo TYPE_PMO of
      None \<Rightarrow> sys_transfer_pmo_owner st cur pmo cg = Some (- ECAPBILITY, st)
    | Some p \<Rightarrow> \<exists>pm. pmos st p = Some pm \<and>
       (if pmo_type pm = PMO_TZASC_CMA then sys_transfer_pmo_owner st cur pmo cg = Some (- EINVAL, st)
        else case cap_object st cur cg TYPE_CAP_GROUP of
          None \<Rightarrow> sys_transfer_pmo_owner st cur pmo cg = Some (- ECAPBILITY, st)
        | Some tg \<Rightarrow> \<exists>tgrp. groups st tg = Some tgrp \<and>
           (if tg = cur then sys_transfer_pmo_owner st cur pmo cg = Some (0, st)
            else if pmo_owner pm \<noteq> Some cur then sys_transfer_pmo_owner st cur pmo cg = Some (- EINVAL, st)
            else if heap_size_used tgrp + pmo_size pm \<le> heap_size_limit tgrp
            then \<exists>st'. sys_transfer_pmo_owner st cur pmo cg = Some (0, st') \<and> cap_inv st' H \<and> caps st' = caps st \<and> pmos st' = (pmos st)(p \<mapsto> pm\<lparr>pmo_owner := Some tg\<rparr>) \<and>
              groups st' = (groups st)(cur \<mapsto> cgrp\<lparr>heap_size_used := heap_size_used cgrp - pmo_size pm\<rparr>, tg \<mapsto> tgrp\<lparr>heap_size_used := heap_size_used tgrp + pmo_size pm\<rparr>)
            else sys_transfer_pmo_owner st cur pmo cg = Some (- ENOMEM, st)))"
proof (cases "cap_object st cur pmo TYPE_PMO")
  case None
  then show ?thesis using transfer_pmo_rejected(1) [OF assms(1-3)] by simp
next
  case p: (Some p)
  then obtain pm where pm: "pmos st p = Some pm" using assms(5) by blast
  show ?thesis
  proof (cases "pmo_type pm = PMO_TZASC_CMA")
    case True
    then show ?thesis using p pm transfer_pmo_rejected(2) [OF assms(1-3) p pm] by simp
  next
    case False
    show ?thesis
    proof (cases "cap_object st cur cg TYPE_CAP_GROUP")
      case None
      then show ?thesis using p pm False transfer_pmo_rejected(3) [OF assms(1-3) p pm False] by simp
    next
      case (Some tg)
      then obtain tgrp where tgrp: "groups st tg = Some tgrp" using assms(6) by blast
      from transfer_pmo_ok [OF assms(1-3) tgrp cap_objectD(1) [OF p] cap_objectD(1) [OF Some] assms(4) pm False]
      show ?thesis using p pm False Some tgrp by simp
    qed
  qed
qed

lemma demo_pmo:
  "\<exists>st e p pm g0 g2. cap_inv st (\<lambda>_. 0) \<and> bounded st (\<lambda>_. 0) 2 \<and> groups st 0 = Some g0 \<and> groups st 2 = Some g2 \<and> heap_size_used g2 = 0 \<and>
     heap_size_limit g2 = - 1 \<and> caps st 0 e = Some p \<and> caps st 0 2 = Some 2 \<and> caps st 0 0 = Some 0 \<and> pmos st p = Some pm \<and>
     pmo_owner pm = Some 0 \<and> pmo_type pm = PMO_ANONYM"
proof -
  obtain st where st: "demo_groups st" using demo_groups_ex by blast
  obtain g0 where f: "cap_inv st (\<lambda>_. 0)" "groups st 0 = Some g0" "caps st 0 0 = Some 0" "refs st (\<lambda>_. 0) 0 + 1 < 2 ^ 64"
    "heap_size_limit g0 = - 1" "heap_size_used g0 = 0" "alloc_slot_id demo_alloc (slot_tbl g0) \<noteq> Some (- ENOMEM, slot_tbl g0)"
    using demo_groups_facts [OF st] by blast
  have e: "radix_mem demo_env" by (simp add: demo_env_def)
  obtain r lk st' where c: "create_pmo demo_env demo_alloc 512 st 5000 PMO_ANONYM 0 0 = Some (r, lk, st')" "cap_inv st' (\<lambda>_. 0)"
    "r < 0 \<or> (\<exists>e. r = int e \<and> least_free st 0 e \<and> caps st' = (caps st)(0 := (caps st 0)(e \<mapsto> next_obj st)) \<and> new_pmo st st' 0 PMO_ANONYM 5000 (next_obj st))"
    using create_pmo_ok [OF f(1) demo_alloc_simps(1) f(2,3,4) e, of PMO_ANONYM 512 5000 0] by blast
  have l: "heap_size_used g0 + 5000 \<le> heap_size_limit g0" using f(5,6) by simp
  have s: "pmo_setup demo_env PMO_ANONYM (ROUND_UP 5000 (word_of_nat PAGE_SIZE)) 0 = Some (0, False,
      \<lparr>pmo_start = 0, pmo_size = ROUND_UP 5000 (word_of_nat PAGE_SIZE), pmo_type = PMO_ANONYM, pmo_radix = True, pmo_private = False, pmo_owner = None\<rparr>)"
    by (simp add: pmo_setup_def demo_env_def Let_def BUG_ON_def)
  have "0 \<le> r" by (rule create_pmo_success [OF f(1) demo_alloc_simps(1) f(2,3,4) e demo_alloc_simps(6,2) f(7) l s c(1)])
  then obtain e where n: "least_free st 0 e" "caps st' = (caps st)(0 := (caps st 0)(e \<mapsto> next_obj st))" "new_pmo st st' 0 PMO_ANONYM 5000 (next_obj st)"
    using c(3) by auto
  obtain pm g0' where pm: "pmos st' = (pmos st)(next_obj st \<mapsto> pm)" "pmo_owner pm = Some 0" "pmo_type pm = PMO_ANONYM"
    "\<forall>h. h \<noteq> 0 \<longrightarrow> groups st' h = groups st h" "groups st' 0 = Some g0'" using n(3) by (auto simp: new_pmo_def)
  have cs: "caps st = (\<lambda>_ _. None)(0 := [0 \<mapsto> 0, 1 \<mapsto> 1, 2 \<mapsto> 2], 2 := [0 \<mapsto> 2, 1 \<mapsto> 3])" "pmos st = (\<lambda>_. None)" using st by (simp_all add: demo_groups_def)
  have "caps st 0 e = None" "caps st 0 2 = Some 2" using n(1) cs(1) by (simp_all add: least_free_def)
  then have ne: "e \<noteq> 0" "e \<noteq> 2" using f(3) by (metis option.distinct(1))+
  have "caps st 2 0 \<noteq> None" using cs(1) by simp
  then obtain g2 where g2: "groups st 2 = Some g2" using groups_if_caps [of st 2 0] by blast
  then have g2': "heap_size_used g2 = 0" "heap_size_limit g2 = - 1" using st by (auto simp: demo_groups_def)
  have "bounded st' (\<lambda>_. 0) 2" unfolding bounded_def
  proof
    fix ob
    have "cap_set st' ob \<subseteq> {(0, 0), (0, 1), (0, 2), (2, 0), (2, 1), (0, e)}" using n(2) cs(1) by (auto simp: cap_set_def split: if_splits)
    then have "card (cap_set st' ob) \<le> card {(0 :: nat, 0 :: nat), (0, 1), (0, 2), (2, 0), (2, 1), (0, e)}" by (intro card_mono) simp_all
    also have "\<dots> \<le> 6" by (simp add: card_insert_if)
    finally have k: "card (cap_set st' ob) \<le> 6" .
    have "pmos_of st' ob \<subseteq> {next_obj st}" using pm(1) cs(2) by (auto simp: pmos_of_def owner_of_def split: if_splits)
    then have "card (pmos_of st' ob) \<le> 1" using card_mono [of "{next_obj st}" "pmos_of st' ob"] by simp
    then show "refs st' (\<lambda>_. 0) ob + 2 < 2 ^ 64" using refs_caps(1) [OF c(2), of ob] k by simp
  qed
  then show ?thesis
    using c(2) pm g2 g2' n(2) cs(1) ne
    by (intro exI [of _ st'] exI [of _ e] exI [of _ "next_obj st"] exI [of _ pm] exI [of _ g0'] exI [of _ g2]) simp
qed

theorem sys_transfer_pmo_owner_correct_witness:
  "\<exists>st e p pm st'. sys_transfer_pmo_owner st 0 (- 1) 2 = Some (- ECAPBILITY, st) \<and>
     pmos st p = Some pm \<and> pmo_owner pm = Some 0 \<and> sys_transfer_pmo_owner st 0 (int e) 2 = Some (0, st') \<and>
     pmos st' p = Some (pm\<lparr>pmo_owner := Some 2\<rparr>)"
proof -
  obtain st e p pm g0 g2 where d: "cap_inv st (\<lambda>_. 0)" "bounded st (\<lambda>_. 0) 2" "groups st 0 = Some g0" "groups st 2 = Some g2" "heap_size_used g2 = 0"
    "heap_size_limit g2 = - 1" "caps st 0 e = Some p" "caps st 0 2 = Some 2" "caps st 0 0 = Some 0" "pmos st p = Some pm"
    "pmo_owner pm = Some 0" "pmo_type pm = PMO_ANONYM" using demo_pmo by blast
  obtain x where x: "objects st p = Some x" "obj_type x = TYPE_PMO" using cap_invD(8) [OF d(1,10)] by auto
  obtain y where y: "objects st 2 = Some y" "obj_type y = TYPE_CAP_GROUP" using cap_invD(2) [OF d(1,4)] by auto
  have o: "cap_object st 0 (int e) TYPE_PMO = Some p" "cap_object st 0 2 TYPE_CAP_GROUP = Some 2" "cap_object st 0 (- 1) TYPE_PMO = None"
    using d(7,8) x y by (simp_all add: cap_object_def cap_lookup_def)
  have n: "\<And>q. cap_object st 0 (int e) TYPE_PMO = Some q \<Longrightarrow> pmos st q \<noteq> None"
    "\<And>q. cap_object st 0 (- 1) TYPE_PMO = Some q \<Longrightarrow> pmos st q \<noteq> None"
    "\<And>tg. cap_object st 0 2 TYPE_CAP_GROUP = Some tg \<Longrightarrow> groups st tg \<noteq> None" using o d(4,10) by auto
  have "sys_transfer_pmo_owner st 0 (- 1) 2 = Some (- ECAPBILITY, st)"
    using sys_transfer_pmo_owner_correct [OF d(1-3,9), of "- 1" 2, OF n(2,3)] o(3) by simp
  moreover have "heap_size_used g2 + pmo_size pm \<le> heap_size_limit g2" using d(5,6) by simp
  with sys_transfer_pmo_owner_correct [OF d(1-3,9), of "int e" 2, OF n(1,3)] o d(4,10-12) obtain st' where
    "sys_transfer_pmo_owner st 0 (int e) 2 = Some (0, st')" "pmos st' = (pmos st)(p \<mapsto> pm\<lparr>pmo_owner := Some 2\<rparr>)" by auto
  ultimately show ?thesis using d(10,11) by (intro exI [of _ st] exI [of _ e] exI [of _ p] exI [of _ pm] exI [of _ st']) simp
qed

end
