(* ===== verification/Sched.thy ===== *)
theory Sched
  imports Bitops "HOL-Library.Multiset"
begin

text \<open>
  The scheduler (\<open>kernel/sched/sched.c\<close>, \<open>include/sched/sched.h\<close>, \<open>include/sched/context.h\<close>) and its two policies:
  priority-based round robin (\<open>policy_pbrr.c\<close>) and round robin with load balancing (\<open>policy_rr.c\<close>).

  Threads are numbers; the idle thread of CPU \<open>i\<close> is thread \<open>i\<close>. \<open>me\<close> is the CPU that runs the operation.
  A ready queue is changed under its lock, and an operation is one step. \<open>thread_refs\<close> is the reference count of a thread's
  object, \<open>None\<close> when the object has been freed; idle threads are static and have no object. A ready queue takes a reference
  (\<open>obj_ref\<close>) when a thread enters it and drops it (\<open>obj_put\<close>) when the thread leaves, which frees the thread if that was
  the last one. A result \<open>None\<close> is a \<open>BUG_ON\<close>, an access through \<open>NULL\<close>, outside the per-CPU arrays, or to a thread that
  has just been freed.
\<close>

section \<open>Threads and per-CPU state\<close>

definition DEFAULT_BUDGET :: nat where "DEFAULT_BUDGET = 1"
definition MAX_PRIO :: nat where "MAX_PRIO = 255"
definition MIN_PRIO :: nat where "MIN_PRIO = 0"
definition PRIO_NUM :: nat where "PRIO_NUM = MAX_PRIO + 1"
definition IDLE_PRIO :: nat where "IDLE_PRIO = MIN_PRIO"
definition NO_AFF :: int where "NO_AFF = - 1"

datatype thread_state = TS_INIT | TS_READY | TS_INTER | TS_RUNNING | TS_EXIT | TS_WAITING
datatype kernel_stack_state = KS_FREE | KS_LOCKED
datatype thread_exit_state = TE_RUNNING | TE_EXITING | TE_EXITED
datatype thread_type = TYPE_IDLE | TYPE_KERNEL | TYPE_USER | TYPE_SHADOW | TYPE_REGISTER | TYPE_TESTS

record sched_context =
  budget :: nat
  prio :: nat

record thread_ctx =
  is_fpu_owner :: int
  sc :: "sched_context option"
  ctx_type :: thread_type
  state :: thread_state
  affinity :: int
  cpuid :: nat
  kstack_state :: kernel_stack_state
  exit_state :: thread_exit_state

datatype prev_ptr = PREV_NULL | THREAD_ITSELF | PREV nat

record prio_bitmap =
  bitmap_lvl0 :: u32
  bitmap_lvl1 :: "u32 list"

record pbrr_ready_queue =
  pb_queues :: "nat \<Rightarrow> nat list"
  pb_bitmap :: prio_bitmap

record queue_meta =
  queue_list :: "nat list"
  queue_len :: u32

record sched_state =
  ncpu :: nat
  ctx :: "nat \<Rightarrow> thread_ctx"
  prev_thread :: "nat \<Rightarrow> prev_ptr"
  current_threads :: "nat \<Rightarrow> nat option"
  cpu_fpu_owner :: "nat \<Rightarrow> nat option"
  thread_refs :: "nat \<rightharpoonup> u64"
  pbrr_ready_queues :: "nat \<Rightarrow> pbrr_ready_queue"
  rr_ready_queue_meta :: "nat \<Rightarrow> queue_meta"

definition upd_ctx :: "sched_state \<Rightarrow> nat \<Rightarrow> (thread_ctx \<Rightarrow> thread_ctx) \<Rightarrow> sched_state" where
  "upd_ctx s t f = s\<lparr>ctx := (ctx s)(t := f (ctx s t))\<rparr>"

definition idle_thread :: "nat \<Rightarrow> nat" where "idle_thread i = i"

section \<open>Common operations\<close>

definition save_and_release_fpu :: "sched_state \<Rightarrow> nat \<Rightarrow> nat \<Rightarrow> sched_state option" where
  "save_and_release_fpu s me t =
     do { BUG_ON (exit_state (ctx s t) = TE_EXITED);
          if cpu_fpu_owner s me = Some t
          then Some ((upd_ctx s t (\<lambda>c. c\<lparr>is_fpu_owner := - 1\<rparr>))\<lparr>cpu_fpu_owner := (cpu_fpu_owner s)(me := None)\<rparr>)
          else Some s }"

text \<open>The trap on the first use of the FPU after a switch; the register contents are not part of the state.\<close>

definition change_fpu_owner :: "sched_state \<Rightarrow> nat \<Rightarrow> sched_state option" where
  "change_fpu_owner s me =
     (if cpu_fpu_owner s me = current_threads s me then Some s
      else do {
        let s1 = (case cpu_fpu_owner s me of None \<Rightarrow> s | Some o' \<Rightarrow> upd_ctx s o' (\<lambda>c. c\<lparr>is_fpu_owner := - 1\<rparr>));
        t \<leftarrow> current_threads s me;
        Some (upd_ctx (s1\<lparr>cpu_fpu_owner := (cpu_fpu_owner s1)(me := Some t)\<rparr>) t (\<lambda>c. c\<lparr>is_fpu_owner := int me\<rparr>)) })"

definition save_and_release_fpu_owner :: "sched_state \<Rightarrow> nat \<Rightarrow> sched_state" where
  "save_and_release_fpu_owner s me =
     (case cpu_fpu_owner s me of
        None \<Rightarrow> s
      | Some t \<Rightarrow> (upd_ctx s t (\<lambda>c. c\<lparr>is_fpu_owner := - 1\<rparr>))\<lparr>cpu_fpu_owner := (cpu_fpu_owner s)(me := None)\<rparr>)"

definition get_cpubind :: "sched_state \<Rightarrow> nat \<Rightarrow> nat \<Rightarrow> (int \<times> sched_state) option" where
  "get_cpubind s me t =
     (let aff = affinity (ctx s t); own = is_fpu_owner (ctx s t) in
      if own < 0 then Some (aff, s)
      else if own = int me
      then if aff = int me \<or> aff = NO_AFF then Some (int me, s)
           else do { s1 \<leftarrow> save_and_release_fpu s me t; Some (aff, s1) }
      else Some (own, s))"

definition switch_to_thread :: "sched_state \<Rightarrow> nat \<Rightarrow> nat \<Rightarrow> sched_state option" where
  "switch_to_thread s me t =
     do { BUG_ON (state (ctx s t) = TS_READY);
          BUG_ON (exit_state (ctx s t) = TE_EXITED);
          if current_threads s me = Some t
          then Some ((upd_ctx s t (\<lambda>c. c\<lparr>state := TS_RUNNING\<rparr>))\<lparr>prev_thread := (prev_thread s)(t := THREAD_ITSELF)\<rparr>)
          else Some ((upd_ctx s t (\<lambda>c. c\<lparr>cpuid := me, state := TS_RUNNING, kstack_state := KS_LOCKED\<rparr>))
                       \<lparr>prev_thread := (prev_thread s)(t := (case current_threads s me of None \<Rightarrow> PREV_NULL | Some p \<Rightarrow> PREV p)),
                        current_threads := (current_threads s)(me := Some t)\<rparr>) }"

section \<open>References to threads\<close>

definition obj_ref_thread :: "sched_state \<Rightarrow> nat \<Rightarrow> sched_state option" where
  "obj_ref_thread s t = do { n \<leftarrow> thread_refs s t; Some (s\<lparr>thread_refs := (thread_refs s)(t \<mapsto> n + 1)\<rparr>) }"

text \<open>What \<open>destroy_thread_ctx\<close> does to the scheduler's state; the owner is looked up on the CPU the thread last ran on.\<close>

definition destroy_thread_ctx :: "sched_state \<Rightarrow> nat \<Rightarrow> sched_state option" where
  "destroy_thread_ctx s t =
     do { s1 \<leftarrow> (if 0 \<le> is_fpu_owner (ctx s t)
                then do { BUG_ON (cpu_fpu_owner s (cpuid (ctx s t)) \<noteq> Some t);
                          Some (s\<lparr>cpu_fpu_owner := (cpu_fpu_owner s)(cpuid (ctx s t) := None)\<rparr>) }
                else Some s);
          BUG_ON (ctx_type (ctx s t) \<noteq> TYPE_SHADOW \<and> ctx_type (ctx s t) \<noteq> TYPE_REGISTER \<and> sc (ctx s t) = None);
          Some s1 }"

text \<open>
  \<open>__free_object\<close> on a thread, as far as the scheduler's state goes: \<open>clear_fpu_owner\<close>, then \<open>thread_deinit\<close> with its
  assertion on the exit state, then the release of the memory.
\<close>

definition clear_thread_fpu :: "sched_state \<Rightarrow> nat \<Rightarrow> sched_state" where
  "clear_thread_fpu s t =
     (let c = is_fpu_owner (ctx s t) in
      if 0 \<le> c
      then upd_ctx (if cpu_fpu_owner s (nat c) = Some t then s\<lparr>cpu_fpu_owner := (cpu_fpu_owner s)(nat c := None)\<rparr> else s)
             t (\<lambda>x. x\<lparr>is_fpu_owner := - 1\<rparr>)
      else s)"

definition free_thread :: "sched_state \<Rightarrow> nat \<Rightarrow> sched_state option" where
  "free_thread s t =
     do { let s1 = clear_thread_fpu s t;
          BUG_ON (exit_state (ctx s1 t) \<noteq> TE_EXITED);
          s2 \<leftarrow> destroy_thread_ctx s1 t;
          Some (s2\<lparr>thread_refs := (thread_refs s2)(t := None)\<rparr>) }"

definition obj_put_thread :: "sched_state \<Rightarrow> nat \<Rightarrow> sched_state option" where
  "obj_put_thread s t =
     do { n \<leftarrow> thread_refs s t;
          let s1 = s\<lparr>thread_refs := (thread_refs s)(t \<mapsto> n - 1)\<rparr>;
          if n = 1 then free_thread s1 t else Some s1 }"

text \<open>An access to a thread right after its reference was dropped: undefined when the thread has been freed.\<close>

definition use_thread :: "sched_state \<Rightarrow> nat \<Rightarrow> unit option" where
  "use_thread s t = (if ctx_type (ctx s t) = TYPE_IDLE \<or> thread_refs s t \<noteq> None then Some () else None)"

section \<open>Switching\<close>

definition find_runnable_thread :: "sched_state \<Rightarrow> nat \<Rightarrow> nat list \<Rightarrow> nat option" where
  "find_runnable_thread s me q = find (\<lambda>t. kstack_state (ctx s t) = KS_FREE \<or> current_threads s me = Some t) q"

text \<open>The shadow thread whose last capability is freed, if any, and the new state.\<close>

definition finish_switch :: "sched_state \<Rightarrow> nat \<Rightarrow> (nat option \<times> sched_state) option" where
  "finish_switch s me =
     do { t \<leftarrow> current_threads s me;
          case prev_thread s t of
            PREV_NULL \<Rightarrow> Some (None, s)
          | THREAD_ITSELF \<Rightarrow> Some (None, s)
          | PREV p \<Rightarrow>
              if ctx_type (ctx s p) = TYPE_SHADOW \<and> state (ctx s p) = TS_EXIT
              then Some (Some p, s\<lparr>prev_thread := (prev_thread s)(t := PREV_NULL)\<rparr>)
              else Some (None, upd_ctx s p (\<lambda>c. c\<lparr>kstack_state := KS_FREE\<rparr>)) }"

section \<open>The priority bitmap\<close>

definition PRIOS_PER_LEVEL :: nat where "PRIOS_PER_LEVEL = 32"
definition PRIO_LEVEL_SHIFT :: nat where "PRIO_LEVEL_SHIFT = 5"
definition PRIO_LEVEL_MASK :: nat where "PRIO_LEVEL_MASK = 31"

definition prio_bitmap_init :: prio_bitmap where
  "prio_bitmap_init = \<lparr>bitmap_lvl0 = 0, bitmap_lvl1 = replicate PRIOS_PER_LEVEL 0\<rparr>"

definition prio_bitmap_set :: "prio_bitmap \<Rightarrow> nat \<Rightarrow> prio_bitmap option" where
  "prio_bitmap_set b p =
     do { let i0 = drop_bit PRIO_LEVEL_SHIFT p;
          let i1 = p AND PRIO_LEVEL_MASK;
          BUG_ON (PRIOS_PER_LEVEL \<le> i0);
          Some \<lparr>bitmap_lvl0 = bitmap_lvl0 b OR push_bit i0 1,
                bitmap_lvl1 = (bitmap_lvl1 b)[i0 := bitmap_lvl1 b ! i0 OR push_bit i1 1]\<rparr> }"

definition prio_bitmap_clear :: "prio_bitmap \<Rightarrow> nat \<Rightarrow> prio_bitmap option" where
  "prio_bitmap_clear b p =
     do { let i0 = drop_bit PRIO_LEVEL_SHIFT p;
          let i1 = p AND PRIO_LEVEL_MASK;
          BUG_ON (PRIOS_PER_LEVEL \<le> i0);
          let w = bitmap_lvl1 b ! i0 AND NOT (push_bit i1 1);
          Some \<lparr>bitmap_lvl0 = (if w = 0 then bitmap_lvl0 b AND NOT (push_bit i0 1) else bitmap_lvl0 b),
                bitmap_lvl1 = (bitmap_lvl1 b)[i0 := w]\<rparr> }"

definition prio_bitmap_is_empty :: "prio_bitmap \<Rightarrow> bool" where
  "prio_bitmap_is_empty b \<longleftrightarrow> bitmap_lvl0 b = 0"

definition get_highest_prio :: "prio_bitmap \<Rightarrow> nat option" where
  "get_highest_prio b =
     do { i0 \<leftarrow> bsr (bitmap_lvl0 b);
          i1 \<leftarrow> bsr (bitmap_lvl1 b ! i0);
          Some (push_bit PRIO_LEVEL_SHIFT i0 + i1) }"

section \<open>Priority-based round robin\<close>

definition upd_pbrr :: "sched_state \<Rightarrow> nat \<Rightarrow> pbrr_ready_queue \<Rightarrow> sched_state" where
  "upd_pbrr s c q = s\<lparr>pbrr_ready_queues := (pbrr_ready_queues s)(c := q)\<rparr>"

definition pbrr_sched_enqueue :: "sched_state \<Rightarrow> nat \<Rightarrow> nat \<Rightarrow> (int \<times> sched_state) option" where
  "pbrr_sched_enqueue s me t =
     (if state (ctx s t) = TS_READY then Some (- EINVAL, s)
      else do {
        sctx \<leftarrow> sc (ctx s t);
        BUG_ON (PRIO_NUM \<le> prio sctx);
        (b, s1) \<leftarrow> get_cpubind s me t;
        let cpu = (if b = NO_AFF then int me else b);
        _ \<leftarrow> (if 0 \<le> cpu \<and> cpu < int (ncpu s) then Some () else None);
        let c = nat cpu;
        let s2 = upd_ctx s1 t (\<lambda>x. x\<lparr>cpuid := c, state := TS_READY\<rparr>);
        s3 \<leftarrow> (if ctx_type (ctx s t) \<noteq> TYPE_IDLE then obj_ref_thread s2 t else Some s2);
        let q = pbrr_ready_queues s3 c;
        bm \<leftarrow> prio_bitmap_set (pb_bitmap q) (prio sctx);
        Some (0, upd_pbrr s3 c \<lparr>pb_queues = (pb_queues q)(prio sctx := pb_queues q (prio sctx) @ [t]), pb_bitmap = bm\<rparr>) })"

definition pbrr_dequeue :: "sched_state \<Rightarrow> nat \<Rightarrow> sched_state option" where
  "pbrr_dequeue s t =
     do { sctx \<leftarrow> sc (ctx s t);
          let c = cpuid (ctx s t);
          let p = prio sctx;
          let q = pbrr_ready_queues s c;
          _ \<leftarrow> (if t \<in> set (pb_queues q p) then Some () else None);
          let l = remove1 t (pb_queues q p);
          bm \<leftarrow> (if l = [] then prio_bitmap_clear (pb_bitmap q) p else Some (pb_bitmap q));
          let s1 = upd_ctx s t (\<lambda>x. x\<lparr>state := TS_INTER\<rparr>);
          let s2 = upd_pbrr s1 c \<lparr>pb_queues = (pb_queues q)(p := l), pb_bitmap = bm\<rparr>;
          if ctx_type (ctx s t) \<noteq> TYPE_IDLE then obj_put_thread s2 t else Some s2 }"

definition current_runnable :: "sched_state \<Rightarrow> nat \<Rightarrow> bool" where
  "current_runnable s me =
     (case current_threads s me of
        None \<Rightarrow> False
      | Some t \<Rightarrow> state (ctx s t) = TS_RUNNING \<and> (affinity (ctx s t) = NO_AFF \<or> affinity (ctx s t) = int me))"

text \<open>
  The \<open>retry\<close> loop; each round removes a thread from a ready queue. The first argument bounds the number of
  rounds.
\<close>

fun pbrr_choose_loop :: "nat \<Rightarrow> sched_state \<Rightarrow> nat \<Rightarrow> bool \<Rightarrow> (nat \<times> sched_state) option" where
  "pbrr_choose_loop 0 s me cur_ok = None"
| "pbrr_choose_loop (Suc fuel) s me cur_ok =
     (let q = pbrr_ready_queues s me in
      if prio_bitmap_is_empty (pb_bitmap q)
      then do { t \<leftarrow> current_threads s me;
                BUG_ON (ctx_type (ctx s t) \<noteq> TYPE_IDLE);
                BUG_ON (\<not> cur_ok);
                Some (t, s) }
      else do {
        highest_prio \<leftarrow> get_highest_prio (pb_bitmap q);
        keep \<leftarrow> (if cur_ok then do { t \<leftarrow> current_threads s me; sctx \<leftarrow> sc (ctx s t);
                    Some (highest_prio < prio sctx \<or> prio sctx = highest_prio \<and> 0 < budget sctx) }
                 else Some False);
        if keep then do { t \<leftarrow> current_threads s me; Some (t, s) }
        else do {
          let found = find_runnable_thread s me (pb_queues q highest_prio);
          if found = None \<and> current_threads s me = Some (idle_thread me)
          then do { BUG_ON (\<not> cur_ok); Some (idle_thread me, s) }
          else do {
            let t = (case found of None \<Rightarrow> idle_thread me | Some t \<Rightarrow> t);
            s1 \<leftarrow> pbrr_dequeue s t;
            _ \<leftarrow> use_thread s1 t;
            if exit_state (ctx s1 t) = TE_EXITING \<or> exit_state (ctx s1 t) = TE_EXITED
            then pbrr_choose_loop fuel (upd_ctx s1 t (\<lambda>x. x\<lparr>exit_state := TE_EXITED, state := TS_EXIT\<rparr>)) me cur_ok
            else Some (t, s1) } } })"

definition pbrr_queue_size :: "sched_state \<Rightarrow> nat \<Rightarrow> nat" where
  "pbrr_queue_size s c = sum_list (map (\<lambda>p. length (pb_queues (pbrr_ready_queues s c) p)) [0..<PRIO_NUM])"

definition pbrr_sched_choose_thread :: "sched_state \<Rightarrow> nat \<Rightarrow> (nat \<times> sched_state) option" where
  "pbrr_sched_choose_thread s me = pbrr_choose_loop (pbrr_queue_size s me + 1) s me (current_runnable s me)"

definition mark_exit :: "sched_state \<Rightarrow> nat option \<Rightarrow> sched_state" where
  "mark_exit s old = (case old of None \<Rightarrow> s | Some t \<Rightarrow>
     if exit_state (ctx s t) = TE_EXITING then upd_ctx s t (\<lambda>x. x\<lparr>exit_state := TE_EXITED, state := TS_EXIT\<rparr>) else s)"

definition pbrr_sched :: "sched_state \<Rightarrow> nat \<Rightarrow> sched_state option" where
  "pbrr_sched s me =
     do { let old = current_threads s me;
          let s1 = mark_exit s old;
          (new, s2) \<leftarrow> pbrr_sched_choose_thread s1 me;
          s3 \<leftarrow> (case old of
                   None \<Rightarrow> Some s2
                 | Some t \<Rightarrow> if state (ctx s2 t) = TS_RUNNING \<and> new \<noteq> t
                            then do { (r, s3) \<leftarrow> pbrr_sched_enqueue s2 me t; BUG_ON (r \<noteq> 0); Some s3 } else Some s2);
          sctx \<leftarrow> sc (ctx s3 new);
          let s4 = (if budget sctx = 0 then upd_ctx s3 new (\<lambda>x. x\<lparr>sc := Some (sctx\<lparr>budget := DEFAULT_BUDGET\<rparr>)\<rparr>) else s3);
          switch_to_thread s4 me new }"

fun pbrr_enqueue_idle :: "sched_state \<Rightarrow> nat list \<Rightarrow> sched_state option" where
  "pbrr_enqueue_idle s [] = Some s"
| "pbrr_enqueue_idle s (i # is) = do { (_, s1) \<leftarrow> pbrr_sched_enqueue s 0 (idle_thread i); pbrr_enqueue_idle s1 is }"

definition pbrr_sched_init :: "sched_state \<Rightarrow> sched_state option" where
  "pbrr_sched_init s =
     pbrr_enqueue_idle (s\<lparr>pbrr_ready_queues := (\<lambda>c. \<lparr>pb_queues = (\<lambda>_. []), pb_bitmap = prio_bitmap_init\<rparr>)\<rparr>) [0..<ncpu s]"

section \<open>Round robin\<close>

definition LOADBALANCE_THRESHOLD :: nat where "LOADBALANCE_THRESHOLD = 5"
definition MIGRATE_THRESHOLD :: u32 where "MIGRATE_THRESHOLD = 5"

definition upd_rr :: "sched_state \<Rightarrow> nat \<Rightarrow> queue_meta \<Rightarrow> sched_state" where
  "upd_rr s c q = s\<lparr>rr_ready_queue_meta := (rr_ready_queue_meta s)(c := q)\<rparr>"

definition rr_enqueue :: "sched_state \<Rightarrow> nat \<Rightarrow> nat \<Rightarrow> (int \<times> sched_state) option" where
  "rr_enqueue s t c =
     (if state (ctx s t) = TS_READY then Some (- EINVAL, s)
      else do {
        let q = rr_ready_queue_meta s c;
        let s1 = upd_ctx s t (\<lambda>x. x\<lparr>cpuid := c, state := TS_READY\<rparr>);
        s2 \<leftarrow> obj_ref_thread s1 t;
        Some (0, upd_rr s2 c \<lparr>queue_list = queue_list q @ [t], queue_len = queue_len q + 1\<rparr>) })"

text \<open>The search for the shortest queue, from CPU \<open>i\<close> on.\<close>

fun shortest_queue :: "sched_state \<Rightarrow> nat \<Rightarrow> nat list \<Rightarrow> nat \<Rightarrow> u32 \<Rightarrow> nat" where
  "shortest_queue s me [] c min_len = c"
| "shortest_queue s me (i # is) c min_len =
     (if i = me then shortest_queue s me is c min_len
      else let l = queue_len (rr_ready_queue_meta s i) + MIGRATE_THRESHOLD
           in if l < min_len then shortest_queue s me is i l else shortest_queue s me is c min_len)"

definition rr_sched_choose_cpu :: "sched_state \<Rightarrow> nat \<Rightarrow> nat" where
  "rr_sched_choose_cpu s me =
     (let min_len = queue_len (rr_ready_queue_meta s me)
      in if unat min_len \<le> LOADBALANCE_THRESHOLD then me else shortest_queue s me [0..<ncpu s] me min_len)"

text \<open>The CPU number is converted to \<open>unsigned int\<close>.\<close>

definition rr_sched_enqueue :: "sched_state \<Rightarrow> nat \<Rightarrow> nat \<Rightarrow> (int \<times> sched_state) option" where
  "rr_sched_enqueue s me t =
     (if ctx_type (ctx s t) = TYPE_IDLE then Some (0, s)
      else do {
        (b, s1) \<leftarrow> get_cpubind s me t;
        let c = unat (if b = NO_AFF then word_of_nat (rr_sched_choose_cpu s1 me) else word_of_int b :: u32);
        sctx \<leftarrow> sc (ctx s1 t);
        if MAX_PRIO < prio sctx then Some (- EINVAL, s1)
        else if ncpu s \<le> c then Some (- EINVAL, s1)
        else rr_enqueue s1 t c })"

definition rr_dequeue :: "sched_state \<Rightarrow> nat \<Rightarrow> (int \<times> sched_state) option" where
  "rr_dequeue s t =
     (if state (ctx s t) \<noteq> TS_READY then Some (- EINVAL, s)
      else do {
        let c = cpuid (ctx s t);
        let q = rr_ready_queue_meta s c;
        _ \<leftarrow> (if t \<in> set (queue_list q) then Some () else None);
        let s1 = upd_rr s c \<lparr>queue_list = remove1 t (queue_list q), queue_len = queue_len q - 1\<rparr>;
        s2 \<leftarrow> obj_put_thread (upd_ctx s1 t (\<lambda>x. x\<lparr>state := TS_INTER\<rparr>)) t;
        Some (0, s2) })"

definition rr_sched_dequeue :: "sched_state \<Rightarrow> nat \<Rightarrow> (int \<times> sched_state) option" where
  "rr_sched_dequeue s t = do { BUG_ON (ctx_type (ctx s t) = TYPE_IDLE); rr_dequeue s t }"

fun rr_choose_loop :: "nat \<Rightarrow> sched_state \<Rightarrow> nat \<Rightarrow> (nat \<times> sched_state) option" where
  "rr_choose_loop 0 s me = None"
| "rr_choose_loop (Suc fuel) s me =
     (let l = queue_list (rr_ready_queue_meta s me) in
      if l = [] then Some (idle_thread me, s)
      else case find_runnable_thread s me l of
             None \<Rightarrow> Some (idle_thread me, s)
           | Some t \<Rightarrow> do {
               (r, s1) \<leftarrow> rr_dequeue s t;
               BUG_ON (r \<noteq> 0);
               _ \<leftarrow> use_thread s1 t;
               if exit_state (ctx s1 t) = TE_EXITING \<or> exit_state (ctx s1 t) = TE_EXITED
               then rr_choose_loop fuel (upd_ctx s1 t (\<lambda>x. x\<lparr>state := TS_EXIT, exit_state := TE_EXITED\<rparr>)) me
               else Some (t, s1) })"

definition rr_sched_choose_thread :: "sched_state \<Rightarrow> nat \<Rightarrow> (nat \<times> sched_state) option" where
  "rr_sched_choose_thread s me = rr_choose_loop (length (queue_list (rr_ready_queue_meta s me)) + 1) s me"

definition rr_sched_refill_budget :: "sched_state \<Rightarrow> nat \<Rightarrow> nat \<Rightarrow> sched_state option" where
  "rr_sched_refill_budget s t b =
     do { sctx \<leftarrow> sc (ctx s t); Some (upd_ctx s t (\<lambda>x. x\<lparr>sc := Some (sctx\<lparr>budget := b\<rparr>)\<rparr>)) }"

text \<open>The part of \<open>rr_sched\<close> on the thread that ran so far: \<open>Inl\<close> if it goes on running, \<open>Inr\<close> if another is chosen.\<close>

definition rr_sched_old :: "sched_state \<Rightarrow> nat \<Rightarrow> nat \<Rightarrow> (sched_state + sched_state) option" where
  "rr_sched_old s me old =
     do { BUG_ON (ctx_type (ctx s old) \<noteq> TYPE_SHADOW \<and> ctx_type (ctx s old) \<noteq> TYPE_REGISTER \<and> sc (ctx s old) = None);
          let s1 = mark_exit s (Some old);
          case state (ctx s1 old) of
            TS_EXIT \<Rightarrow> Some (Inr s1)
          | TS_WAITING \<Rightarrow> Some (Inr s1)
          | TS_RUNNING \<Rightarrow> do {
              sctx \<leftarrow> sc (ctx s1 old);
              if budget sctx \<noteq> 0 then do { s2 \<leftarrow> switch_to_thread s1 me old; Some (Inl s2) }
              else do {
                s2 \<leftarrow> rr_sched_refill_budget s1 old DEFAULT_BUDGET;
                (r, s3) \<leftarrow> rr_sched_enqueue (upd_ctx s2 old (\<lambda>x. x\<lparr>state := TS_INTER\<rparr>)) me old;
                BUG_ON (r \<noteq> 0);
                Some (Inr s3) } }
          | _ \<Rightarrow> None }"

definition rr_sched :: "sched_state \<Rightarrow> nat \<Rightarrow> sched_state option" where
  "rr_sched s me =
     do { r \<leftarrow> (case current_threads s me of None \<Rightarrow> Some (Inr s) | Some old \<Rightarrow> rr_sched_old s me old);
          case r of
            Inl s1 \<Rightarrow> Some s1
          | Inr s1 \<Rightarrow> do { (new, s2) \<leftarrow> rr_sched_choose_thread s1 me; switch_to_thread s2 me new } }"

definition rr_sched_init :: "sched_state \<Rightarrow> sched_state" where
  "rr_sched_init s = s\<lparr>rr_ready_queue_meta := (\<lambda>_. \<lparr>queue_list = [], queue_len = 0\<rparr>)\<rparr>"

section \<open>The scheduler interface and the system calls on it\<close>

record sched_ops =
  op_init :: "sched_state \<Rightarrow> sched_state option"
  op_sched :: "sched_state \<Rightarrow> nat \<Rightarrow> sched_state option"
  op_enqueue :: "sched_state \<Rightarrow> nat \<Rightarrow> nat \<Rightarrow> (int \<times> sched_state) option"

definition pbrr :: sched_ops where
  "pbrr = \<lparr>op_init = pbrr_sched_init, op_sched = pbrr_sched, op_enqueue = pbrr_sched_enqueue\<rparr>"

definition rr :: sched_ops where
  "rr = \<lparr>op_init = (\<lambda>s. Some (rr_sched_init s)), op_sched = rr_sched, op_enqueue = rr_sched_enqueue\<rparr>"

definition init_thread_ctx :: "thread_ctx \<Rightarrow> nat \<Rightarrow> thread_type \<Rightarrow> int \<Rightarrow> thread_ctx" where
  "init_thread_ctx c p ty aff =
     c\<lparr>state := TS_INIT, ctx_type := ty, affinity := aff,
       sc := map_option (\<lambda>x. x\<lparr>prio := p, budget := DEFAULT_BUDGET\<rparr>) (sc c),
       kstack_state := KS_FREE, exit_state := TE_RUNNING\<rparr>"

text \<open>
  The zeroed allocation of the context, of the FPU area (whose result \<open>arch_init_thread_fpu\<close> does not check) and,
  but for shadow and register threads, of the scheduling context. The inner option is the \<open>NULL\<close> that the code returns.
\<close>

definition create_thread_ctx :: "(nat \<Rightarrow> bool) \<Rightarrow> nat \<Rightarrow> nat \<Rightarrow> nat \<Rightarrow> thread_type \<Rightarrow> thread_ctx option option" where
  "create_thread_ctx alloc_ok ctx_bytes fpu_bytes sc_bytes ty =
     (if \<not> alloc_ok ctx_bytes then Some None
      else if \<not> alloc_ok fpu_bytes then None
      else let c = \<lparr>is_fpu_owner = - 1, sc = None, ctx_type = TYPE_IDLE, state = TS_INIT, affinity = 0, cpuid = 0,
                    kstack_state = KS_FREE, exit_state = TE_RUNNING\<rparr>
           in if ty = TYPE_SHADOW \<or> ty = TYPE_REGISTER then Some (Some c)
              else if \<not> alloc_ok sc_bytes then Some None
              else Some (Some (c\<lparr>sc := Some \<lparr>budget = 0, prio = 0\<rparr>\<rparr>)))"

fun init_idle_threads :: "(nat \<Rightarrow> bool) \<Rightarrow> nat \<Rightarrow> nat \<Rightarrow> nat \<Rightarrow> sched_state \<Rightarrow> nat list \<Rightarrow> sched_state option" where
  "init_idle_threads alloc_ok ctx_bytes fpu_bytes sc_bytes s [] = Some s"
| "init_idle_threads alloc_ok ctx_bytes fpu_bytes sc_bytes s (i # is) =
     do { r \<leftarrow> create_thread_ctx alloc_ok ctx_bytes fpu_bytes sc_bytes TYPE_IDLE;
          c \<leftarrow> r;
          init_idle_threads alloc_ok ctx_bytes fpu_bytes sc_bytes
            (upd_ctx s (idle_thread i) (\<lambda>_. init_thread_ctx c IDLE_PRIO TYPE_IDLE (int i))) is }"

definition init_current_threads :: "sched_state \<Rightarrow> sched_state" where
  "init_current_threads s = s\<lparr>current_threads := (\<lambda>_. None)\<rparr>"

definition sched_init :: "sched_ops \<Rightarrow> (nat \<Rightarrow> bool) \<Rightarrow> nat \<Rightarrow> nat \<Rightarrow> nat \<Rightarrow> sched_state \<Rightarrow> sched_state option" where
  "sched_init ops alloc_ok ctx_bytes fpu_bytes sc_bytes s =
     do { s1 \<leftarrow> init_idle_threads alloc_ok ctx_bytes fpu_bytes sc_bytes s [0..<ncpu s];
          op_init ops (init_current_threads s1) }"

text \<open>
  \<open>wait_for_kernel_stack\<close> spins until another CPU frees the stack of the target; no step of this CPU can
  end the wait, so the operation returns only from a state in which the stack is free.
\<close>

definition wait_for_kernel_stack :: "sched_state \<Rightarrow> nat \<Rightarrow> unit option" where
  "wait_for_kernel_stack s t = (if kstack_state (ctx s t) = KS_FREE then Some () else None)"

definition sched_to_thread :: "sched_ops \<Rightarrow> sched_state \<Rightarrow> nat \<Rightarrow> nat \<Rightarrow> sched_state option" where
  "sched_to_thread ops s me t =
     do { BUG_ON (state (ctx s t) \<noteq> TS_WAITING \<and> state (ctx s t) \<noteq> TS_INTER);
          BUG_ON (current_threads s me = Some t);
          _ \<leftarrow> wait_for_kernel_stack s t;
          let own = is_fpu_owner (ctx s t);
          if 0 \<le> own \<and> own \<noteq> int me
          then do { (r, s1) \<leftarrow> op_enqueue ops (upd_ctx s t (\<lambda>c. c\<lparr>state := TS_INTER\<rparr>)) me t;
                    BUG_ON (r \<noteq> 0);
                    op_sched ops s1 me }
          else do { c \<leftarrow> current_threads s me;
                    s1 \<leftarrow> (if state (ctx s c) \<noteq> TS_WAITING
                          then do { (r, s1) \<leftarrow> op_enqueue ops s me c; BUG_ON (r \<noteq> 0); Some s1 } else Some s);
                    switch_to_thread s1 me t } }"

definition sys_yield :: "sched_ops \<Rightarrow> sched_state \<Rightarrow> nat \<Rightarrow> sched_state option" where
  "sys_yield ops s me =
     do { t \<leftarrow> current_threads s me;
          sctx \<leftarrow> sc (ctx s t);
          op_sched ops (upd_ctx s t (\<lambda>c. c\<lparr>sc := Some (sctx\<lparr>budget := 0\<rparr>)\<rparr>)) me }"

text \<open>
  The thread a capability argument names: 0 is the current thread, any other one is looked up by \<open>obj_get\<close>
  in the current group (the argument \<open>lookup\<close>, whose reference is dropped before the call returns).
\<close>

definition thread_of_cap :: "(int \<Rightarrow> nat option) \<Rightarrow> sched_state \<Rightarrow> nat \<Rightarrow> int \<Rightarrow> nat option" where
  "thread_of_cap lookup s me cap = (if cap = 0 then current_threads s me else lookup cap)"

definition sys_set_affinity :: "(int \<Rightarrow> nat option) \<Rightarrow> sched_state \<Rightarrow> nat \<Rightarrow> int \<Rightarrow> int \<Rightarrow> int \<times> sched_state" where
  "sys_set_affinity lookup s me cap aff =
     (if int (ncpu s) \<le> aff then (- EINVAL, s)
      else case thread_of_cap lookup s me cap of
             None \<Rightarrow> (- ECAPBILITY, s)
           | Some t \<Rightarrow> (0, upd_ctx s t (\<lambda>c. c\<lparr>affinity := aff\<rparr>)))"

definition sys_get_affinity :: "(int \<Rightarrow> nat option) \<Rightarrow> sched_state \<Rightarrow> nat \<Rightarrow> int \<Rightarrow> int" where
  "sys_get_affinity lookup s me cap =
     (case thread_of_cap lookup s me cap of None \<Rightarrow> - ECAPBILITY | Some t \<Rightarrow> affinity (ctx s t))"

definition sys_set_prio :: "sched_state \<Rightarrow> nat \<Rightarrow> int \<Rightarrow> int \<Rightarrow> (int \<times> sched_state) option" where
  "sys_set_prio s me cap p =
     (if cap \<noteq> 0 then Some (- EINVAL, s)
      else if p \<le> 0 \<or> int MAX_PRIO < p then Some (- EINVAL, s)
      else do { t \<leftarrow> current_threads s me;
                sctx \<leftarrow> sc (ctx s t);
                Some (0, upd_ctx s t (\<lambda>c. c\<lparr>sc := Some (sctx\<lparr>prio := nat p\<rparr>)\<rparr>)) })"

definition sys_get_prio :: "sched_state \<Rightarrow> nat \<Rightarrow> int \<Rightarrow> int option" where
  "sys_get_prio s me cap =
     (if cap \<noteq> 0 then Some (- EINVAL)
      else do { t \<leftarrow> current_threads s me; sctx \<leftarrow> sc (ctx s t); Some (int (prio sctx)) })"

text \<open>
  The compare-and-swap of the exit state that \<open>sys_thread_exit\<close> and \<open>sys_terminate_thread\<close> share: whether this
  call is the one that ends the thread (and so decrements the group's \<open>thread_cnt\<close>), and the new state.
\<close>

definition cmpxchg_exit_state :: "sched_state \<Rightarrow> nat \<Rightarrow> bool \<times> sched_state" where
  "cmpxchg_exit_state s t =
     (if exit_state (ctx s t) = TE_RUNNING then (True, upd_ctx s t (\<lambda>c. c\<lparr>exit_state := TE_EXITING\<rparr>)) else (False, s))"

text \<open>The decrement of a counter of type \<open>int\<close>; at the smallest value it overflows.\<close>

definition int_dec :: "int \<Rightarrow> int option" where
  "int_dec n = (if n = - (2 ^ 31) then None else Some (n - 1))"

text \<open>
  How a call that ends a thread leaves the kernel: it returns to its caller, hands over to \<open>sys_exit_group\<close>, or
  switches away for good. \<open>cnt\<close> is the \<open>thread_cnt\<close> of the current group, a 32-bit \<open>int\<close>.
\<close>

datatype exit_outcome = Returned int int sched_state | Exit_Group int sched_state | Switched int sched_state

definition sys_thread_exit :: "sched_ops \<Rightarrow> sched_state \<Rightarrow> nat \<Rightarrow> int \<Rightarrow> exit_outcome option" where
  "sys_thread_exit ops s me cnt =
     do { t \<leftarrow> current_threads s me;
          let (won, s1) = cmpxchg_exit_state s t;
          cnt1 \<leftarrow> (if won then int_dec cnt else Some cnt);
          if won \<and> cnt1 = 0 then Some (Exit_Group cnt1 s1)
          else do { s2 \<leftarrow> op_sched ops s1 me; Some (Switched cnt1 s2) } }"

definition sys_terminate_thread ::
  "sched_ops \<Rightarrow> (int \<Rightarrow> nat option) \<Rightarrow> sched_state \<Rightarrow> nat \<Rightarrow> int \<Rightarrow> int \<Rightarrow> exit_outcome option" where
  "sys_terminate_thread ops lookup s me cnt cap =
     (if cap = 0 then sys_thread_exit ops s me cnt
      else case lookup cap of
        None \<Rightarrow> Some (Returned (- ECAPBILITY) cnt s)
      | Some t \<Rightarrow> do {
          let (won, s1) = cmpxchg_exit_state s t;
          cnt1 \<leftarrow> (if won then int_dec cnt else Some cnt);
          Some (Returned 0 cnt1 s1) })"

end
