(* ===== verification/Prio_Bitmap.thy ===== *)
theory Prio_Bitmap
  imports Sched
begin

text \<open>
  The two-level bitmap of \<open>policy_pbrr.c\<close> implements a set of priorities: initialisation, setting and clearing are
  the empty set, insertion and deletion, and the two \<open>bsr\<close> instructions give the maximum.
\<close>

definition bitmap_ok :: "prio_bitmap \<Rightarrow> bool" where
  "bitmap_ok b \<longleftrightarrow> length (bitmap_lvl1 b) = 32 \<and> (\<forall>i<32. bit (bitmap_lvl0 b) i \<longleftrightarrow> bitmap_lvl1 b ! i \<noteq> 0)"

definition prios :: "prio_bitmap \<Rightarrow> nat set" where
  "prios b = {p. p < 1024 \<and> bit (bitmap_lvl1 b ! (p div 32)) (p mod 32)}"

lemma level_index: "drop_bit PRIO_LEVEL_SHIFT p = p div 32" "p AND PRIO_LEVEL_MASK = p mod 32" for p :: nat
proof -
  show "drop_bit PRIO_LEVEL_SHIFT p = p div 32" by (simp add: PRIO_LEVEL_SHIFT_def drop_bit_eq_div)
  have "p AND mask 5 = p mod 32" by (simp add: take_bit_eq_mod flip: take_bit_eq_mask)
  moreover have "mask 5 = (31 :: nat)" by (simp add: mask_eq_exp_minus_1)
  ultimately show "p AND PRIO_LEVEL_MASK = p mod 32" by (simp add: PRIO_LEVEL_MASK_def)
qed

lemma bit_u32: "bit (w OR 2 ^ j) i \<longleftrightarrow> bit w i \<or> i = j \<and> j < 32"
  "bit (w AND NOT (2 ^ j)) i \<longleftrightarrow> bit w i \<and> i \<noteq> j" for w :: u32
  by (auto simp: bit_simps dest: bit_imp_le_length)

lemma u32_zero: "w = 0 \<longleftrightarrow> (\<forall>j<32. \<not> bit w j)" for w :: u32
  using bsr_None [of w] bsr_from_None [of 32 w] by (simp add: bsr_def)

lemma or_bit_nonzero: "j < 32 \<Longrightarrow> w OR 2 ^ j \<noteq> 0" for w :: u32
  unfolding u32_zero using bit_u32(1) [of w j j] by blast

lemma prio_bitmap_init_ok: "bitmap_ok prio_bitmap_init" "prios prio_bitmap_init = {}"
  by (auto simp: bitmap_ok_def prios_def prio_bitmap_init_def PRIOS_PER_LEVEL_def)

lemma same_prio: "p = q \<longleftrightarrow> p div 32 = q div 32 \<and> p mod 32 = q mod 32" for p q :: nat
  by (metis div_mult_mod_eq)

lemma prio_bitmap_set_ok:
  assumes "bitmap_ok b" "p < 1024"
  shows "\<exists>b'. prio_bitmap_set b p = Some b' \<and> bitmap_ok b' \<and> prios b' = insert p (prios b)"
proof -
  have i: "p div 32 < 32" using assms(2) by auto
  let ?b = "\<lparr>bitmap_lvl0 = bitmap_lvl0 b OR push_bit (p div 32) 1,
             bitmap_lvl1 = (bitmap_lvl1 b)[p div 32 := bitmap_lvl1 b ! (p div 32) OR push_bit (p mod 32) 1]\<rparr>"
  have "prio_bitmap_set b p = Some ?b"
    using i by (simp add: prio_bitmap_set_def level_index BUG_ON_def PRIOS_PER_LEVEL_def Let_def)
  moreover have "bitmap_ok ?b"
    using assms(1) i by (auto simp: bitmap_ok_def nth_list_update bit_u32 or_bit_nonzero)
  moreover have "q \<in> prios ?b \<longleftrightarrow> q \<in> insert p (prios b)" for q
    using assms i same_prio [of q p] by (auto simp: bitmap_ok_def prios_def nth_list_update bit_u32)
  ultimately show ?thesis by blast
qed

lemma prio_bitmap_clear_ok:
  assumes "bitmap_ok b" "p < 1024"
  shows "\<exists>b'. prio_bitmap_clear b p = Some b' \<and> bitmap_ok b' \<and> prios b' = prios b - {p}"
proof -
  have i: "p div 32 < 32" using assms(2) by auto
  define w where "w = bitmap_lvl1 b ! (p div 32) AND NOT (push_bit (p mod 32) 1)"
  let ?b = "\<lparr>bitmap_lvl0 = (if w = 0 then bitmap_lvl0 b AND NOT (push_bit (p div 32) 1) else bitmap_lvl0 b),
             bitmap_lvl1 = (bitmap_lvl1 b)[p div 32 := w]\<rparr>"
  have "prio_bitmap_clear b p = Some ?b"
    using i by (simp add: prio_bitmap_clear_def level_index BUG_ON_def PRIOS_PER_LEVEL_def Let_def w_def)
  moreover have w: "bit w j \<longleftrightarrow> bit (bitmap_lvl1 b ! (p div 32)) j \<and> j \<noteq> p mod 32" for j
    by (simp add: w_def bit_u32)
  have "w \<noteq> 0 \<Longrightarrow> bitmap_lvl1 b ! (p div 32) \<noteq> 0" using w by (auto simp: u32_zero)
  then have "bitmap_ok ?b"
    using assms(1) i by (auto simp: bitmap_ok_def nth_list_update bit_u32)
  moreover have "q \<in> prios ?b \<longleftrightarrow> q \<in> prios b - {p}" for q
    using assms i same_prio [of q p] by (auto simp: bitmap_ok_def prios_def nth_list_update w)
  ultimately show ?thesis by blast
qed

lemma prio_bitmap_is_empty_iff:
  assumes "bitmap_ok b"
  shows "prio_bitmap_is_empty b \<longleftrightarrow> prios b = {}"
proof
  assume "prio_bitmap_is_empty b"
  then have "\<forall>i<32. bitmap_lvl1 b ! i = 0" using assms by (auto simp: prio_bitmap_is_empty_def bitmap_ok_def)
  then show "prios b = {}" by (auto simp: prios_def)
next
  assume e: "prios b = {}"
  have "\<not> bit (bitmap_lvl0 b) i" if "i < 32" for i
  proof
    assume "bit (bitmap_lvl0 b) i"
    then obtain j where "j < 32" "bit (bitmap_lvl1 b ! i) j" using assms \<open>i < 32\<close> by (auto simp: bitmap_ok_def u32_zero)
    then have "i * 32 + j \<in> prios b" using \<open>i < 32\<close> by (auto simp: prios_def)
    then show False using e by simp
  qed
  then show "prio_bitmap_is_empty b" by (simp add: prio_bitmap_is_empty_def u32_zero)
qed

lemma get_highest_prio_Max:
  assumes b: "bitmap_ok b" and ne: "prios b \<noteq> {}"
  shows "get_highest_prio b = Some (Max (prios b))"
proof -
  have "bitmap_lvl0 b \<noteq> 0" using prio_bitmap_is_empty_iff [OF b] ne by (simp add: prio_bitmap_is_empty_def)
  then obtain i where i: "bsr (bitmap_lvl0 b) = Some i" using bsr_None by (cases "bsr (bitmap_lvl0 b)") auto
  then have i': "i < 32" "bit (bitmap_lvl0 b) i" "\<forall>k<32. bit (bitmap_lvl0 b) k \<longrightarrow> k \<le> i" by (simp_all add: bsr_Some)
  then have "bitmap_lvl1 b ! i \<noteq> 0" using b by (simp add: bitmap_ok_def)
  then obtain j where j: "bsr (bitmap_lvl1 b ! i) = Some j" using bsr_None by (cases "bsr (bitmap_lvl1 b ! i)") auto
  then have j': "j < 32" "bit (bitmap_lvl1 b ! i) j" "\<forall>k<32. bit (bitmap_lvl1 b ! i) k \<longrightarrow> k \<le> j"
    by (simp_all add: bsr_Some)
  have "i * 32 + j \<in> prios b" using i' j' by (auto simp: prios_def)
  moreover have "q \<le> i * 32 + j" if "q \<in> prios b" for q
  proof -
    have q: "q div 32 < 32" "bit (bitmap_lvl1 b ! (q div 32)) (q mod 32)" using that by (auto simp: prios_def)
    then have "bitmap_lvl1 b ! (q div 32) \<noteq> 0" by auto
    then have "q div 32 \<le> i" using b i' q by (simp add: bitmap_ok_def)
    moreover have "q div 32 = i \<Longrightarrow> q mod 32 \<le> j" using j' q by simp
    moreover have "q = q div 32 * 32 + q mod 32" "q mod 32 < 32" by simp_all
    ultimately show ?thesis by (cases "q div 32 = i") linarith+
  qed
  moreover have "finite (prios b)" by (simp add: prios_def)
  ultimately have "Max (prios b) = i * 32 + j" by (intro Max_eqI) auto
  then show ?thesis using i j by (simp add: get_highest_prio_def push_bit_eq_mult PRIO_LEVEL_SHIFT_def)
qed

end
