(* ===== verification/Sched_Correct.thy ===== *)
theory Sched_Correct
  imports Prio_Bitmap
begin

text \<open>
  The invariant of the scheduler and its preservation. \<open>sched_inv K R q h s\<close> relates the thread contexts, the current
  threads and the references to the relation \<open>R\<close> (thread \<open>t\<close> is queued on CPU \<open>c\<close>); \<open>q\<close> tells whether the policy
  queues idle threads, and \<open>h\<close> is the set of threads that the operation under way holds, for which the
  clauses that a step breaks and restores are suspended. \<open>K t\<close> is the number of references to thread \<open>t\<close> that are held
  outside the ready queues, by capabilities and by calls under way: the count in the object is \<open>K t\<close>, plus one while
  the thread is queued. A thread that can still run or is the current thread of a CPU has such a reference.
\<close>

section \<open>The invariant\<close>

definition thread_ok :: "sched_state \<Rightarrow> nat \<Rightarrow> bool" where
  "thread_ok s t \<longleftrightarrow>
     (affinity (ctx s t) = NO_AFF \<or> 0 \<le> affinity (ctx s t) \<and> affinity (ctx s t) < int (ncpu s)) \<and>
     is_fpu_owner (ctx s t) < int (ncpu s) \<and>
     (\<forall>x. sc (ctx s t) = Some x \<longrightarrow> prio x < PRIO_NUM) \<and>
     (sc (ctx s t) = None \<longrightarrow> ctx_type (ctx s t) \<in> {TYPE_SHADOW, TYPE_REGISTER} \<and> state (ctx s t) \<notin> {TS_READY, TS_RUNNING}) \<and>
     (state (ctx s t) = TS_RUNNING \<longrightarrow> exit_state (ctx s t) \<noteq> TE_EXITED)"

definition idle_ok :: "sched_state \<Rightarrow> nat \<Rightarrow> bool" where
  "idle_ok s i \<longleftrightarrow>
     ctx_type (ctx s i) = TYPE_IDLE \<and> affinity (ctx s i) = int i \<and> is_fpu_owner (ctx s i) < 0 \<and>
     exit_state (ctx s i) = TE_RUNNING \<and> map_option prio (sc (ctx s i)) = Some IDLE_PRIO"

definition idle_parked :: "bool \<Rightarrow> sched_state \<Rightarrow> nat \<Rightarrow> bool" where
  "idle_parked q s i \<longleftrightarrow>
     (if q then state (ctx s i) = TS_READY \<and> cpuid (ctx s i) = i else state (ctx s i) \<in> {TS_INIT, TS_INTER})"

definition refs_ok :: "(nat \<Rightarrow> nat) \<Rightarrow> sched_state \<Rightarrow> nat \<Rightarrow> bool" where
  "refs_ok K s t \<longleftrightarrow> t < ncpu s \<or>
     K t + 1 < 2 ^ 64 \<and>
     (0 < K t \<longrightarrow> thread_refs s t = Some (word_of_nat (if state (ctx s t) = TS_READY then K t + 1 else K t))) \<and>
     (state (ctx s t) \<in> {TS_INIT, TS_EXIT} \<or> 0 < K t)"

lemma refs_ok_keep:
  assumes "refs_ok K s t" "ncpu s' = ncpu s" "thread_refs s' t = thread_refs s t"
    "(state (ctx s' t) = TS_READY) = (state (ctx s t) = TS_READY)" "state (ctx s' t) \<in> {TS_INIT, TS_EXIT} \<or> t < ncpu s \<or> 0 < K t"
  shows "refs_ok K s' t"
  using assms by (auto simp: refs_ok_def)

definition sched_inv :: "(nat \<Rightarrow> nat) \<Rightarrow> (nat \<Rightarrow> nat \<Rightarrow> bool) \<Rightarrow> bool \<Rightarrow> nat set \<Rightarrow> sched_state \<Rightarrow> bool" where
  "sched_inv K R q h s \<longleftrightarrow>
     (\<forall>t. thread_ok s t) \<and> (\<forall>i<ncpu s. idle_ok s i) \<and> (\<forall>t. ctx_type (ctx s t) = TYPE_IDLE \<longrightarrow> t < ncpu s) \<and>
     (\<forall>c t. R c t \<longrightarrow> c < ncpu s \<and> state (ctx s t) = TS_READY \<and> cpuid (ctx s t) = c) \<and>
     (\<forall>t. state (ctx s t) = TS_READY \<longrightarrow> R (cpuid (ctx s t)) t) \<and>
     (\<forall>t. refs_ok K s t) \<and>
     (\<forall>c t. current_threads s c = Some t \<longrightarrow> c < ncpu s \<and> (t \<in> h \<or> state (ctx s t) \<in> {TS_RUNNING, TS_WAITING, TS_EXIT})) \<and>
     (\<forall>c d t. current_threads s c = Some t \<longrightarrow> current_threads s d = Some t \<longrightarrow> c = d) \<and>
     (\<forall>t. state (ctx s t) = TS_RUNNING \<longrightarrow> t \<in> h \<or> (\<exists>c. current_threads s c = Some t)) \<and>
     (\<forall>i<ncpu s. i \<in> h \<or> current_threads s i = Some i \<and> state (ctx s i) = TS_RUNNING \<or> idle_parked q s i) \<and>
     (\<forall>c t. current_threads s c = Some t \<longrightarrow> t < ncpu s \<or> 0 < K t)"

lemma sched_invD:
  assumes "sched_inv K R q h s"
  shows "thread_ok s t" "i < ncpu s \<Longrightarrow> idle_ok s i" "ctx_type (ctx s t) = TYPE_IDLE \<Longrightarrow> t < ncpu s"
    "R c t \<Longrightarrow> c < ncpu s" "R c t \<Longrightarrow> state (ctx s t) = TS_READY" "R c t \<Longrightarrow> cpuid (ctx s t) = c"
    "state (ctx s t) = TS_READY \<Longrightarrow> R (cpuid (ctx s t)) t"
    "refs_ok K s t"
    "current_threads s c = Some t \<Longrightarrow> c < ncpu s"
    "current_threads s c = Some t \<Longrightarrow> t \<notin> h \<Longrightarrow> state (ctx s t) \<in> {TS_RUNNING, TS_WAITING, TS_EXIT}"
    "current_threads s c = Some t \<Longrightarrow> current_threads s d = Some t \<Longrightarrow> c = d"
    "state (ctx s t) = TS_RUNNING \<Longrightarrow> t \<notin> h \<Longrightarrow> \<exists>c. current_threads s c = Some t"
    "i < ncpu s \<Longrightarrow> i \<notin> h \<Longrightarrow> current_threads s i = Some i \<and> state (ctx s i) = TS_RUNNING \<or> idle_parked q s i"
    "current_threads s c = Some t \<Longrightarrow> t < ncpu s \<or> 0 < K t"
proof -
  have C: "\<forall>t. thread_ok s t" "\<forall>i<ncpu s. idle_ok s i" "\<forall>t. ctx_type (ctx s t) = TYPE_IDLE \<longrightarrow> t < ncpu s"
      "\<forall>c t. R c t \<longrightarrow> c < ncpu s \<and> state (ctx s t) = TS_READY \<and> cpuid (ctx s t) = c"
      "\<forall>t. state (ctx s t) = TS_READY \<longrightarrow> R (cpuid (ctx s t)) t" "\<forall>t. refs_ok K s t"
      "\<forall>c t. current_threads s c = Some t \<longrightarrow> c < ncpu s \<and> (t \<in> h \<or> state (ctx s t) \<in> {TS_RUNNING, TS_WAITING, TS_EXIT})"
      "\<forall>c d t. current_threads s c = Some t \<longrightarrow> current_threads s d = Some t \<longrightarrow> c = d"
      "\<forall>t. state (ctx s t) = TS_RUNNING \<longrightarrow> t \<in> h \<or> (\<exists>c. current_threads s c = Some t)"
      "\<forall>i<ncpu s. i \<in> h \<or> current_threads s i = Some i \<and> state (ctx s i) = TS_RUNNING \<or> idle_parked q s i"
      "\<forall>c t. current_threads s c = Some t \<longrightarrow> t < ncpu s \<or> 0 < K t"
    using assms unfolding sched_inv_def by - (elim conjE, assumption)+
  show "thread_ok s t" "refs_ok K s t" using C(1,6) by blast+
  show "i < ncpu s \<Longrightarrow> idle_ok s i" using C(2) by blast
  show "ctx_type (ctx s t) = TYPE_IDLE \<Longrightarrow> t < ncpu s" using C(3) by blast
  show "R c t \<Longrightarrow> c < ncpu s" "R c t \<Longrightarrow> state (ctx s t) = TS_READY" "R c t \<Longrightarrow> cpuid (ctx s t) = c" using C(4) by blast+
  show "state (ctx s t) = TS_READY \<Longrightarrow> R (cpuid (ctx s t)) t" using C(5) by blast
  show "current_threads s c = Some t \<Longrightarrow> c < ncpu s"
    "current_threads s c = Some t \<Longrightarrow> t \<notin> h \<Longrightarrow> state (ctx s t) \<in> {TS_RUNNING, TS_WAITING, TS_EXIT}" using C(7) by blast+
  show "current_threads s c = Some t \<Longrightarrow> current_threads s d = Some t \<Longrightarrow> c = d" using C(8) by blast
  show "state (ctx s t) = TS_RUNNING \<Longrightarrow> t \<notin> h \<Longrightarrow> \<exists>c. current_threads s c = Some t" using C(9) by blast
  show "i < ncpu s \<Longrightarrow> i \<notin> h \<Longrightarrow> current_threads s i = Some i \<and> state (ctx s i) = TS_RUNNING \<or> idle_parked q s i" using C(10) by blast
  show "current_threads s c = Some t \<Longrightarrow> t < ncpu s \<or> 0 < K t" by (rule C(11) [rule_format])
qed

lemma sched_invI:
  assumes "\<And>t. thread_ok s t" "\<And>i. i < ncpu s \<Longrightarrow> idle_ok s i" "\<And>t. ctx_type (ctx s t) = TYPE_IDLE \<Longrightarrow> t < ncpu s"
    "\<And>c t. R c t \<Longrightarrow> c < ncpu s \<and> state (ctx s t) = TS_READY \<and> cpuid (ctx s t) = c"
    "\<And>t. state (ctx s t) = TS_READY \<Longrightarrow> R (cpuid (ctx s t)) t"
    "\<And>t. refs_ok K s t"
    "\<And>c t. current_threads s c = Some t \<Longrightarrow> c < ncpu s \<and> (t \<in> h \<or> state (ctx s t) \<in> {TS_RUNNING, TS_WAITING, TS_EXIT})"
    "\<And>c d t. current_threads s c = Some t \<Longrightarrow> current_threads s d = Some t \<Longrightarrow> c = d"
    "\<And>t. state (ctx s t) = TS_RUNNING \<Longrightarrow> t \<in> h \<or> (\<exists>c. current_threads s c = Some t)"
    "\<And>i. i < ncpu s \<Longrightarrow> i \<in> h \<or> current_threads s i = Some i \<and> state (ctx s i) = TS_RUNNING \<or> idle_parked q s i"
    "\<And>c t. current_threads s c = Some t \<Longrightarrow> t < ncpu s \<or> 0 < K t"
  shows "sched_inv K R q h s"
  unfolding sched_inv_def by (intro conjI; intro allI impI; rule assms; assumption)

text \<open>Only three clauses depend on the threads in hand.\<close>

lemma sched_inv_hands:
  assumes "sched_inv K R q h s"
    "\<forall>c t. current_threads s c = Some t \<longrightarrow> c < ncpu s \<and> (t \<in> h' \<or> state (ctx s t) \<in> {TS_RUNNING, TS_WAITING, TS_EXIT})"
    "\<forall>t. state (ctx s t) = TS_RUNNING \<longrightarrow> t \<in> h' \<or> (\<exists>c. current_threads s c = Some t)"
    "\<forall>i<ncpu s. i \<in> h' \<or> current_threads s i = Some i \<and> state (ctx s i) = TS_RUNNING \<or> idle_parked q s i"
  shows "sched_inv K R q h' s"
  using assms unfolding sched_inv_def by (intro conjI) (elim conjE, assumption)+

lemma sched_inv_mono:
  assumes I: "sched_inv K R q h s" and "h \<subseteq> h'"
  shows "sched_inv K R q h' s"
proof (rule sched_inv_hands [OF I]; intro allI impI)
  show "c < ncpu s \<and> (t \<in> h' \<or> state (ctx s t) \<in> {TS_RUNNING, TS_WAITING, TS_EXIT})" if "current_threads s c = Some t" for c t
    using sched_invD(9,10) [OF I that] assms(2) by blast
  show "t \<in> h' \<or> (\<exists>c. current_threads s c = Some t)" if "state (ctx s t) = TS_RUNNING" for t
    using sched_invD(12) [OF I that] assms(2) by blast
  show "i \<in> h' \<or> current_threads s i = Some i \<and> state (ctx s i) = TS_RUNNING \<or> idle_parked q s i" if "i < ncpu s" for i
    using sched_invD(13) [OF I that] assms(2) by blast
qed

text \<open>
  The three ways an operation changes one thread: its context is replaced with the queues as they are, it enters
  a queue, or it leaves one.
\<close>

lemma sched_inv_set:
  assumes I: "sched_inv K R q h s" and s': "ncpu s' = ncpu s" "ctx s' = (ctx s)(t := x)" "thread_refs s' = thread_refs s"
      "current_threads s' = current_threads s"
    and t: "t \<in> h" "state (ctx s t) \<noteq> TS_READY" "state x \<noteq> TS_READY"
      "thread_ok s' t" "ctx_type x = ctx_type (ctx s t)" "t < ncpu s \<Longrightarrow> idle_ok s' t" "state x = TS_EXIT \<or> t < ncpu s \<or> 0 < K t"
  shows "sched_inv K R q h s'"
proof (rule sched_invI)
  show "thread_ok s' u" for u
    using sched_invD(1) [OF I, of u] t(4) s' by (cases "u = t") (simp_all add: thread_ok_def)
  show "idle_ok s' i" if "i < ncpu s'" for i
    using sched_invD(2) [OF I, of i] t(6) s' that by (cases "i = t") (simp_all add: idle_ok_def)
  show "u < ncpu s'" if "ctx_type (ctx s' u) = TYPE_IDLE" for u
    using sched_invD(3) [OF I, of u] t(5) s' that by (simp split: if_splits)
  show "c < ncpu s' \<and> state (ctx s' u) = TS_READY \<and> cpuid (ctx s' u) = c" if "R c u" for c u
    using sched_invD(4,5,6) [OF I that] t(2) s' by auto
  show "R (cpuid (ctx s' u)) u" if "state (ctx s' u) = TS_READY" for u
    using sched_invD(7) [OF I, of u] t(3) s' that by (simp split: if_splits)
  show "refs_ok K s' u" for u
    by (rule refs_ok_keep [OF sched_invD(8) [OF I, of u]]) (use t(2,3,7) s' sched_invD(8) [OF I, of u] in \<open>auto simp: refs_ok_def\<close>)
  show "c < ncpu s' \<and> (u \<in> h \<or> state (ctx s' u) \<in> {TS_RUNNING, TS_WAITING, TS_EXIT})" if "current_threads s' c = Some u" for c u
    using sched_invD(9,10) [OF I, of c u] t(1) s' that by auto
  show "u < ncpu s' \<or> 0 < K u" if "current_threads s' d = Some u" for d u
    using sched_invD(14) [OF I, of d u] s' that by simp
  show "c = d" if "current_threads s' c = Some u" "current_threads s' d = Some u" for c d u
    using sched_invD(11) [OF I] s' that by simp
  show "u \<in> h \<or> (\<exists>c. current_threads s' c = Some u)" if "state (ctx s' u) = TS_RUNNING" for u
    using sched_invD(12) [OF I, of u] t(1) s' that by (auto split: if_splits)
  show "i \<in> h \<or> current_threads s' i = Some i \<and> state (ctx s' i) = TS_RUNNING \<or> idle_parked q s' i" if "i < ncpu s'" for i
    using sched_invD(13) [OF I, of i] t(1) s' that by (cases "i = t") (auto simp: idle_parked_def)
qed

lemma sched_inv_enqueue:
  assumes I: "sched_inv K R q h s" and s': "ncpu s' = ncpu s" "ctx s' = (ctx s)(t := x)" "current_threads s' = current_threads s"
      "thread_refs s' = (if t < ncpu s then thread_refs s else (thread_refs s)(t \<mapsto> word_of_nat (K t + 1)))"
    and t: "t \<in> h" "state (ctx s t) \<noteq> TS_READY" "state x = TS_READY" "cpuid x = c" "c < ncpu s"
      "thread_ok s' t" "ctx_type x = ctx_type (ctx s t)" "t < ncpu s \<Longrightarrow> idle_ok s' t" "t < ncpu s \<or> 0 < K t"
    and R': "\<And>d u. R' d u \<longleftrightarrow> R d u \<or> d = c \<and> u = t"
  shows "sched_inv K R' q h s'"
proof (rule sched_invI)
  show "thread_ok s' u" for u
    using sched_invD(1) [OF I, of u] t(6) s' by (cases "u = t") (simp_all add: thread_ok_def)
  show "idle_ok s' i" if "i < ncpu s'" for i
    using sched_invD(2) [OF I, of i] t(8) s' that by (cases "i = t") (simp_all add: idle_ok_def)
  show "u < ncpu s'" if "ctx_type (ctx s' u) = TYPE_IDLE" for u
    using sched_invD(3) [OF I, of u] t(7) s' that by (simp split: if_splits)
  show "d < ncpu s' \<and> state (ctx s' u) = TS_READY \<and> cpuid (ctx s' u) = d" if "R' d u" for d u
    using sched_invD(4,5,6) [OF I, of d u] t s' that R' by auto
  show "R' (cpuid (ctx s' u)) u" if "state (ctx s' u) = TS_READY" for u
    using sched_invD(7) [OF I, of u] t s' that R' by (cases "u = t") simp_all
  show "refs_ok K s' u" for u
    using sched_invD(8) [OF I, of u] t(2,3,9) s' by (cases "u = t") (auto simp: refs_ok_def)
  show "d < ncpu s' \<and> (u \<in> h \<or> state (ctx s' u) \<in> {TS_RUNNING, TS_WAITING, TS_EXIT})" if "current_threads s' d = Some u" for d u
    using sched_invD(9,10) [OF I, of d u] t(1) s' that by auto
  show "u < ncpu s' \<or> 0 < K u" if "current_threads s' d = Some u" for d u
    using sched_invD(14) [OF I, of d u] s' that by simp
  show "d = e" if "current_threads s' d = Some u" "current_threads s' e = Some u" for d e u
    using sched_invD(11) [OF I] s' that by simp
  show "u \<in> h \<or> (\<exists>d. current_threads s' d = Some u)" if "state (ctx s' u) = TS_RUNNING" for u
    using sched_invD(12) [OF I, of u] t(1) s' that by (auto split: if_splits)
  show "i \<in> h \<or> current_threads s' i = Some i \<and> state (ctx s' i) = TS_RUNNING \<or> idle_parked q s' i" if "i < ncpu s'" for i
    using sched_invD(13) [OF I, of i] t(1) s' that by (cases "i = t") (auto simp: idle_parked_def)
qed

lemma sched_inv_dequeue:
  assumes I: "sched_inv K R q h s" and s': "ncpu s' = ncpu s" "ctx s' = (ctx s)(t := (ctx s t)\<lparr>state := TS_INTER\<rparr>)"
      "current_threads s' = current_threads s"
      "thread_refs s' = (if t < ncpu s then thread_refs s else (thread_refs s)(t \<mapsto> word_of_nat (K t)))"
    and t: "R c t" and R': "\<And>d u. R' d u \<longleftrightarrow> R d u \<and> u \<noteq> t"
  shows "sched_inv K R' q (insert t h) s'"
proof (rule sched_invI)
  note rd = sched_invD(5) [OF I t]
  show "thread_ok s' u" for u
    using sched_invD(1) [OF I, of u] s' by (cases "u = t") (simp_all add: thread_ok_def)
  show "idle_ok s' i" if "i < ncpu s'" for i
    using sched_invD(2) [OF I, of i] s' that by (cases "i = t") (simp_all add: idle_ok_def)
  show "u < ncpu s'" if "ctx_type (ctx s' u) = TYPE_IDLE" for u
    using sched_invD(3) [OF I, of u] s' that by (simp split: if_splits)
  show "d < ncpu s' \<and> state (ctx s' u) = TS_READY \<and> cpuid (ctx s' u) = d" if "R' d u" for d u
    using sched_invD(4,5,6) [OF I, of d u] s' that R' by auto
  show "R' (cpuid (ctx s' u)) u" if "state (ctx s' u) = TS_READY" for u
    using sched_invD(7) [OF I, of u] s' that R' by (cases "u = t") simp_all
  show "refs_ok K s' u" for u
    using sched_invD(8) [OF I, of u] rd s' by (cases "u = t") (auto simp: refs_ok_def)
  show "d < ncpu s' \<and> (u \<in> insert t h \<or> state (ctx s' u) \<in> {TS_RUNNING, TS_WAITING, TS_EXIT})"
    if "current_threads s' d = Some u" for d u
    using sched_invD(9,10) [OF I, of d u] s' that by auto
  show "u < ncpu s' \<or> 0 < K u" if "current_threads s' d = Some u" for d u
    using sched_invD(14) [OF I, of d u] s' that by simp
  show "d = e" if "current_threads s' d = Some u" "current_threads s' e = Some u" for d e u
    using sched_invD(11) [OF I] s' that by simp
  show "u \<in> insert t h \<or> (\<exists>d. current_threads s' d = Some u)" if "state (ctx s' u) = TS_RUNNING" for u
    using sched_invD(12) [OF I, of u] s' that by (auto split: if_splits)
  show "i \<in> insert t h \<or> current_threads s' i = Some i \<and> state (ctx s' i) = TS_RUNNING \<or> idle_parked q s' i" if "i < ncpu s'" for i
    using sched_invD(13) [OF I, of i] s' that by (cases "i = t") (auto simp: idle_parked_def)
qed

text \<open>A thread leaves the hands of the operation.\<close>

lemma sched_inv_release:
  assumes I: "sched_inv K R q (insert t h) s"
    and t: "\<And>c. current_threads s c = Some t \<Longrightarrow> state (ctx s t) \<in> {TS_RUNNING, TS_WAITING, TS_EXIT}"
      "state (ctx s t) = TS_RUNNING \<Longrightarrow> \<exists>c. current_threads s c = Some t"
      "t < ncpu s \<Longrightarrow> current_threads s t = Some t \<and> state (ctx s t) = TS_RUNNING \<or> idle_parked q s t"
  shows "sched_inv K R q h s"
proof (rule sched_inv_hands [OF I]; intro allI impI)
  show "c < ncpu s \<and> (u \<in> h \<or> state (ctx s u) \<in> {TS_RUNNING, TS_WAITING, TS_EXIT})" if "current_threads s c = Some u" for c u
    using sched_invD(9,10) [OF I that] t(1) that by blast
  show "u \<in> h \<or> (\<exists>c. current_threads s c = Some u)" if "state (ctx s u) = TS_RUNNING" for u
    using sched_invD(12) [OF I that] t(2) that by blast
  show "i \<in> h \<or> current_threads s i = Some i \<and> state (ctx s i) = TS_RUNNING \<or> idle_parked q s i" if "i < ncpu s" for i
    using sched_invD(13) [OF I that] t(3) that by blast
qed

text \<open>A field the clauses on queues and current threads do not read is changed.\<close>

lemma sched_inv_same:
  assumes I: "sched_inv K R q h s" and s': "ncpu s' = ncpu s" "ctx s' = (ctx s)(t := x)" "thread_refs s' = thread_refs s"
      "current_threads s' = current_threads s"
    and t: "state x = state (ctx s t)" "cpuid x = cpuid (ctx s t)" "ctx_type x = ctx_type (ctx s t)"
      "thread_ok s' t" "t < ncpu s \<Longrightarrow> idle_ok s' t"
  shows "sched_inv K R q h s'"
proof (rule sched_invI)
  have st: "state (ctx s' u) = state (ctx s u)" "cpuid (ctx s' u) = cpuid (ctx s u)" "ctx_type (ctx s' u) = ctx_type (ctx s u)" for u
    using t s' by simp_all
  show "thread_ok s' u" for u
    using sched_invD(1) [OF I, of u] t(4) s' by (cases "u = t") (simp_all add: thread_ok_def)
  show "idle_ok s' i" if "i < ncpu s'" for i
    using sched_invD(2) [OF I, of i] t(5) s' that by (cases "i = t") (simp_all add: idle_ok_def)
  show "u < ncpu s'" if "ctx_type (ctx s' u) = TYPE_IDLE" for u
    using sched_invD(3) [OF I, of u] that s'(1) by (simp add: st)
  show "c < ncpu s' \<and> state (ctx s' u) = TS_READY \<and> cpuid (ctx s' u) = c" if "R c u" for c u
    using sched_invD(4,5,6) [OF I that] s'(1) by (simp add: st)
  show "R (cpuid (ctx s' u)) u" if "state (ctx s' u) = TS_READY" for u
    using sched_invD(7) [OF I, of u] that by (simp add: st)
  show "refs_ok K s' u" for u
    using sched_invD(8) [OF I, of u] s'(1,3) by (simp add: st refs_ok_def)
  show "c < ncpu s' \<and> (u \<in> h \<or> state (ctx s' u) \<in> {TS_RUNNING, TS_WAITING, TS_EXIT})" if "current_threads s' c = Some u" for c u
    using sched_invD(9,10) [OF I, of c u] s'(1,4) that by (auto simp: st)
  show "u < ncpu s' \<or> 0 < K u" if "current_threads s' d = Some u" for d u
    using sched_invD(14) [OF I, of d u] s' that by simp
  show "c = d" if "current_threads s' c = Some u" "current_threads s' d = Some u" for c d u
    using sched_invD(11) [OF I] s' that by simp
  show "u \<in> h \<or> (\<exists>c. current_threads s' c = Some u)" if "state (ctx s' u) = TS_RUNNING" for u
    using sched_invD(12) [OF I, of u] s'(4) that by (auto simp: st)
  show "i \<in> h \<or> current_threads s' i = Some i \<and> state (ctx s' i) = TS_RUNNING \<or> idle_parked q s' i" if "i < ncpu s'" for i
    using sched_invD(13) [OF I, of i] s'(1,4) that by (auto simp: st idle_parked_def)
qed

section \<open>Switching\<close>

lemma sched_inv_switch:
  assumes I: "sched_inv K R q h s" and s': "ncpu s' = ncpu s" "ctx s' = (ctx s)(t := x)" "thread_refs s' = thread_refs s"
      "current_threads s' = (current_threads s)(me := Some t)"
    and me: "me < ncpu s" and h: "h \<subseteq> insert t (set_option (current_threads s me))"
    and t: "state (ctx s t) \<noteq> TS_READY" "state x = TS_RUNNING" "thread_ok s' t" "ctx_type x = ctx_type (ctx s t)"
      "t < ncpu s \<Longrightarrow> idle_ok s' t" "\<And>c. current_threads s c = Some t \<Longrightarrow> c = me" "t < ncpu s \<Longrightarrow> t = me" "t < ncpu s \<or> 0 < K t"
    and old: "\<And>u. current_threads s me = Some u \<Longrightarrow> u \<noteq> t \<Longrightarrow> state (ctx s u) \<noteq> TS_RUNNING \<and> (u < ncpu s \<longrightarrow> idle_parked q s u)"
  shows "sched_inv K R q {} s'"
proof (rule sched_invI)
  have hu: "u \<notin> h" if "u \<noteq> t" "current_threads s me \<noteq> Some u" for u using h that by auto
  show "thread_ok s' u" for u
    using sched_invD(1) [OF I, of u] t(3) s' by (cases "u = t") (simp_all add: thread_ok_def)
  show "idle_ok s' i" if "i < ncpu s'" for i
    using sched_invD(2) [OF I, of i] t(5) s' that by (cases "i = t") (simp_all add: idle_ok_def)
  show "u < ncpu s'" if "ctx_type (ctx s' u) = TYPE_IDLE" for u
    using sched_invD(3) [OF I, of u] t(4) s' that by (simp split: if_splits)
  show "c < ncpu s' \<and> state (ctx s' u) = TS_READY \<and> cpuid (ctx s' u) = c" if "R c u" for c u
    using sched_invD(4,5,6) [OF I that] t(1) s' by auto
  show "R (cpuid (ctx s' u)) u" if "state (ctx s' u) = TS_READY" for u
    using sched_invD(7) [OF I, of u] t(2) s' that by (simp split: if_splits)
  show "refs_ok K s' u" for u
    using sched_invD(8) [OF I, of u] t(1,2,8) s' by (cases "u = t") (auto simp: refs_ok_def)
  show "c < ncpu s' \<and> (u \<in> {} \<or> state (ctx s' u) \<in> {TS_RUNNING, TS_WAITING, TS_EXIT})" if c: "current_threads s' c = Some u" for c u
  proof (cases "c = me")
    case True
    then show ?thesis using c me t(2) s' by simp
  next
    case False
    then have cu: "current_threads s c = Some u" using c s' by simp
    have "u \<noteq> t" using t(6) [of c] cu False by blast
    moreover have "current_threads s me \<noteq> Some u" using sched_invD(11) [OF I cu, of me] False by blast
    ultimately show ?thesis using sched_invD(9) [OF I cu] sched_invD(10) [OF I cu hu] s'(1,2) by simp
  qed
  show "u < ncpu s' \<or> 0 < K u" if "current_threads s' c = Some u" for c u
    using sched_invD(14) [OF I, of c u] s'(1,4) t(8) that by (cases "c = me") auto
  show "c = d" if "current_threads s' c = Some u" "current_threads s' d = Some u" for c d u
  proof (cases "u = t")
    case True
    have "v = me" if "current_threads s' v = Some t" for v
      using t(6) [of v] that by (cases "v = me") (simp_all add: s'(4))
    then show ?thesis using that True by metis
  next
    case False
    have "current_threads s v = Some u" if "current_threads s' v = Some u" for v
      using that False by (cases "v = me") (simp_all add: s'(4))
    then show ?thesis using sched_invD(11) [OF I, of c u d] that by blast
  qed
  show "u \<in> {} \<or> (\<exists>c. current_threads s' c = Some u)" if r: "state (ctx s' u) = TS_RUNNING" for u
  proof (cases "u = t")
    case False
    then have r': "state (ctx s u) = TS_RUNNING" using r s' by simp
    then have n: "current_threads s me \<noteq> Some u" using old False by blast
    then obtain c where "current_threads s c = Some u" using sched_invD(12) [OF I r'] hu False by blast
    then show ?thesis using n s' by (intro disjI2 exI [of _ c]) auto
  qed (use s' in auto)
  show "i \<in> {} \<or> current_threads s' i = Some i \<and> state (ctx s' i) = TS_RUNNING \<or> idle_parked q s' i" if i: "i < ncpu s'" for i
  proof (cases "i = t")
    case True
    then show ?thesis using t(2,7) i s' by simp
  next
    case False
    have pk: "idle_parked q s' i" if "idle_parked q s i" using that False s'(2) by (cases q) (simp_all add: idle_parked_def)
    show ?thesis
    proof (cases "current_threads s me = Some i")
      case True
      then show ?thesis using old [OF True False] i s'(1) pk by simp
    next
      case n: False
      have "current_threads s i = Some i \<Longrightarrow> i \<noteq> me" using n by blast
      then show ?thesis using sched_invD(13) [OF I _ hu [OF False n]] i s'(1,2,4) pk False by auto
    qed
  qed
qed

lemma switch_to_thread_ok:
  assumes I: "sched_inv K R q h s" and me: "me < ncpu s" and h: "h \<subseteq> insert t (set_option (current_threads s me))"
    and t: "state (ctx s t) \<noteq> TS_READY" "exit_state (ctx s t) \<noteq> TE_EXITED" "sc (ctx s t) \<noteq> None"
      "\<And>c. current_threads s c = Some t \<Longrightarrow> c = me" "t < ncpu s \<Longrightarrow> t = me" "t < ncpu s \<or> 0 < K t"
    and old: "\<And>u. current_threads s me = Some u \<Longrightarrow> u \<noteq> t \<Longrightarrow> state (ctx s u) \<noteq> TS_RUNNING \<and> (u < ncpu s \<longrightarrow> idle_parked q s u)"
  shows "\<exists>s'. switch_to_thread s me t = Some s' \<and> sched_inv K R q {} s' \<and> current_threads s' me = Some t \<and>
           state (ctx s' t) = TS_RUNNING \<and> ncpu s' = ncpu s \<and> (\<forall>u. sc (ctx s' u) = sc (ctx s u)) \<and>
           pbrr_ready_queues s' = pbrr_ready_queues s \<and> rr_ready_queue_meta s' = rr_ready_queue_meta s"
proof -
  obtain x where x: "x = ctx s t\<lparr>state := TS_RUNNING\<rparr> \<and> current_threads s me = Some t \<or>
      x = ctx s t\<lparr>cpuid := me, state := TS_RUNNING, kstack_state := KS_LOCKED\<rparr> \<and> current_threads s me \<noteq> Some t" by blast
  obtain s' where sw: "switch_to_thread s me t = Some s'"
    using t(1,2) by (cases "current_threads s me = Some t") (simp_all add: switch_to_thread_def BUG_ON_def)
  then have s': "ncpu s' = ncpu s" "ctx s' = (ctx s)(t := x)" "thread_refs s' = thread_refs s"
      "current_threads s' = (current_threads s)(me := Some t)"
      "pbrr_ready_queues s' = pbrr_ready_queues s" "rr_ready_queue_meta s' = rr_ready_queue_meta s"
    using x t(1,2) by (auto simp: switch_to_thread_def BUG_ON_def upd_ctx_def split: if_splits)
  have f: "affinity x = affinity (ctx s t)" "is_fpu_owner x = is_fpu_owner (ctx s t)" "sc x = sc (ctx s t)"
      "ctx_type x = ctx_type (ctx s t)" "exit_state x = exit_state (ctx s t)" "state x = TS_RUNNING"
    using x by auto
  have tk: "thread_ok s' t" using sched_invD(1) [OF I, of t] t s' f by (simp add: thread_ok_def)
  have ik: "t < ncpu s \<Longrightarrow> idle_ok s' t" using sched_invD(2) [OF I, of t] s' f by (simp add: idle_ok_def)
  have "sched_inv K R q {} s'"
    using sched_inv_switch [OF I s'(1-4) me h t(1) f(6) tk f(4) ik t(4,5,6) old] by blast
  then show ?thesis using sw s' f by auto
qed

text \<open>A thread that can run has a reference outside the queues.\<close>

lemma runnable_held:
  assumes "sched_inv K R q h s" "state (ctx s t) \<notin> {TS_INIT, TS_EXIT}"
  shows "t < ncpu s \<or> 0 < K t"
  using sched_invD(8) [OF assms(1), of t] assms(2) by (auto simp: refs_ok_def)

lemma ready_not_current:
  assumes "sched_inv K R q h s" "current_threads s c = Some t" "t \<notin> h"
  shows "state (ctx s t) \<noteq> TS_READY"
  using sched_invD(10) [OF assms] by auto

lemma idle_current_cpu:
  assumes S: "sched_inv K R q {} s" and c: "current_threads s c = Some t" "t < ncpu s"
  shows "t = c" "state (ctx s t) = TS_RUNNING"
proof -
  have "\<not> idle_parked q s t" using sched_invD(10) [OF S c(1)] by (auto simp: idle_parked_def split: if_splits)
  then show "t = c" "state (ctx s t) = TS_RUNNING" using sched_invD(13) [OF S c(2)] sched_invD(11) [OF S c(1), of t] by auto
qed

lemma mark_exit_inv:
  assumes S: "sched_inv K R q {} s"
  shows "sched_inv K R q {} (mark_exit s (current_threads s me))"
proof (cases "current_threads s me")
  case (Some t)
  let ?s = "upd_ctx s t (\<lambda>x. x\<lparr>exit_state := TE_EXITED, state := TS_EXIT\<rparr>)"
  show ?thesis
  proof (cases "exit_state (ctx s t) = TE_EXITING")
    case True
    have n: "\<not> t < ncpu s" using sched_invD(2) [OF S, of t] True by (auto simp: idle_ok_def)
    have r: "state (ctx s t) \<noteq> TS_READY" using ready_not_current [OF S Some] by simp
    have tk: "thread_ok ?s t" using sched_invD(1) [OF S, of t] by (auto simp: thread_ok_def upd_ctx_def)
    have "sched_inv K R q {t} s" by (rule sched_inv_mono [OF S]) simp
    then have "sched_inv K R q {t} ?s"
      by (rule sched_inv_set [where t = t and x = "(ctx s t)\<lparr>exit_state := TE_EXITED, state := TS_EXIT\<rparr>"])
         (use n r tk in \<open>simp_all add: upd_ctx_def\<close>)
    then have "sched_inv K R q {} ?s" by (rule sched_inv_release) (use n in \<open>simp_all add: upd_ctx_def\<close>)
    then show ?thesis using Some True by (simp add: mark_exit_def)
  qed (use S Some in \<open>simp add: mark_exit_def\<close>)
qed (use S in \<open>simp add: mark_exit_def\<close>)

lemma mark_exit_frame [simp]:
  "ncpu (mark_exit s x) = ncpu s" "current_threads (mark_exit s x) = current_threads s" "sc (ctx (mark_exit s x) t) = sc (ctx s t)"
  "pbrr_ready_queues (mark_exit s x) = pbrr_ready_queues s" "rr_ready_queue_meta (mark_exit s x) = rr_ready_queue_meta s"
  by (auto simp: mark_exit_def upd_ctx_def split: option.split)

text \<open>A scheduling context whose budget changes.\<close>

lemma budget_inv:
  assumes S: "sched_inv K R q h s" and x: "sc (ctx s t) = Some x"
  shows "sched_inv K R q h (upd_ctx s t (\<lambda>c. c\<lparr>sc := Some (x\<lparr>budget := b\<rparr>)\<rparr>))" (is "sched_inv K R q h ?s")
proof -
  have tk: "thread_ok ?s t" using sched_invD(1) [OF S, of t] x by (simp add: thread_ok_def upd_ctx_def)
  have ik: "t < ncpu s \<Longrightarrow> idle_ok ?s t" using sched_invD(2) [OF S, of t] x by (simp add: idle_ok_def upd_ctx_def)
  show ?thesis
    by (rule sched_inv_same [OF S, where t = t and x = "(ctx s t)\<lparr>sc := Some (x\<lparr>budget := b\<rparr>)\<rparr>"]) (use tk ik in \<open>simp_all add: upd_ctx_def\<close>)
qed

end
