(* ===== verification/Sched_Pbrr.thy ===== *)
theory Sched_Pbrr
  imports Sched_Correct
begin

text \<open>
  Correctness of the priority-based policy: the ready queues and their bitmaps stay consistent, the \<open>retry\<close> loop
  ends, and from every state that satisfies the invariant \<open>pbrr_sched\<close> picks a thread without running into a \<open>BUG_ON\<close>.
\<close>

lemma get_cpubind_ok:
  assumes "thread_ok s t" "me < ncpu s" "exit_state (ctx s t) \<noteq> TE_EXITED"
  shows "\<exists>b s1 own. get_cpubind s me t = Some (b, s1) \<and> (b = NO_AFF \<or> 0 \<le> b \<and> b < int (ncpu s)) \<and>
           (is_fpu_owner (ctx s t) < 0 \<longrightarrow> b = affinity (ctx s t)) \<and> own < int (ncpu s) \<and> (is_fpu_owner (ctx s t) < 0 \<longrightarrow> own < 0) \<and>
           ncpu s1 = ncpu s \<and> ctx s1 = (ctx s)(t := (ctx s t)\<lparr>is_fpu_owner := own\<rparr>) \<and> thread_refs s1 = thread_refs s \<and>
           current_threads s1 = current_threads s \<and> pbrr_ready_queues s1 = pbrr_ready_queues s \<and>
           rr_ready_queue_meta s1 = rr_ready_queue_meta s"
proof -
  let ?c = "ctx s t"
  have ok: "affinity ?c = NO_AFF \<or> 0 \<le> affinity ?c \<and> affinity ?c < int (ncpu s)" "is_fpu_owner ?c < int (ncpu s)"
    using assms(1) by (simp_all add: thread_ok_def)
  have same: "(ctx s)(t := ?c\<lparr>is_fpu_owner := is_fpu_owner ?c\<rparr>) = ctx s" by simp
  consider (none) "is_fpu_owner ?c < 0" | (stay) "is_fpu_owner ?c = int me" "affinity ?c = int me \<or> affinity ?c = NO_AFF"
    | (release) "is_fpu_owner ?c = int me" "affinity ?c \<noteq> int me" "affinity ?c \<noteq> NO_AFF" "cpu_fpu_owner s me = Some t"
    | (other) "is_fpu_owner ?c = int me" "affinity ?c \<noteq> int me" "affinity ?c \<noteq> NO_AFF" "cpu_fpu_owner s me \<noteq> Some t"
    | (remote) "0 \<le> is_fpu_owner ?c" "is_fpu_owner ?c \<noteq> int me" by linarith
  then show ?thesis
  proof cases
    case none
    then show ?thesis using ok same by (intro exI [of _ "affinity ?c"] exI [of _ s] exI [of _ "is_fpu_owner ?c"]) (simp add: get_cpubind_def)
  next
    case stay
    then show ?thesis using ok same assms(2)
      by (intro exI [of _ "int me"] exI [of _ s] exI [of _ "is_fpu_owner ?c"]) (auto simp: get_cpubind_def)
  next
    case release
    then show ?thesis using ok assms
      by (intro exI [of _ "affinity ?c"]
            exI [of _ "(upd_ctx s t (\<lambda>c. c\<lparr>is_fpu_owner := - 1\<rparr>))\<lparr>cpu_fpu_owner := (cpu_fpu_owner s)(me := None)\<rparr>"] exI [of _ "- 1"])
         (simp add: get_cpubind_def save_and_release_fpu_def BUG_ON_def upd_ctx_def)
  next
    case other
    then show ?thesis using ok same assms
      by (intro exI [of _ "affinity ?c"] exI [of _ s] exI [of _ "is_fpu_owner ?c"])
         (simp add: get_cpubind_def save_and_release_fpu_def BUG_ON_def)
  next
    case remote
    then show ?thesis using ok same
      by (intro exI [of _ "is_fpu_owner ?c"] exI [of _ s]) (simp add: get_cpubind_def)
  qed
qed

section \<open>Ready queues\<close>

definition pbq_ok :: "sched_state \<Rightarrow> pbrr_ready_queue \<Rightarrow> bool" where
  "pbq_ok s q \<longleftrightarrow>
     bitmap_ok (pb_bitmap q) \<and> prios (pb_bitmap q) = {p. pb_queues q p \<noteq> []} \<and>
     (\<forall>p. distinct (pb_queues q p)) \<and> (\<forall>p. PRIO_NUM \<le> p \<longrightarrow> pb_queues q p = []) \<and>
     (\<forall>p. \<forall>t \<in> set (pb_queues q p). map_option prio (sc (ctx s t)) = Some p)"

definition pb_ready :: "sched_state \<Rightarrow> nat \<Rightarrow> nat \<Rightarrow> bool" where
  "pb_ready s c t \<longleftrightarrow> c < ncpu s \<and> (\<exists>p. t \<in> set (pb_queues (pbrr_ready_queues s c) p))"

definition pb_inv :: "(nat \<Rightarrow> nat) \<Rightarrow> nat set \<Rightarrow> sched_state \<Rightarrow> bool" where
  "pb_inv K h s \<longleftrightarrow> sched_inv K (pb_ready s) True h s \<and> (\<forall>c < ncpu s. pbq_ok s (pbrr_ready_queues s c))"

lemma pbq_ok_queue:
  assumes "pbq_ok s q" "t \<in> set (pb_queues q p)"
  obtains x where "sc (ctx s t) = Some x" "prio x = p" "p < PRIO_NUM"
proof -
  have m: "map_option prio (sc (ctx s t)) = Some p" "pb_queues q p \<noteq> []" using assms by (auto simp: pbq_ok_def)
  then have "p < PRIO_NUM" using assms(1) by (auto simp: pbq_ok_def not_le [symmetric])
  then show ?thesis using m that by (auto simp: map_option_eq_Some)
qed

lemma pbq_ok_cong:
  assumes "pbq_ok s q" "\<And>t p. t \<in> set (pb_queues q p) \<Longrightarrow> map_option prio (sc (ctx s' t)) = map_option prio (sc (ctx s t))"
  shows "pbq_ok s' q"
  using assms unfolding pbq_ok_def by simp

lemma pbq_insert:
  assumes q: "pbq_ok s q" and bm: "prio_bitmap_set (pb_bitmap q) p = Some bm" and p: "p < PRIO_NUM"
    and t: "\<And>r. t \<notin> set (pb_queues q r)" "map_option prio (sc (ctx s t)) = Some p"
  shows "pbq_ok s \<lparr>pb_queues = (pb_queues q)(p := pb_queues q p @ [t]), pb_bitmap = bm\<rparr>"
proof -
  have "bitmap_ok (pb_bitmap q)" "p < 1024" using q p by (simp_all add: pbq_ok_def PRIO_NUM_def MAX_PRIO_def)
  then have "bitmap_ok bm" "prios bm = insert p (prios (pb_bitmap q))"
    using prio_bitmap_set_ok [of "pb_bitmap q" p] bm by auto
  then show ?thesis using q p t by (auto simp: pbq_ok_def)
qed

lemma pbq_remove:
  assumes q: "pbq_ok s q" and t: "t \<in> set (pb_queues q p)"
  shows "\<exists>bm. (if remove1 t (pb_queues q p) = [] then prio_bitmap_clear (pb_bitmap q) p else Some (pb_bitmap q)) = Some bm \<and>
           pbq_ok s \<lparr>pb_queues = (pb_queues q)(p := remove1 t (pb_queues q p)), pb_bitmap = bm\<rparr>"
proof -
  have p: "p < PRIO_NUM" by (rule pbq_ok_queue [OF q t])
  have b: "bitmap_ok (pb_bitmap q)" "p < 1024" using q p by (simp_all add: pbq_ok_def PRIO_NUM_def MAX_PRIO_def)
  have d: "\<And>r. distinct (pb_queues q r)" using q by (simp add: pbq_ok_def)
  show ?thesis
  proof (cases "remove1 t (pb_queues q p) = []")
    case True
    obtain bm where bm: "prio_bitmap_clear (pb_bitmap q) p = Some bm" "bitmap_ok bm" "prios bm = prios (pb_bitmap q) - {p}"
      using prio_bitmap_clear_ok [OF b] by blast
    have "pbq_ok s \<lparr>pb_queues = (pb_queues q)(p := []), pb_bitmap = bm\<rparr>" using q bm by (auto simp: pbq_ok_def)
    then show ?thesis using True bm(1) by simp
  next
    case False
    have "pbq_ok s \<lparr>pb_queues = (pb_queues q)(p := remove1 t (pb_queues q p)), pb_bitmap = pb_bitmap q\<rparr>"
      unfolding pbq_ok_def
    proof (intro conjI allI impI ballI)
      show "prios (pb_bitmap \<lparr>pb_queues = (pb_queues q)(p := remove1 t (pb_queues q p)), pb_bitmap = pb_bitmap q\<rparr>) =
          {r. pb_queues \<lparr>pb_queues = (pb_queues q)(p := remove1 t (pb_queues q p)), pb_bitmap = pb_bitmap q\<rparr> r \<noteq> []}"
        using q t False by (auto simp: pbq_ok_def)
      show "map_option prio (sc (ctx s u)) = Some r"
        if "u \<in> set (pb_queues \<lparr>pb_queues = (pb_queues q)(p := remove1 t (pb_queues q p)), pb_bitmap = pb_bitmap q\<rparr> r)" for r u
        using that q notin_set_remove1 by (force simp: pbq_ok_def split: if_splits)
    qed (use b(1) d p q in \<open>simp_all add: pbq_ok_def\<close>)
    then show ?thesis using False by simp
  qed
qed

text \<open>The count of a thread that is not idle and is referred to from outside the queues.\<close>

lemma idle_type:
  assumes "sched_inv K R q h s"
  shows "ctx_type (ctx s t) = TYPE_IDLE \<longleftrightarrow> t < ncpu s"
  using sched_invD(2) [OF assms, of t] sched_invD(3) [OF assms, of t] by (auto simp: idle_ok_def)

lemma held_refs:
  assumes I: "sched_inv K R q h s"
  shows "state (ctx s t) \<noteq> TS_READY \<Longrightarrow> t < ncpu s \<or> 0 < K t \<Longrightarrow> t < ncpu s \<or> thread_refs s t = Some (word_of_nat (K t))"
    "state (ctx s t) = TS_READY \<Longrightarrow> t < ncpu s \<or> 0 < K t \<and> thread_refs s t = Some (word_of_nat (K t + 1)) \<and> word_of_nat (K t + 1) \<noteq> (1 :: u64)"
proof -
  note r = sched_invD(8) [OF I, of t, unfolded refs_ok_def]
  show "state (ctx s t) \<noteq> TS_READY \<Longrightarrow> t < ncpu s \<or> 0 < K t \<Longrightarrow> t < ncpu s \<or> thread_refs s t = Some (word_of_nat (K t))"
    using r by auto
  assume rd: "state (ctx s t) = TS_READY"
  show "t < ncpu s \<or> 0 < K t \<and> thread_refs s t = Some (word_of_nat (K t + 1)) \<and> word_of_nat (K t + 1) \<noteq> (1 :: u64)"
  proof (cases "t < ncpu s")
    case False
    then have k: "0 < K t" "K t + 1 < 2 ^ 64" "thread_refs s t = Some (word_of_nat (K t + 1))" using r rd by auto
    have "unat (word_of_nat (K t + 1) :: u64) = K t + 1" by (rule unat_of_nat64 [OF k(2)])
    then have "unat (word_of_nat (K t + 1) :: u64) \<noteq> unat (1 :: u64)" using k(1) by simp
    then show ?thesis using k by metis
  qed simp
qed

text \<open>Dropping the reference of a queue does not free the thread.\<close>

lemma obj_put_held:
  assumes "thread_refs s t = Some (word_of_nat (n + 1))" "word_of_nat (n + 1) \<noteq> (1 :: u64)"
  shows "obj_put_thread s t = Some (s\<lparr>thread_refs := (thread_refs s)(t \<mapsto> word_of_nat n)\<rparr>)"
  using assms by (simp add: obj_put_thread_def)

lemma pbrr_enqueue_ok:
  assumes I: "pb_inv K h s" and me: "me < ncpu s"
    and t: "t \<in> h" "state (ctx s t) \<noteq> TS_READY" "exit_state (ctx s t) \<noteq> TE_EXITED" "sc (ctx s t) = Some x" "t < ncpu s \<or> 0 < K t"
  shows "\<exists>s'. pbrr_sched_enqueue s me t = Some (0, s') \<and> pb_inv K h s' \<and> ncpu s' = ncpu s \<and>
           current_threads s' = current_threads s \<and> (\<forall>u. u \<noteq> t \<longrightarrow> ctx s' u = ctx s u) \<and> state (ctx s' t) = TS_READY \<and>
           (t < ncpu s \<longrightarrow> idle_parked True s' t) \<and> sc (ctx s' t) = Some x"
proof -
  have S: "sched_inv K (pb_ready s) True h s" and Q: "\<And>c. c < ncpu s \<Longrightarrow> pbq_ok s (pbrr_ready_queues s c)"
    using I by (simp_all add: pb_inv_def)
  have p: "prio x < PRIO_NUM" using sched_invD(1) [OF S, of t] t(4) by (simp add: thread_ok_def)
  have "\<exists>b s1 own. get_cpubind s me t = Some (b, s1) \<and> (b = NO_AFF \<or> 0 \<le> b \<and> b < int (ncpu s)) \<and>
      (is_fpu_owner (ctx s t) < 0 \<longrightarrow> b = affinity (ctx s t)) \<and> own < int (ncpu s) \<and> (is_fpu_owner (ctx s t) < 0 \<longrightarrow> own < 0) \<and>
      ncpu s1 = ncpu s \<and> ctx s1 = (ctx s)(t := (ctx s t)\<lparr>is_fpu_owner := own\<rparr>) \<and> thread_refs s1 = thread_refs s \<and>
      current_threads s1 = current_threads s \<and> pbrr_ready_queues s1 = pbrr_ready_queues s \<and>
      rr_ready_queue_meta s1 = rr_ready_queue_meta s"
    by (rule get_cpubind_ok [OF sched_invD(1) [OF S] me t(3)])
  then obtain b s1 own where g: "get_cpubind s me t = Some (b, s1)" and b: "b = NO_AFF \<or> 0 \<le> b \<and> b < int (ncpu s)"
      and ba: "is_fpu_owner (ctx s t) < 0 \<longrightarrow> b = affinity (ctx s t)" and own: "own < int (ncpu s)" "is_fpu_owner (ctx s t) < 0 \<longrightarrow> own < 0"
      and s1: "ncpu s1 = ncpu s" "ctx s1 = (ctx s)(t := (ctx s t)\<lparr>is_fpu_owner := own\<rparr>)" "thread_refs s1 = thread_refs s"
        "current_threads s1 = current_threads s" "pbrr_ready_queues s1 = pbrr_ready_queues s"
    by blast
  define cpu where "cpu = (if b = NO_AFF then int me else b)"
  define c where "c = nat cpu"
  have c: "0 \<le> cpu" "cpu < int (ncpu s)" "c < ncpu s" using b me by (auto simp: cpu_def c_def)
  define q where "q = pbrr_ready_queues s c"
  have "bitmap_ok (pb_bitmap q)" "prio x < 1024" using Q [OF c(3)] p by (simp_all add: q_def pbq_ok_def PRIO_NUM_def MAX_PRIO_def)
  then obtain bm where bm: "prio_bitmap_set (pb_bitmap q) (prio x) = Some bm" using prio_bitmap_set_ok by blast
  define y where "y = (ctx s t)\<lparr>is_fpu_owner := own, cpuid := c, state := TS_READY\<rparr>"
  define q' where "q' = \<lparr>pb_queues = (pb_queues q)(prio x := pb_queues q (prio x) @ [t]), pb_bitmap = bm\<rparr>"
  define s2 where "s2 = upd_ctx s1 t (\<lambda>x. x\<lparr>cpuid := c, state := TS_READY\<rparr>)"
  have idle: "ctx_type (ctx s t) = TYPE_IDLE \<longleftrightarrow> t < ncpu s" by (rule idle_type [OF S])
  define s3 where "s3 = (if t < ncpu s then s2 else s2\<lparr>thread_refs := (thread_refs s2)(t \<mapsto> word_of_nat (K t + 1))\<rparr>)"
  have s3: "(if ctx_type (ctx s t) \<noteq> TYPE_IDLE then obj_ref_thread s2 t else Some s2) = Some s3"
    using held_refs(1) [OF S t(2,5)] s1(3) idle by (auto simp: s3_def obj_ref_thread_def s2_def upd_ctx_def add.commute)
  define s' where "s' = upd_pbrr s3 c q'"
  have q3: "pbrr_ready_queues s3 = pbrr_ready_queues s" by (simp add: s3_def s2_def upd_ctx_def s1(5))
  have g1: "BUG_ON (PRIO_NUM \<le> prio x) = Some ()" "(if 0 \<le> cpu \<and> cpu < int (ncpu s) then Some () else None) = Some ()"
    using p c by (simp_all add: BUG_ON_def)
  have e: "pbrr_sched_enqueue s me t = Some (0, s')"
    using t(2) by (simp only: pbrr_sched_enqueue_def Let_def t(4) if_False Option.bind_lunit g1 g prod.case cpu_def [symmetric]
        c_def [symmetric] s2_def [symmetric] s3 q3 q_def [symmetric] bm s'_def q'_def)
  have s': "ncpu s' = ncpu s" "ctx s' = (ctx s)(t := y)" "current_threads s' = current_threads s"
      "thread_refs s' = (if t < ncpu s then thread_refs s else (thread_refs s)(t \<mapsto> word_of_nat (K t + 1)))"
      "pbrr_ready_queues s' = (pbrr_ready_queues s)(c := q')"
    using s1 by (auto simp: s'_def s3_def s2_def y_def upd_pbrr_def upd_ctx_def)
  have nq: "\<not> pb_ready s d t" for d using sched_invD(5) [OF S, of d t] t(2) by blast
  have R': "pb_ready s' d u \<longleftrightarrow> pb_ready s d u \<or> d = c \<and> u = t" for d u
  proof -
    have "(\<exists>r. u \<in> set (pb_queues q' r)) \<longleftrightarrow> (\<exists>r. u \<in> set (pb_queues q r)) \<or> u = t"
      unfolding q'_def by (auto split: if_splits) (metis)+
    then show ?thesis using c(3) by (auto simp: pb_ready_def s' q_def)
  qed
  have tk: "thread_ok s' t"
    using sched_invD(1) [OF S, of t] t(4) own s'(1,2) by (simp add: thread_ok_def y_def)
  have ik: "idle_ok s' t" if "t < ncpu s"
    using sched_invD(2) [OF S that] own s'(2) by (simp add: idle_ok_def y_def)
  have S': "sched_inv K (pb_ready s') True h s'"
    by (rule sched_inv_enqueue [OF S s'(1-4) t(1,2) _ _ c(3) tk _ ik t(5) R']) (simp_all add: y_def)
  have "pbq_ok s' (pbrr_ready_queues s' d)" if d: "d < ncpu s'" for d
  proof (cases "d = c")
    case True
    have "pbq_ok s q'"
      unfolding q'_def by (rule pbq_insert [OF Q [OF c(3), folded q_def] bm p]) (use nq c(3) t(4) in \<open>auto simp: pb_ready_def q_def\<close>)
    then have "pbq_ok s' q'" by (rule pbq_ok_cong) (simp add: s'(2) y_def)
    then show ?thesis using True s'(5) by simp
  next
    case False
    have "pbq_ok s' (pbrr_ready_queues s d)" by (rule pbq_ok_cong [OF Q]) (use d s'(1,2) in \<open>simp_all add: y_def\<close>)
    then show ?thesis using False s'(5) by simp
  qed
  then have I': "pb_inv K h s'" using S' by (simp add: pb_inv_def)
  have "idle_parked True s' t" if l: "t < ncpu s"
  proof -
    have "b = int t" using sched_invD(2) [OF S l] ba by (simp add: idle_ok_def)
    then have "c = t" by (simp add: c_def cpu_def NO_AFF_def)
    then show ?thesis using s'(2) by (simp add: idle_parked_def y_def)
  qed
  then show ?thesis using e I' s' t(4) by (simp add: y_def)
qed

lemma pbrr_dequeue_ok:
  assumes I: "pb_inv K h s" and c: "c < ncpu s" and t: "t \<in> set (pb_queues (pbrr_ready_queues s c) p)"
  shows "\<exists>s'. pbrr_dequeue s t = Some s' \<and> pb_inv K (insert t h) s' \<and> ncpu s' = ncpu s \<and>
           current_threads s' = current_threads s \<and> ctx s' = (ctx s)(t := (ctx s t)\<lparr>state := TS_INTER\<rparr>) \<and> use_thread s' t = Some () \<and>
           (\<forall>d r. pb_queues (pbrr_ready_queues s' d) r =
              (if d = c \<and> r = p then remove1 t (pb_queues (pbrr_ready_queues s c) p) else pb_queues (pbrr_ready_queues s d) r))"
proof -
  have S: "sched_inv K (pb_ready s) True h s" and Q: "\<And>c. c < ncpu s \<Longrightarrow> pbq_ok s (pbrr_ready_queues s c)"
    using I by (simp_all add: pb_inv_def)
  have R: "pb_ready s c t" using c t by (auto simp: pb_ready_def)
  then have cpu: "cpuid (ctx s t) = c" using sched_invD(6) [OF S] by blast
  obtain x where x: "sc (ctx s t) = Some x" "prio x = p" by (rule pbq_ok_queue [OF Q [OF c] t])
  define q where "q = pbrr_ready_queues s c"
  obtain bm where bm: "(if remove1 t (pb_queues q p) = [] then prio_bitmap_clear (pb_bitmap q) p else Some (pb_bitmap q)) = Some bm"
      and Q': "pbq_ok s \<lparr>pb_queues = (pb_queues q)(p := remove1 t (pb_queues q p)), pb_bitmap = bm\<rparr>"
    using pbq_remove [OF Q [OF c] t] unfolding q_def by blast
  define q' where "q' = \<lparr>pb_queues = (pb_queues q)(p := remove1 t (pb_queues q p)), pb_bitmap = bm\<rparr>"
  define s2 where "s2 = upd_pbrr (upd_ctx s t (\<lambda>x. x\<lparr>state := TS_INTER\<rparr>)) c q'"
  have idle: "ctx_type (ctx s t) = TYPE_IDLE \<longleftrightarrow> t < ncpu s" by (rule idle_type [OF S])
  define s' where "s' = (if t < ncpu s then s2 else s2\<lparr>thread_refs := (thread_refs s2)(t \<mapsto> word_of_nat (K t))\<rparr>)"
  have f2: "thread_refs s2 = thread_refs s" by (simp add: s2_def upd_pbrr_def upd_ctx_def)
  have put: "(if ctx_type (ctx s t) \<noteq> TYPE_IDLE then obj_put_thread s2 t else Some s2) = Some s'"
  proof (cases "t < ncpu s")
    case False
    have "obj_put_thread s2 t = Some (s2\<lparr>thread_refs := (thread_refs s2)(t \<mapsto> word_of_nat (K t))\<rparr>)"
      by (rule obj_put_held) (use held_refs(2) [OF S sched_invD(5) [OF S R]] False f2 in auto)
    then show ?thesis using False idle by (simp add: s'_def)
  qed (simp add: s'_def idle)
  have e: "pbrr_dequeue s t = Some s'"
    unfolding pbrr_dequeue_def Let_def using x cpu t bm put
    by (auto simp: q_def [symmetric] q'_def s2_def split: if_splits)
  have s': "ncpu s' = ncpu s" "ctx s' = (ctx s)(t := (ctx s t)\<lparr>state := TS_INTER\<rparr>)" "current_threads s' = current_threads s"
      "thread_refs s' = (if t < ncpu s then thread_refs s else (thread_refs s)(t \<mapsto> word_of_nat (K t)))"
      "pbrr_ready_queues s' = (pbrr_ready_queues s)(c := q')"
    by (auto simp: s'_def s2_def upd_pbrr_def upd_ctx_def)
  have only: "u = t \<Longrightarrow> pb_ready s d u \<Longrightarrow> d = c" for d u using sched_invD(6) [OF S, of d u] cpu by simp
  have onlyp: "t \<in> set (pb_queues q r) \<Longrightarrow> r = p" for r
    using pbq_ok_queue [OF Q [OF c], of t r] x by (metis option.inject q_def)
  have d: "distinct (pb_queues q p)" using Q [OF c] by (simp add: pbq_ok_def q_def)
  have R': "pb_ready s' d u \<longleftrightarrow> pb_ready s d u \<and> u \<noteq> t" for d u
  proof (cases "d = c")
    case True
    have "(\<exists>r. u \<in> set (pb_queues q' r)) \<longleftrightarrow> (\<exists>r. u \<in> set (pb_queues q r)) \<and> u \<noteq> t"
      using onlyp d unfolding q'_def by (auto split: if_splits) (metis)+
    then show ?thesis using True s'(1,5) by (simp add: pb_ready_def q_def)
  next
    case False
    then show ?thesis using only [of u d] s'(1,5) by (auto simp: pb_ready_def)
  qed
  have S': "sched_inv K (pb_ready s') True (insert t h) s'" by (rule sched_inv_dequeue [OF S s'(1-4) R R'])
  have "pbq_ok s (pbrr_ready_queues s' d)" if "d < ncpu s'" for d
    using Q [of d] Q' that s'(1,5) by (simp add: q'_def)
  then have "pbq_ok s' (pbrr_ready_queues s' d)" if "d < ncpu s'" for d
    by (rule pbq_ok_cong) (simp_all add: s'(2) that)
  then have "pb_inv K (insert t h) s'" using S' by (simp add: pb_inv_def)
  moreover have "use_thread s' t = Some ()" using s'(2,4) idle by (simp add: use_thread_def)
  ultimately show ?thesis using e s' by (simp add: q'_def q_def)
qed

section \<open>Choosing a thread\<close>

text \<open>
  The best choice: no thread left in the queue has a higher priority, or the stacks of all threads of the
  highest priority are still in use and the idle thread runs.
\<close>

definition best_choice :: "sched_state \<Rightarrow> nat \<Rightarrow> nat \<Rightarrow> bool" where
  "best_choice s me t \<longleftrightarrow>
     (let Q = pb_queues (pbrr_ready_queues s me) in
      (\<exists>x. sc (ctx s t) = Some x \<and> (\<forall>r. Q r \<noteq> [] \<longrightarrow> r \<le> prio x)) \<or>
      t = idle_thread me \<and> (\<exists>r. Q r \<noteq> [] \<and> (\<forall>r'. Q r' \<noteq> [] \<longrightarrow> r' \<le> r) \<and> (\<forall>u \<in> set (Q r). kstack_state (ctx s u) = KS_LOCKED)))"

definition pb_chosen :: "(nat \<Rightarrow> nat) \<Rightarrow> sched_state \<Rightarrow> nat \<Rightarrow> nat \<Rightarrow> sched_state \<Rightarrow> bool" where
  "pb_chosen K s me t s' \<longleftrightarrow>
     ncpu s' = ncpu s \<and> current_threads s' = current_threads s \<and>
     (\<forall>u. state (ctx s u) \<noteq> TS_READY \<longrightarrow> ctx s' u = ctx s u) \<and>
     (if current_threads s me = Some t then current_runnable s me \<and> pb_inv K {} s'
      else pb_inv K {t} s' \<and> state (ctx s' t) = TS_INTER \<and> exit_state (ctx s' t) = TE_RUNNING \<and>
           (\<forall>c. current_threads s c \<noteq> Some t) \<and> (t < ncpu s \<longrightarrow> t = me)) \<and>
     sc (ctx s' t) \<noteq> None \<and> best_choice s' me t"

lemma find_Some_in: "find P xs = Some x \<Longrightarrow> x \<in> set xs \<and> P x"
  by (induction xs) (auto split: if_splits)

lemma queue_size_remove:
  assumes "p < PRIO_NUM" "t \<in> set (pb_queues (pbrr_ready_queues s c) p)"
    "\<And>r. pb_queues (pbrr_ready_queues s' c) r =
       (if r = p then remove1 t (pb_queues (pbrr_ready_queues s c) p) else pb_queues (pbrr_ready_queues s c) r)"
  shows "pbrr_queue_size s' c < pbrr_queue_size s c"
proof -
  let ?f = "\<lambda>s r. length (pb_queues (pbrr_ready_queues s c) r)"
  have "length (remove1 t (pb_queues (pbrr_ready_queues s c) p)) < length (pb_queues (pbrr_ready_queues s c) p)"
    using assms(2) length_pos_if_in_set [OF assms(2)] by (simp add: length_remove1)
  then have "sum (?f s') {0..<PRIO_NUM} < sum (?f s) {0..<PRIO_NUM}"
    by (intro sum_strict_mono_ex1) (use assms(1,3) in \<open>auto simp: length_remove1 intro!: bexI [of _ p]\<close>)
  then show ?thesis by (simp add: pbrr_queue_size_def interv_sum_list_conv_sum_set_nat)
qed

lemma current_state:
  assumes S: "sched_inv K R q {} s" and "current_runnable s me"
  obtains t x where "current_threads s me = Some t" "state (ctx s t) = TS_RUNNING" "sc (ctx s t) = Some x"
proof -
  obtain t where t: "current_threads s me = Some t" "state (ctx s t) = TS_RUNNING"
    using assms(2) by (auto simp: current_runnable_def split: option.splits)
  then obtain x where "sc (ctx s t) = Some x" using sched_invD(1) [OF S, of t] by (cases "sc (ctx s t)") (auto simp: thread_ok_def)
  then show ?thesis using that t by blast
qed

lemma idle_current:
  assumes S: "sched_inv K R True {} s" and me: "me < ncpu s" and c: "\<not> R me me \<or> current_threads s me = Some me"
  shows "current_threads s me = Some me" "current_runnable s me" "ctx_type (ctx s me) = TYPE_IDLE"
    "map_option prio (sc (ctx s me)) = Some IDLE_PRIO"
proof -
  have ik: "idle_ok s me" by (rule sched_invD(2) [OF S me])
  have "\<not> idle_parked True s me"
    using c sched_invD(7) [OF S, of me] sched_invD(10) [OF S, of me me] by (auto simp: idle_parked_def)
  then have r: "current_threads s me = Some me" "state (ctx s me) = TS_RUNNING" using sched_invD(13) [OF S me] by auto
  then show "current_threads s me = Some me" "current_runnable s me" "ctx_type (ctx s me) = TYPE_IDLE"
    "map_option prio (sc (ctx s me)) = Some IDLE_PRIO"
    using ik by (simp_all add: current_runnable_def idle_ok_def)
qed

lemma highest_queue:
  assumes q: "pbq_ok s q" and ne: "\<not> prio_bitmap_is_empty (pb_bitmap q)"
  obtains p where "get_highest_prio (pb_bitmap q) = Some p" "pb_queues q p \<noteq> []" "p < PRIO_NUM"
    "\<And>r. pb_queues q r \<noteq> [] \<Longrightarrow> r \<le> p"
proof -
  have b: "bitmap_ok (pb_bitmap q)" and ps: "prios (pb_bitmap q) = {p. pb_queues q p \<noteq> []}" using q by (simp_all add: pbq_ok_def)
  have n: "prios (pb_bitmap q) \<noteq> {}" using prio_bitmap_is_empty_iff [OF b] ne by simp
  have f: "finite (prios (pb_bitmap q))" by (simp add: prios_def)
  let ?p = "Max (prios (pb_bitmap q))"
  have in1: "pb_queues q ?p \<noteq> []" using Max_in [OF f n] ps by simp
  then have "?p < PRIO_NUM" using q by (auto simp: pbq_ok_def not_le [symmetric])
  then show ?thesis using that [OF get_highest_prio_Max [OF b n] in1] Max_ge [OF f] ps by blast
qed

lemma pb_queued:
  assumes I: "pb_inv K {} s" and me: "me < ncpu s" and t: "t \<in> set (pb_queues (pbrr_ready_queues s me) p)"
  shows "state (ctx s t) = TS_READY" "current_threads s c \<noteq> Some t" "t < ncpu s \<Longrightarrow> t = me"
proof -
  have S: "sched_inv K (pb_ready s) True {} s" using I by (simp add: pb_inv_def)
  have R: "pb_ready s me t" using me t by (auto simp: pb_ready_def)
  show st: "state (ctx s t) = TS_READY" by (rule sched_invD(5) [OF S R])
  show "current_threads s c \<noteq> Some t" for c using ready_not_current [OF S, of c t] st by auto
  show "t = me" if "t < ncpu s"
    using sched_invD(13) [OF S that] sched_invD(6) [OF S R] st by (auto simp: idle_parked_def)
qed

text \<open>A dequeued thread that is to exit is dropped, and the invariant holds again.\<close>

lemma pb_drop:
  assumes I: "pb_inv K {t} s" and t: "state (ctx s t) = TS_INTER" "\<And>c. current_threads s c \<noteq> Some t" "exit_state (ctx s t) \<noteq> TE_RUNNING"
  shows "pb_inv K {} (upd_ctx s t (\<lambda>x. x\<lparr>exit_state := TE_EXITED, state := TS_EXIT\<rparr>))" (is "pb_inv K {} ?s")
proof -
  have S: "sched_inv K (pb_ready s) True {t} s" and Q: "\<And>c. c < ncpu s \<Longrightarrow> pbq_ok s (pbrr_ready_queues s c)"
    using I by (simp_all add: pb_inv_def)
  have n: "\<not> t < ncpu s" using sched_invD(2) [OF S, of t] t(3) by (auto simp: idle_ok_def)
  have "thread_ok ?s t" using sched_invD(1) [OF S, of t] by (auto simp: thread_ok_def upd_ctx_def)
  then have "sched_inv K (pb_ready s) True {t} ?s"
    by (intro sched_inv_set [OF S, where t = t and x = "(ctx s t)\<lparr>exit_state := TE_EXITED, state := TS_EXIT\<rparr>"])
       (use t n in \<open>simp_all add: upd_ctx_def\<close>)
  then have "sched_inv K (pb_ready s) True {} ?s"
    by (rule sched_inv_release) (use t n in \<open>simp_all add: upd_ctx_def\<close>)
  moreover have "pb_ready ?s = pb_ready s" by (simp add: fun_eq_iff pb_ready_def upd_ctx_def)
  moreover have "pbq_ok ?s (pbrr_ready_queues ?s c)" if "c < ncpu ?s" for c
  proof -
    have "pbq_ok ?s (pbrr_ready_queues s c)" by (rule pbq_ok_cong [OF Q]) (use that in \<open>simp_all add: upd_ctx_def\<close>)
    then show ?thesis by (simp add: upd_ctx_def)
  qed
  ultimately show ?thesis by (simp add: pb_inv_def)
qed

lemma runnable_cong:
  assumes "current_threads s' me = current_threads s me" "\<And>t. current_threads s me = Some t \<Longrightarrow> ctx s' t = ctx s t"
  shows "current_runnable s' me = current_runnable s me"
  using assms by (simp add: current_runnable_def split: option.split)

lemma pb_keep:
  assumes I: "pb_inv K {} s" and r: "current_runnable s me" "current_threads s me = Some t" and b: "best_choice s me t"
  shows "pb_chosen K s me t s"
proof -
  have S: "sched_inv K (pb_ready s) True {} s" using I by (simp add: pb_inv_def)
  obtain u x where "current_threads s me = Some u" "sc (ctx s u) = Some x" by (rule current_state [OF S r(1)])
  then show ?thesis using assms by (simp add: pb_chosen_def)
qed

lemma pb_choose_step:
  assumes I: "pb_inv K {} s" and me: "me < ncpu s" and t: "t \<in> set (pb_queues (pbrr_ready_queues s me) p)"
    and best: "\<And>s1. pbrr_dequeue s t = Some s1 \<Longrightarrow> exit_state (ctx s t) = TE_RUNNING \<Longrightarrow> best_choice s1 me t"
    and IH: "\<And>s1. pb_inv K {} s1 \<Longrightarrow> me < ncpu s1 \<Longrightarrow> pbrr_queue_size s1 me < pbrr_queue_size s me \<Longrightarrow>
      current_runnable s1 me = current_runnable s me \<Longrightarrow> \<exists>u s2. loop s1 = Some (u, s2) \<and> pb_chosen K s1 me u s2"
  shows "\<exists>u s2. (do { s1 \<leftarrow> pbrr_dequeue s t;
            _ \<leftarrow> use_thread s1 t;
            if exit_state (ctx s1 t) = TE_EXITING \<or> exit_state (ctx s1 t) = TE_EXITED
            then loop (upd_ctx s1 t (\<lambda>x. x\<lparr>exit_state := TE_EXITED, state := TS_EXIT\<rparr>))
            else Some (t, s1) }) = Some (u, s2) \<and> pb_chosen K s me u s2"
proof -
  note qd = pb_queued [OF I me t]
  have Q: "pbq_ok s (pbrr_ready_queues s me)" using I me by (simp add: pb_inv_def)
  obtain x where x: "sc (ctx s t) = Some x" and p: "p < PRIO_NUM" by (rule pbq_ok_queue [OF Q t])
  obtain s1 where d: "pbrr_dequeue s t = Some s1" and s1: "pb_inv K {t} s1" "ncpu s1 = ncpu s" "current_threads s1 = current_threads s"
      "ctx s1 = (ctx s)(t := (ctx s t)\<lparr>state := TS_INTER\<rparr>)" and use: "use_thread s1 t = Some ()"
      and qs: "\<forall>d r. pb_queues (pbrr_ready_queues s1 d) r =
        (if d = me \<and> r = p then remove1 t (pb_queues (pbrr_ready_queues s me) p) else pb_queues (pbrr_ready_queues s d) r)"
    using pbrr_dequeue_ok [OF I me t] by blast
  show ?thesis
  proof (cases "exit_state (ctx s t) = TE_RUNNING")
    case True
    then have "pb_chosen K s me t s1" using s1 qd x best [OF d True] by (auto simp: pb_chosen_def)
    then show ?thesis using d use True s1(4) by simp
  next
    case False
    let ?s = "upd_ctx s1 t (\<lambda>x. x\<lparr>exit_state := TE_EXITED, state := TS_EXIT\<rparr>)"
    have I': "pb_inv K {} ?s" by (rule pb_drop [OF s1(1)]) (use s1 qd False in simp_all)
    have c: "ncpu ?s = ncpu s" "current_threads ?s = current_threads s" "pbrr_ready_queues ?s = pbrr_ready_queues s1"
      using s1 by (simp_all add: upd_ctx_def)
    have cx: "ctx ?s u = ctx s u" if "u \<noteq> t" for u using that s1(4) by (simp add: upd_ctx_def)
    have sz: "pbrr_queue_size ?s me < pbrr_queue_size s me" by (rule queue_size_remove [OF p t]) (simp add: c(3) qs)
    have cr: "current_runnable ?s me = current_runnable s me"
    proof (rule runnable_cong)
      show "ctx ?s u = ctx s u" if "current_threads s me = Some u" for u
        by (rule cx) (use qd(2) [of me] that in auto)
    qed (simp add: c(2))
    obtain u s2 where l: "loop ?s = Some (u, s2)" and ch: "pb_chosen K ?s me u s2" using IH [OF I' _ sz cr] me c(1) by auto
    note ch' = ch [unfolded pb_chosen_def c(1,2) cr]
    have "pb_chosen K s me u s2" unfolding pb_chosen_def
    proof (intro conjI)
      show "\<forall>v. state (ctx s v) \<noteq> TS_READY \<longrightarrow> ctx s2 v = ctx s v"
        using ch cx qd(1) unfolding pb_chosen_def by metis
    qed (use ch' in blast)+
    moreover have "exit_state (ctx s1 t) = TE_EXITING \<or> exit_state (ctx s1 t) = TE_EXITED"
      using False s1(4) by (cases "exit_state (ctx s t)") simp_all
    ultimately show ?thesis using d use l by simp
  qed
qed

lemma pb_best_found:
  assumes I: "pb_inv K {} s" and me: "me < ncpu s" and t: "t \<in> set (pb_queues (pbrr_ready_queues s me) p)"
    and mx: "\<And>r. pb_queues (pbrr_ready_queues s me) r \<noteq> [] \<Longrightarrow> r \<le> p" and d: "pbrr_dequeue s t = Some s1"
  shows "best_choice s1 me t"
proof -
  have Q: "pbq_ok s (pbrr_ready_queues s me)" using I me by (simp add: pb_inv_def)
  obtain x where x: "sc (ctx s t) = Some x" "prio x = p" by (rule pbq_ok_queue [OF Q t])
  have s1: "sc (ctx s1 t) = Some x" "\<And>r. pb_queues (pbrr_ready_queues s1 me) r \<noteq> [] \<Longrightarrow> pb_queues (pbrr_ready_queues s me) r \<noteq> []"
    using pbrr_dequeue_ok [OF I me t] d x by (auto split: if_splits)
  then have "\<forall>r. pb_queues (pbrr_ready_queues s1 me) r \<noteq> [] \<longrightarrow> r \<le> prio x" using mx x(2) by blast
  then show ?thesis using s1(1) by (simp add: best_choice_def)
qed

lemma pb_best_idle:
  assumes I: "pb_inv K {} s" and me: "me < ncpu s" and t: "me \<in> set (pb_queues (pbrr_ready_queues s me) r)"
    and p: "pb_queues (pbrr_ready_queues s me) p \<noteq> []" and mx: "\<And>r. pb_queues (pbrr_ready_queues s me) r \<noteq> [] \<Longrightarrow> r \<le> p"
    and lk: "\<forall>u \<in> set (pb_queues (pbrr_ready_queues s me) p). kstack_state (ctx s u) = KS_LOCKED"
    and d: "pbrr_dequeue s me = Some s1"
  shows "best_choice s1 me me"
proof (cases "r = p")
  case True
  then show ?thesis using pb_best_found [OF I me _ mx d] t by blast
next
  case False
  have s1: "ctx s1 = (ctx s)(me := (ctx s me)\<lparr>state := TS_INTER\<rparr>)"
    and q: "\<And>k. pb_queues (pbrr_ready_queues s1 me) k =
      (if k = r then remove1 me (pb_queues (pbrr_ready_queues s me) r) else pb_queues (pbrr_ready_queues s me) k)"
    using pbrr_dequeue_ok [OF I me t] d by auto
  have "pb_queues (pbrr_ready_queues s1 me) p \<noteq> []" using q [of p] p False by simp
  moreover have "\<forall>k. pb_queues (pbrr_ready_queues s1 me) k \<noteq> [] \<longrightarrow> k \<le> p"
  proof (intro allI impI)
    fix k assume "pb_queues (pbrr_ready_queues s1 me) k \<noteq> []"
    then have "pb_queues (pbrr_ready_queues s me) k \<noteq> []" using q [of k] by (auto split: if_splits)
    then show "k \<le> p" by (rule mx)
  qed
  moreover have "\<forall>u \<in> set (pb_queues (pbrr_ready_queues s1 me) p). kstack_state (ctx s1 u) = KS_LOCKED"
    using lk q [of p] False s1 by auto
  ultimately show ?thesis unfolding best_choice_def Let_def idle_thread_def by blast
qed

text \<open>One more round than there are queued threads is enough for the \<open>retry\<close> loop.\<close>

lemma pbrr_choose_loop_ok:
  "pb_inv K {} s \<Longrightarrow> me < ncpu s \<Longrightarrow> pbrr_queue_size s me < fuel \<Longrightarrow>
   \<exists>t s'. pbrr_choose_loop fuel s me (current_runnable s me) = Some (t, s') \<and> pb_chosen K s me t s'"
proof (induction fuel arbitrary: s)
  case (Suc fuel)
  note I = Suc.prems(1) and me = Suc.prems(2)
  define q where "q = pbrr_ready_queues s me"
  define ok where "ok = current_runnable s me"
  have S: "sched_inv K (pb_ready s) True {} s" and Q: "pbq_ok s q" using I me by (simp_all add: pb_inv_def q_def)
  show ?case
  proof (cases "prio_bitmap_is_empty (pb_bitmap q)")
    case True
    then have e: "pb_queues q p = []" for p using prio_bitmap_is_empty_iff [of "pb_bitmap q"] Q by (auto simp: pbq_ok_def)
    then have n: "\<not> pb_ready s me me" by (simp add: pb_ready_def q_def)
    note ic = idle_current [OF S me disjI1 [OF n]]
    have "best_choice s me me" using ic(4) e by (auto simp: best_choice_def q_def)
    then have "pb_chosen K s me me s" by (rule pb_keep [OF I ic(2,1)])
    then show ?thesis using True ic by (auto simp: BUG_ON_def q_def)
  next
    case False
    obtain p where p: "get_highest_prio (pb_bitmap q) = Some p" "pb_queues q p \<noteq> []" "p < PRIO_NUM"
        and mx: "\<And>r. pb_queues q r \<noteq> [] \<Longrightarrow> r \<le> p" using highest_queue [OF Q False] by blast
    define keep where "keep = (if ok then do { t \<leftarrow> current_threads s me; sctx \<leftarrow> sc (ctx s t);
        Some (p < prio sctx \<or> prio sctx = p \<and> 0 < budget sctx) } else Some False)"
    define found where "found = find_runnable_thread s me (pb_queues q p)"
    define rest where "rest t = (do { s1 \<leftarrow> pbrr_dequeue s t; _ \<leftarrow> use_thread s1 t;
        if exit_state (ctx s1 t) = TE_EXITING \<or> exit_state (ctx s1 t) = TE_EXITED
        then pbrr_choose_loop fuel (upd_ctx s1 t (\<lambda>x. x\<lparr>exit_state := TE_EXITED, state := TS_EXIT\<rparr>)) me ok
        else Some (t, s1) })" for t
    have loop: "pbrr_choose_loop (Suc fuel) s me ok =
        do { k \<leftarrow> keep;
             if k then do { t \<leftarrow> current_threads s me; Some (t, s) }
             else if found = None \<and> current_threads s me = Some (idle_thread me)
             then do { BUG_ON (\<not> ok); Some (idle_thread me, s) }
             else rest (case found of None \<Rightarrow> idle_thread me | Some t \<Rightarrow> t) }"
      by (simp only: pbrr_choose_loop.simps Let_def q_def [symmetric] False if_False p(1) Option.bind_lunit keep_def found_def rest_def)
    have IH: "\<exists>u s2. pbrr_choose_loop fuel s1 me ok = Some (u, s2) \<and> pb_chosen K s1 me u s2"
      if "pb_inv K {} s1" "me < ncpu s1" "pbrr_queue_size s1 me < pbrr_queue_size s me" "current_runnable s1 me = current_runnable s me" for s1
      using Suc.IH [OF that(1,2)] that(3,4) Suc.prems(3) by (simp add: ok_def)
    have rest: "\<exists>u s2. rest t = Some (u, s2) \<and> pb_chosen K s me u s2"
      if "t \<in> set (pb_queues q r)" "\<And>s1. pbrr_dequeue s t = Some s1 \<Longrightarrow> exit_state (ctx s t) = TE_RUNNING \<Longrightarrow> best_choice s1 me t" for t r
      unfolding rest_def by (rule pb_choose_step [OF I me that(1)[unfolded q_def] that(2) IH])
    consider (kept) t x where "ok" "current_threads s me = Some t" "sc (ctx s t) = Some x" "keep = Some True" "p \<le> prio x"
      | (other) "keep = Some False"
    proof (cases ok)
      case True
      obtain t x where tx: "current_threads s me = Some t" "sc (ctx s t) = Some x"
        by (rule current_state [OF S True [unfolded ok_def]])
      then have "keep = Some (p < prio x \<or> prio x = p \<and> 0 < budget x)" using True by (simp add: keep_def)
      then show ?thesis using that True tx by (cases "p < prio x \<or> prio x = p \<and> 0 < budget x") auto
    qed (use that(2) in \<open>simp add: keep_def\<close>)
    then have "\<exists>t s'. pbrr_choose_loop (Suc fuel) s me ok = Some (t, s') \<and> pb_chosen K s me t s'"
    proof cases
      case (kept t x)
      have "\<forall>r. pb_queues (pbrr_ready_queues s me) r \<noteq> [] \<longrightarrow> r \<le> prio x" using mx kept(5) unfolding q_def by (meson le_trans)
      then have "best_choice s me t" using kept(3) unfolding best_choice_def Let_def by blast
      then have "pb_chosen K s me t s" by (intro pb_keep [OF I]) (use kept in \<open>simp_all add: ok_def\<close>)
      then show ?thesis using loop kept by simp
    next
      case other
      show ?thesis
      proof (cases found)
        case (Some t)
        then have t: "t \<in> set (pb_queues q p)" unfolding found_def find_runnable_thread_def using find_Some_in by fast
        have "\<exists>u s2. rest t = Some (u, s2) \<and> pb_chosen K s me u s2"
          by (rule rest [OF t], rule pb_best_found [OF I me t [unfolded q_def] mx [unfolded q_def]])
        then show ?thesis using loop other Some by simp
      next
        case None
        then have lk: "\<forall>u \<in> set (pb_queues q p). kstack_state (ctx s u) = KS_LOCKED"
          unfolding found_def find_runnable_thread_def find_None_iff by (metis kernel_stack_state.exhaust)
        show ?thesis
        proof (cases "current_threads s me = Some me")
          case True
          note ic = idle_current [OF S me disjI2 [OF True]]
          have "best_choice s me me" using p(2) mx lk unfolding best_choice_def q_def idle_thread_def Let_def by blast
          then have "pb_chosen K s me me s" by (rule pb_keep [OF I ic(2,1)])
          then show ?thesis using loop other None True ic(2) by (simp add: idle_thread_def BUG_ON_def ok_def)
        next
          case ni: False
          then obtain r where r: "me \<in> set (pb_queues q r)"
            using idle_current(1) [OF S me] by (auto simp: pb_ready_def q_def)
          have "\<exists>u s2. rest me = Some (u, s2) \<and> pb_chosen K s me u s2"
            by (rule rest [OF r], rule pb_best_idle [OF I me r [unfolded q_def] p(2) [unfolded q_def] mx [unfolded q_def] lk [unfolded q_def]])
          then show ?thesis using loop other None ni by (simp add: idle_thread_def)
        qed
      qed
    qed
    then show ?thesis by (simp only: ok_def)
  qed
qed simp

section \<open>Scheduling\<close>

lemma pb_ready_cong:
  "ncpu s' = ncpu s \<Longrightarrow> pbrr_ready_queues s' = pbrr_ready_queues s \<Longrightarrow> pb_ready s' = pb_ready s"
  by (simp add: fun_eq_iff pb_ready_def)

lemma pb_inv_cong:
  assumes I: "pb_inv K h s" and S: "sched_inv K (pb_ready s) True h' s'"
    and e: "ncpu s' = ncpu s" "pbrr_ready_queues s' = pbrr_ready_queues s"
    and p: "\<And>t. state (ctx s t) = TS_READY \<Longrightarrow> map_option prio (sc (ctx s' t)) = map_option prio (sc (ctx s t))"
  shows "pb_inv K h' s'"
proof -
  have "pbq_ok s' (pbrr_ready_queues s c)" if c: "c < ncpu s" for c
  proof (rule pbq_ok_cong)
    show "pbq_ok s (pbrr_ready_queues s c)" using I c by (simp add: pb_inv_def)
    fix t r assume "t \<in> set (pb_queues (pbrr_ready_queues s c) r)"
    then have "pb_ready s c t" using c by (auto simp: pb_ready_def)
    then have "state (ctx s t) = TS_READY" using I sched_invD(5) unfolding pb_inv_def by blast
    then show "map_option prio (sc (ctx s' t)) = map_option prio (sc (ctx s t))" by (rule p)
  qed
  then show ?thesis using S e pb_ready_cong [OF e] by (simp add: pb_inv_def)
qed

lemma pb_inv_mono: "pb_inv K h s \<Longrightarrow> h \<subseteq> h' \<Longrightarrow> pb_inv K h' s"
  unfolding pb_inv_def using sched_inv_mono by blast

lemma pb_mark_exit:
  assumes "pb_inv K {} s"
  shows "pb_inv K {} (mark_exit s (current_threads s me))"
proof (rule pb_inv_cong [OF assms])
  show "sched_inv K (pb_ready s) True {} (mark_exit s (current_threads s me))"
    by (rule mark_exit_inv) (use assms in \<open>simp add: pb_inv_def\<close>)
qed simp_all

text \<open>The last part of \<open>pbrr_sched\<close>: the budget is refilled and the CPU switches.\<close>

lemma pbrr_finish:
  assumes I: "pb_inv K h s" and me: "me < ncpu s" and h: "h \<subseteq> insert t (set_option (current_threads s me))"
    and t: "state (ctx s t) \<noteq> TS_READY" "exit_state (ctx s t) \<noteq> TE_EXITED" "sc (ctx s t) \<noteq> None"
      "\<And>c. current_threads s c = Some t \<Longrightarrow> c = me" "t < ncpu s \<Longrightarrow> t = me" "t < ncpu s \<or> 0 < K t"
    and old: "\<And>u. current_threads s me = Some u \<Longrightarrow> u \<noteq> t \<Longrightarrow> state (ctx s u) \<noteq> TS_RUNNING \<and> (u < ncpu s \<longrightarrow> idle_parked True s u)"
  shows "\<exists>s'. (do { sctx \<leftarrow> sc (ctx s t);
            let s4 = (if budget sctx = 0 then upd_ctx s t (\<lambda>x. x\<lparr>sc := Some (sctx\<lparr>budget := DEFAULT_BUDGET\<rparr>)\<rparr>) else s);
            switch_to_thread s4 me t }) = Some s' \<and> pb_inv K {} s' \<and> ncpu s' = ncpu s \<and> current_threads s' me = Some t \<and>
          state (ctx s' t) = TS_RUNNING"
proof -
  obtain x where x: "sc (ctx s t) = Some x" using t(3) by auto
  define s4 where "s4 = (if budget x = 0 then upd_ctx s t (\<lambda>c. c\<lparr>sc := Some (x\<lparr>budget := DEFAULT_BUDGET\<rparr>)\<rparr>) else s)"
  have S: "sched_inv K (pb_ready s) True h s" using I by (simp add: pb_inv_def)
  have S4: "sched_inv K (pb_ready s) True h s4" using budget_inv [OF S x] S by (simp add: s4_def)
  have f: "ncpu s4 = ncpu s" "current_threads s4 = current_threads s" "state (ctx s4 u) = state (ctx s u)"
      "exit_state (ctx s4 u) = exit_state (ctx s u)" "idle_parked True s4 u = idle_parked True s u" "(sc (ctx s4 u) = None) = (sc (ctx s u) = None)"
      "pbrr_ready_queues s4 = pbrr_ready_queues s" "map_option prio (sc (ctx s4 u)) = map_option prio (sc (ctx s u))" for u
    using x by (auto simp: s4_def upd_ctx_def idle_parked_def)
  obtain s' where s': "switch_to_thread s4 me t = Some s'" "sched_inv K (pb_ready s) True {} s'" "current_threads s' me = Some t"
      "state (ctx s' t) = TS_RUNNING" "ncpu s' = ncpu s4" "\<forall>u. sc (ctx s' u) = sc (ctx s4 u)" "pbrr_ready_queues s' = pbrr_ready_queues s4"
    using switch_to_thread_ok [OF S4, of me t] me h t old unfolding f by blast
  have "pb_inv K {} s'" by (rule pb_inv_cong [OF I s'(2)]) (use s'(5,6,7) f in simp_all)
  then show ?thesis using x s' f(1) by (simp add: s4_def Let_def)
qed

lemma pbrr_sched_ok:
  assumes I: "pb_inv K {} s" and me: "me < ncpu s"
  shows "\<exists>s' t. pbrr_sched s me = Some s' \<and> pb_inv K {} s' \<and> ncpu s' = ncpu s \<and> current_threads s' me = Some t \<and>
           state (ctx s' t) = TS_RUNNING"
proof -
  define s1 where "s1 = mark_exit s (current_threads s me)"
  have I1: "pb_inv K {} s1" unfolding s1_def by (rule pb_mark_exit [OF I])
  then have S1: "sched_inv K (pb_ready s1) True {} s1" by (simp add: pb_inv_def)
  have c1: "current_threads s1 = current_threads s" "ncpu s1 = ncpu s" by (simp_all add: s1_def)
  obtain t s2 where ch: "pbrr_sched_choose_thread s1 me = Some (t, s2)" and C: "pb_chosen K s1 me t s2"
    using pbrr_choose_loop_ok [OF I1, of me "pbrr_queue_size s1 me + 1"] me c1 by (auto simp: pbrr_sched_choose_thread_def)
  have f2: "ncpu s2 = ncpu s" "current_threads s2 = current_threads s" "sc (ctx s2 t) \<noteq> None"
      and same: "\<And>u. state (ctx s1 u) \<noteq> TS_READY \<Longrightarrow> ctx s2 u = ctx s1 u"
    using C c1 by (auto simp: pb_chosen_def)
  have cur: "ctx s2 u = ctx s1 u" "state (ctx s1 u) \<noteq> TS_READY" if "current_threads s me = Some u" for u
    using same ready_not_current [OF S1, of me u] that c1 by auto
  show ?thesis
  proof (cases "current_threads s me = Some t")
    case True
    then have I2: "pb_inv K {} s2" and run: "current_runnable s1 me" using C c1 by (simp_all add: pb_chosen_def)
    have S2: "sched_inv K (pb_ready s2) True {} s2" using I2 by (simp add: pb_inv_def)
    have st: "state (ctx s2 t) = TS_RUNNING" using run True c1 cur by (simp add: current_runnable_def)
    have ex: "exit_state (ctx s2 t) \<noteq> TE_EXITED" using sched_invD(1) [OF S2, of t] st by (simp add: thread_ok_def)
    have own: "\<And>c. current_threads s2 c = Some t \<Longrightarrow> c = me" using sched_invD(11) [OF S2, of _ t me] True f2(2) by auto
    have idl: "t < ncpu s2 \<Longrightarrow> t = me" using idle_current_cpu(1) [OF S2] True f2(2) by simp
    have "\<exists>s'. (do { sctx \<leftarrow> sc (ctx s2 t);
            let s4 = (if budget sctx = 0 then upd_ctx s2 t (\<lambda>x. x\<lparr>sc := Some (sctx\<lparr>budget := DEFAULT_BUDGET\<rparr>)\<rparr>) else s2);
            switch_to_thread s4 me t }) = Some s' \<and> pb_inv K {} s' \<and> ncpu s' = ncpu s2 \<and> current_threads s' me = Some t \<and>
          state (ctx s' t) = TS_RUNNING"
      by (rule pbrr_finish [OF I2 _ _ _ ex f2(3) own idl runnable_held [OF S2]]) (use me f2 st True in simp_all)
    then show ?thesis using ch True f2(1) unfolding pbrr_sched_def Let_def s1_def [symmetric] by auto
  next
    case False
    then have I2: "pb_inv K {t} s2" and t: "state (ctx s2 t) = TS_INTER" "exit_state (ctx s2 t) = TE_RUNNING"
        "\<And>c. current_threads s c \<noteq> Some t" "t < ncpu s \<Longrightarrow> t = me"
      using C c1 by (simp_all add: pb_chosen_def)
    have fin: ?thesis
      if "(case current_threads s me of None \<Rightarrow> Some s2
             | Some u \<Rightarrow> if state (ctx s2 u) = TS_RUNNING \<and> t \<noteq> u
                 then do { (r, s3) \<leftarrow> pbrr_sched_enqueue s2 me u; BUG_ON (r \<noteq> 0); Some s3 } else Some s2) = Some s3"
        "pb_inv K h s3" "h \<subseteq> insert t (set_option (current_threads s me))" "ncpu s3 = ncpu s" "current_threads s3 = current_threads s"
        "ctx s3 t = ctx s2 t"
        "\<And>u. current_threads s me = Some u \<Longrightarrow> state (ctx s3 u) \<noteq> TS_RUNNING \<and> (u < ncpu s \<longrightarrow> idle_parked True s3 u)" for s3 h
    proof -
      have k: "t < ncpu s3 \<or> 0 < K t"
        by (rule runnable_held [where s = s3 and R = "pb_ready s3" and q = True and h = h]) (use that(2,6) t(1) in \<open>simp_all add: pb_inv_def\<close>)
      have "\<exists>s'. (do { sctx \<leftarrow> sc (ctx s3 t);
            let s4 = (if budget sctx = 0 then upd_ctx s3 t (\<lambda>x. x\<lparr>sc := Some (sctx\<lparr>budget := DEFAULT_BUDGET\<rparr>)\<rparr>) else s3);
            switch_to_thread s4 me t }) = Some s' \<and> pb_inv K {} s' \<and> ncpu s' = ncpu s3 \<and> current_threads s' me = Some t \<and>
          state (ctx s' t) = TS_RUNNING"
        by (rule pbrr_finish [OF that(2) _ _ _ _ _ _ _ k]) (use that t me f2(3) in simp_all)
      then show ?thesis using that(1,4) ch unfolding pbrr_sched_def Let_def s1_def [symmetric] by auto
    qed
    show ?thesis
    proof (cases "current_threads s me")
      case None
      then show ?thesis by (intro fin [where h = "{t}" and ?s3.0 = s2]) (use I2 f2 in simp_all)
    next
      case (Some u)
      have ut: "u \<noteq> t" using False Some by auto
      show ?thesis
      proof (cases "state (ctx s2 u) = TS_RUNNING")
        case True
        have S2: "sched_inv K (pb_ready s2) True {t} s2" using I2 by (simp add: pb_inv_def)
        obtain x where x: "sc (ctx s2 u) = Some x" "exit_state (ctx s2 u) \<noteq> TE_EXITED"
          using sched_invD(1) [OF S2, of u] True by (cases "sc (ctx s2 u)") (auto simp: thread_ok_def)
        obtain s3 where s3: "pbrr_sched_enqueue s2 me u = Some (0, s3)" "pb_inv K {t, u} s3" "ncpu s3 = ncpu s2"
            "current_threads s3 = current_threads s2" "\<forall>v. v \<noteq> u \<longrightarrow> ctx s3 v = ctx s2 v" "state (ctx s3 u) = TS_READY"
            "u < ncpu s2 \<longrightarrow> idle_parked True s3 u"
          using pbrr_enqueue_ok [OF pb_inv_mono [OF I2, of "{t, u}"] _ _ _ x(2,1) runnable_held [OF S2], of me] me f2(1) True by auto
        show ?thesis
          by (rule fin [where h = "{t, u}" and ?s3.0 = s3]) (use Some True ut s3 f2 in \<open>simp_all add: BUG_ON_def\<close>)
      next
        case nr: False
        have nl: "\<not> u < ncpu s" using idle_current_cpu(2) [OF S1, of me u] Some c1 nr cur(1) by auto
        show ?thesis by (rule fin [where h = "{t}" and ?s3.0 = s2]) (use Some nr nl I2 f2 in simp_all)
      qed
    qed
  qed
qed

end
