(* ===== verification/Sched_Rr.thy ===== *)
theory Sched_Rr
  imports Sched_Pbrr
begin

text \<open>
  Correctness of the round-robin policy: the queues, their length counters and the references stay consistent, the
  load balancer names an existing CPU, the \<open>again\<close> loop ends, and \<open>rr_sched\<close> runs into no \<open>BUG_ON\<close> from a state that satisfies
  the invariant. Idle threads are never queued.
\<close>

definition rr_ready :: "sched_state \<Rightarrow> nat \<Rightarrow> nat \<Rightarrow> bool" where
  "rr_ready s c t \<longleftrightarrow> c < ncpu s \<and> t \<in> set (queue_list (rr_ready_queue_meta s c))"

definition rrq_ok :: "queue_meta \<Rightarrow> bool" where
  "rrq_ok q \<longleftrightarrow> distinct (queue_list q) \<and> queue_len q = word_of_nat (length (queue_list q))"

definition rr_inv :: "(nat \<Rightarrow> nat) \<Rightarrow> nat set \<Rightarrow> sched_state \<Rightarrow> bool" where
  "rr_inv K h s \<longleftrightarrow> sched_inv K (rr_ready s) False h s \<and> (\<forall>c < ncpu s. rrq_ok (rr_ready_queue_meta s c)) \<and>
     (\<forall>i < ncpu s. state (ctx s i) \<noteq> TS_READY) \<and> ncpu s < 2 ^ 32"

lemma rr_invD:
  assumes "rr_inv K h s"
  shows "sched_inv K (rr_ready s) False h s" "c < ncpu s \<Longrightarrow> rrq_ok (rr_ready_queue_meta s c)"
    "i < ncpu s \<Longrightarrow> state (ctx s i) \<noteq> TS_READY" "ncpu s < 2 ^ 32"
  using assms by (simp_all add: rr_inv_def)

lemma rr_inv_cong:
  assumes I: "rr_inv K h s" and S: "sched_inv K (rr_ready s) False h' s'"
    and e: "ncpu s' = ncpu s" "rr_ready_queue_meta s' = rr_ready_queue_meta s" "\<And>i. i < ncpu s \<Longrightarrow> state (ctx s' i) \<noteq> TS_READY"
  shows "rr_inv K h' s'"
proof -
  have "rr_ready s' = rr_ready s" using e by (simp add: fun_eq_iff rr_ready_def)
  then show ?thesis using S e rr_invD [OF I] by (simp add: rr_inv_def)
qed

lemma rr_inv_mono: "rr_inv K h s \<Longrightarrow> h \<subseteq> h' \<Longrightarrow> rr_inv K h' s"
  unfolding rr_inv_def using sched_inv_mono by blast

lemma shortest_queue_cpu: "c < n \<Longrightarrow> \<forall>i \<in> set is. i < n \<Longrightarrow> shortest_queue s me is c l < n"
  by (induction "is" arbitrary: c l) (auto simp: Let_def)

lemma rr_sched_choose_cpu_ok: "me < ncpu s \<Longrightarrow> rr_sched_choose_cpu s me < ncpu s"
  by (simp add: rr_sched_choose_cpu_def Let_def shortest_queue_cpu)

section \<open>Queue operations\<close>

lemma rr_enqueue_ok:
  assumes I: "rr_inv K h s" and c: "c < ncpu s" and t: "t \<in> h" "state (ctx s t) \<noteq> TS_READY" "sc (ctx s t) \<noteq> None" "\<not> t < ncpu s" "0 < K t"
  shows "\<exists>s'. rr_enqueue s t c = Some (0, s') \<and> rr_inv K h s' \<and> ncpu s' = ncpu s \<and> current_threads s' = current_threads s \<and>
           (\<forall>u. u \<noteq> t \<longrightarrow> ctx s' u = ctx s u) \<and> ctx s' t = (ctx s t)\<lparr>cpuid := c, state := TS_READY\<rparr>"
proof -
  note S = rr_invD(1) [OF I]
  define q where "q = rr_ready_queue_meta s c"
  define q' where "q' = \<lparr>queue_list = queue_list q @ [t], queue_len = queue_len q + 1\<rparr>"
  define s1 where "s1 = upd_ctx s t (\<lambda>x. x\<lparr>cpuid := c, state := TS_READY\<rparr>)"
  define s' where "s' = upd_rr (s1\<lparr>thread_refs := (thread_refs s)(t \<mapsto> word_of_nat (K t + 1))\<rparr>) c q'"
  have "thread_refs s t = Some (word_of_nat (K t))" using held_refs(1) [OF S t(2)] t(4,5) by simp
  then have "obj_ref_thread s1 t = Some (s1\<lparr>thread_refs := (thread_refs s)(t \<mapsto> word_of_nat (K t + 1))\<rparr>)"
    by (simp add: obj_ref_thread_def s1_def upd_ctx_def add.commute)
  then have e: "rr_enqueue s t c = Some (0, s')"
    using t(2) by (simp add: rr_enqueue_def s1_def [symmetric] s'_def q'_def q_def Let_def)
  have s': "ncpu s' = ncpu s" "ctx s' = (ctx s)(t := (ctx s t)\<lparr>cpuid := c, state := TS_READY\<rparr>)" "current_threads s' = current_threads s"
      "thread_refs s' = (if t < ncpu s then thread_refs s else (thread_refs s)(t \<mapsto> word_of_nat (K t + 1)))"
      "rr_ready_queue_meta s' = (rr_ready_queue_meta s)(c := q')"
    using t(4) by (simp_all add: s'_def s1_def upd_rr_def upd_ctx_def)
  have nq: "\<not> rr_ready s d t" for d using sched_invD(5) [OF S, of d t] t(2) by blast
  have R': "rr_ready s' d u \<longleftrightarrow> rr_ready s d u \<or> d = c \<and> u = t" for d u
    using c by (auto simp: rr_ready_def s' q'_def q_def)
  have tk: "thread_ok s' t" using sched_invD(1) [OF S, of t] t(3) s'(1,2) by (simp add: thread_ok_def)
  have S': "sched_inv K (rr_ready s') False h s'"
    by (rule sched_inv_enqueue [OF S s'(1-4) t(1,2) _ _ c tk _ _ _ R']) (use t(4,5) in simp_all)
  have "rrq_ok q'" using rr_invD(2) [OF I c] nq [of c] c by (simp add: rrq_ok_def q'_def q_def rr_ready_def)
  then have "rr_inv K h s'" using S' rr_invD(2-4) [OF I] s' t(4) by (simp add: rr_inv_def)
  then show ?thesis using e s' by simp
qed

lemma rr_sched_enqueue_ok:
  assumes I: "rr_inv K h s" and me: "me < ncpu s"
    and t: "t \<in> h" "state (ctx s t) \<noteq> TS_READY" "exit_state (ctx s t) \<noteq> TE_EXITED" "sc (ctx s t) \<noteq> None"
      "t < ncpu s \<or> 0 < K t"
  shows "\<exists>s'. rr_sched_enqueue s me t = Some (0, s') \<and> rr_inv K h s' \<and> ncpu s' = ncpu s \<and> current_threads s' = current_threads s \<and>
           (\<forall>u. u \<noteq> t \<longrightarrow> ctx s' u = ctx s u) \<and> (if t < ncpu s then s' = s else state (ctx s' t) = TS_READY) \<and>
           exit_state (ctx s' t) = exit_state (ctx s t)"
proof (cases "t < ncpu s")
  case True
  then have "ctx_type (ctx s t) = TYPE_IDLE" using sched_invD(2) [OF rr_invD(1) [OF I]] by (simp add: idle_ok_def)
  then show ?thesis using I True by (simp add: rr_sched_enqueue_def)
next
  case False
  note S = rr_invD(1) [OF I]
  obtain x where x: "sc (ctx s t) = Some x" "prio x < PRIO_NUM" using sched_invD(1) [OF S, of t] t(4) by (auto simp: thread_ok_def)
  have ty: "ctx_type (ctx s t) \<noteq> TYPE_IDLE" using sched_invD(3) [OF S, of t] False by blast
  obtain b s1 own where g: "get_cpubind s me t = Some (b, s1)" and b: "b = NO_AFF \<or> 0 \<le> b \<and> b < int (ncpu s)"
      and own: "own < int (ncpu s)"
      and s1: "ncpu s1 = ncpu s" "ctx s1 = (ctx s)(t := (ctx s t)\<lparr>is_fpu_owner := own\<rparr>)" "thread_refs s1 = thread_refs s"
        "current_threads s1 = current_threads s" "rr_ready_queue_meta s1 = rr_ready_queue_meta s"
    using get_cpubind_ok [OF sched_invD(1) [OF S] me t(3)] by blast
  have tk: "thread_ok s1 t" using sched_invD(1) [OF S, of t] own s1(1,2) by (simp add: thread_ok_def)
  have "sched_inv K (rr_ready s) False h s1"
    by (rule sched_inv_same [OF S s1(1-4) _ _ _ tk]) (use False in simp_all)
  then have I1: "rr_inv K h s1" by (rule rr_inv_cong [OF I]) (use s1 rr_invD(3) [OF I] in simp_all)
  define c where "c = unat (if b = NO_AFF then word_of_nat (rr_sched_choose_cpu s1 me) else word_of_int b :: u32)"
  have c: "c < ncpu s"
  proof (cases "b = NO_AFF")
    case True
    then show ?thesis using rr_sched_choose_cpu_ok [of me s1] me s1(1) rr_invD(4) [OF I]
      by (simp add: c_def unsigned_of_nat take_bit_nat_eq_self)
  next
    case nb: False
    then have "b = int (nat b)" "nat b < ncpu s" using b by auto
    moreover have "(word_of_int (int (nat b)) :: u32) = word_of_nat (nat b)" by (rule of_int_of_nat_eq)
    ultimately have "(word_of_int b :: u32) = word_of_nat (nat b)" "nat b < 2 ^ 32" "nat b < ncpu s"
      using rr_invD(4) [OF I] by simp_all
    then show ?thesis using nb by (simp add: c_def unsigned_of_nat take_bit_nat_eq_self)
  qed
  obtain s' where s': "rr_enqueue s1 t c = Some (0, s')" "rr_inv K h s'" "ncpu s' = ncpu s1" "current_threads s' = current_threads s1"
      "\<forall>u. u \<noteq> t \<longrightarrow> ctx s' u = ctx s1 u" "ctx s' t = (ctx s1 t)\<lparr>cpuid := c, state := TS_READY\<rparr>"
    using rr_enqueue_ok [OF I1, of c t] c t False s1 by auto
  have "rr_sched_enqueue s me t = Some (0, s')"
    using ty g x c s1(2) s'(1) by (simp add: rr_sched_enqueue_def Let_def c_def [symmetric] PRIO_NUM_def)
  then show ?thesis using s' s1 False by simp
qed

lemma rr_dequeue_ok:
  assumes I: "rr_inv K h s" and c: "c < ncpu s" and t: "t \<in> set (queue_list (rr_ready_queue_meta s c))"
  shows "\<exists>s'. rr_dequeue s t = Some (0, s') \<and> rr_inv K (insert t h) s' \<and> ncpu s' = ncpu s \<and> current_threads s' = current_threads s \<and>
           ctx s' = (ctx s)(t := (ctx s t)\<lparr>state := TS_INTER\<rparr>) \<and> use_thread s' t = Some () \<and>
           queue_list (rr_ready_queue_meta s' c) = remove1 t (queue_list (rr_ready_queue_meta s c)) \<and> \<not> t < ncpu s \<and> sc (ctx s t) \<noteq> None"
proof -
  note S = rr_invD(1) [OF I]
  have R: "rr_ready s c t" using c t by (simp add: rr_ready_def)
  have rd: "state (ctx s t) = TS_READY" "cpuid (ctx s t) = c" using sched_invD(5,6) [OF S R] by simp_all
  have nl: "\<not> t < ncpu s" using rr_invD(3) [OF I] rd(1) by blast
  have sc: "sc (ctx s t) \<noteq> None" using sched_invD(1) [OF S, of t] rd(1) by (auto simp: thread_ok_def)
  define q where "q = rr_ready_queue_meta s c"
  define q' where "q' = \<lparr>queue_list = remove1 t (queue_list q), queue_len = queue_len q - 1\<rparr>"
  define s2 where "s2 = upd_ctx (upd_rr s c q') t (\<lambda>x. x\<lparr>state := TS_INTER\<rparr>)"
  define s' where "s' = s2\<lparr>thread_refs := (thread_refs s2)(t \<mapsto> word_of_nat (K t))\<rparr>"
  have "obj_put_thread s2 t = Some s'" unfolding s'_def
    by (rule obj_put_held) (use held_refs(2) [OF S rd(1)] nl in \<open>auto simp: s2_def upd_rr_def upd_ctx_def\<close>)
  then have e: "rr_dequeue s t = Some (0, s')" using rd t by (simp add: rr_dequeue_def s2_def q'_def q_def Let_def)
  have s': "ncpu s' = ncpu s" "ctx s' = (ctx s)(t := (ctx s t)\<lparr>state := TS_INTER\<rparr>)" "current_threads s' = current_threads s"
      "thread_refs s' = (if t < ncpu s then thread_refs s else (thread_refs s)(t \<mapsto> word_of_nat (K t)))"
      "rr_ready_queue_meta s' = (rr_ready_queue_meta s)(c := q')"
    using nl by (simp_all add: s'_def s2_def upd_rr_def upd_ctx_def)
  have Q: "distinct (queue_list q)" "queue_len q = word_of_nat (length (queue_list q))"
    using rr_invD(2) [OF I c] by (simp_all add: rrq_ok_def q_def)
  have only: "rr_ready s d t \<Longrightarrow> d = c" for d using sched_invD(6) [OF S, of d t] rd(2) by simp
  have R': "rr_ready s' d u \<longleftrightarrow> rr_ready s d u \<and> u \<noteq> t" for d u
    using only [of d] Q(1) s'(1,5) by (cases "d = c") (auto simp: rr_ready_def q'_def q_def)
  have S': "sched_inv K (rr_ready s') False (insert t h) s'" by (rule sched_inv_dequeue [OF S s'(1-4) R R'])
  have "length (queue_list q) = Suc (length (remove1 t (queue_list q)))"
    using t length_pos_if_in_set [OF t] by (simp add: q_def length_remove1)
  then have "rrq_ok q'" using Q by (simp add: rrq_ok_def q'_def)
  then have "rr_inv K (insert t h) s'" using S' rr_invD(2-4) [OF I] s' by (simp add: rr_inv_def)
  moreover have "use_thread s' t = Some ()" using s'(4) nl by (simp add: use_thread_def)
  ultimately show ?thesis using e s' nl sc by (simp add: q'_def q_def)
qed

section \<open>Choosing a thread\<close>

text \<open>
  The outcome of the loop: the idle thread with nothing changed for it, or a thread taken from the queue that is not
  about to exit. Threads that were not queued are untouched.
\<close>

definition rr_chosen :: "(nat \<Rightarrow> nat) \<Rightarrow> nat set \<Rightarrow> sched_state \<Rightarrow> nat \<Rightarrow> nat \<Rightarrow> sched_state \<Rightarrow> bool" where
  "rr_chosen K h s me t s' \<longleftrightarrow>
     ncpu s' = ncpu s \<and> current_threads s' = current_threads s \<and> rr_inv K (insert t h) s' \<and>
     (\<forall>u. state (ctx s u) \<noteq> TS_READY \<longrightarrow> ctx s' u = ctx s u) \<and>
     (\<forall>u. state (ctx s' u) = TS_RUNNING \<longrightarrow> state (ctx s u) = TS_RUNNING) \<and>
     (t = idle_thread me \<and> ctx s' t = ctx s t \<or>
      \<not> t < ncpu s \<and> state (ctx s t) = TS_READY \<and> state (ctx s' t) = TS_INTER \<and> exit_state (ctx s' t) = TE_RUNNING \<and> sc (ctx s' t) \<noteq> None)"

lemma rr_drop:
  assumes I: "rr_inv K (insert t h) s" and t: "state (ctx s t) = TS_INTER" "\<not> t < ncpu s" "t \<in> h \<or> (\<forall>c. current_threads s c \<noteq> Some t)"
  shows "rr_inv K h (upd_ctx s t (\<lambda>x. x\<lparr>state := TS_EXIT, exit_state := TE_EXITED\<rparr>))" (is "rr_inv K h ?s")
proof -
  note S = rr_invD(1) [OF I]
  have tk: "thread_ok ?s t" using sched_invD(1) [OF S, of t] by (auto simp: thread_ok_def upd_ctx_def)
  have S1: "sched_inv K (rr_ready s) False (insert t h) ?s"
    by (rule sched_inv_set [OF S, where t = t and x = "(ctx s t)\<lparr>state := TS_EXIT, exit_state := TE_EXITED\<rparr>"])
       (use t tk in \<open>simp_all add: upd_ctx_def\<close>)
  have "sched_inv K (rr_ready s) False h ?s"
    by (rule sched_inv_release [OF S1]) (use t in \<open>simp_all add: upd_ctx_def\<close>)
  then show ?thesis by (rule rr_inv_cong [OF I]) (use t rr_invD(3) [OF I] in \<open>auto simp: upd_ctx_def\<close>)
qed

lemma rr_choose_loop_ok:
  "rr_inv K h s \<Longrightarrow> me < ncpu s \<Longrightarrow> h \<subseteq> set_option (current_threads s me) \<Longrightarrow> length (queue_list (rr_ready_queue_meta s me)) < fuel \<Longrightarrow>
   \<exists>t s'. rr_choose_loop fuel s me = Some (t, s') \<and> rr_chosen K h s me t s'"
proof (induction fuel arbitrary: s)
  case (Suc fuel)
  note I = Suc.prems(1) and me = Suc.prems(2)
  define l where "l = queue_list (rr_ready_queue_meta s me)"
  have idle: "rr_chosen K h s me (idle_thread me) s" using rr_inv_mono [OF I] by (auto simp: rr_chosen_def)
  show ?case
  proof (cases "find_runnable_thread s me l")
    case None
    then have "rr_choose_loop (Suc fuel) s me = Some (idle_thread me, s)" by (simp add: l_def Let_def)
    then show ?thesis using idle by blast
  next
    case (Some t)
    then have t: "t \<in> set l" unfolding find_runnable_thread_def using find_Some_in by fast
    obtain s1 where d: "rr_dequeue s t = Some (0, s1)" and s1: "rr_inv K (insert t h) s1" "ncpu s1 = ncpu s"
        "current_threads s1 = current_threads s" "ctx s1 = (ctx s)(t := (ctx s t)\<lparr>state := TS_INTER\<rparr>)"
        "queue_list (rr_ready_queue_meta s1 me) = remove1 t l" "\<not> t < ncpu s" "sc (ctx s t) \<noteq> None" "use_thread s1 t = Some ()"
      using rr_dequeue_ok [OF I me t [unfolded l_def]] unfolding l_def by blast
    have R: "rr_ready s me t" using me t by (simp add: rr_ready_def l_def)
    have rd: "state (ctx s t) = TS_READY" by (rule sched_invD(5) [OF rr_invD(1) [OF I] R])
    let ?s = "upd_ctx s1 t (\<lambda>x. x\<lparr>state := TS_EXIT, exit_state := TE_EXITED\<rparr>)"
    have loop: "rr_choose_loop (Suc fuel) s me =
        (if exit_state (ctx s t) = TE_EXITING \<or> exit_state (ctx s t) = TE_EXITED then rr_choose_loop fuel ?s me else Some (t, s1))"
      using Some d s1(4,8) t by (auto simp: l_def Let_def BUG_ON_def)
    show ?thesis
    proof (cases "exit_state (ctx s t) = TE_RUNNING")
      case True
      then have "rr_chosen K h s me t s1" using s1 rd by (auto simp: rr_chosen_def)
      then show ?thesis using loop True by simp
    next
      case False
      have cur: "t \<in> h \<or> (\<forall>c. current_threads s c \<noteq> Some t)" using ready_not_current [OF rr_invD(1) [OF I]] rd by blast
      have I': "rr_inv K h ?s" by (rule rr_drop [OF s1(1)]) (use s1 cur in simp_all)
      have f: "ncpu ?s = ncpu s" "current_threads ?s = current_threads s" "rr_ready_queue_meta ?s = rr_ready_queue_meta s1"
        using s1 by (simp_all add: upd_ctx_def)
      have cx: "ctx ?s u = ctx s u" if "u \<noteq> t" for u using that s1(4) by (simp add: upd_ctx_def)
      have ct: "state (ctx ?s t) = TS_EXIT" by (simp add: upd_ctx_def)
      have "length (remove1 t l) = length l - 1" using t by (simp add: length_remove1)
      moreover have "0 < length l" by (rule length_pos_if_in_set [OF t])
      ultimately have "length (remove1 t l) < fuel" using Suc.prems(4) [folded l_def] by linarith
      then have "length (queue_list (rr_ready_queue_meta ?s me)) < fuel" using f(3) s1(5) by simp
      then obtain u s2 where l: "rr_choose_loop fuel ?s me = Some (u, s2)" and C: "rr_chosen K h ?s me u s2"
        using Suc.IH [OF I'] me Suc.prems(3) f by auto
      have nr: "state (ctx ?s t) \<noteq> TS_RUNNING" using ct by simp
      have u: "u = idle_thread me \<or> state (ctx ?s u) = TS_READY" using C by (auto simp: rr_chosen_def)
      have ut: "u \<noteq> t" using u ct s1(6) me by (auto simp: idle_thread_def)
      have "rr_chosen K h s me u s2" unfolding rr_chosen_def
      proof (intro conjI)
        show "\<forall>v. state (ctx s v) \<noteq> TS_READY \<longrightarrow> ctx s2 v = ctx s v" using C cx rd unfolding rr_chosen_def by metis
        show "\<forall>v. state (ctx s2 v) = TS_RUNNING \<longrightarrow> state (ctx s v) = TS_RUNNING"
          using C cx nr unfolding rr_chosen_def by metis
      qed (use C [unfolded rr_chosen_def f(1,2) cx [OF ut]] in blast)+
      moreover have "exit_state (ctx s t) = TE_EXITING \<or> exit_state (ctx s t) = TE_EXITED"
        using False by (cases "exit_state (ctx s t)") simp_all
      ultimately show ?thesis using loop l by simp
    qed
  qed
qed simp

section \<open>Scheduling\<close>

lemma rr_inv_idle:
  assumes I: "rr_inv K h s" and S: "sched_inv K (rr_ready s) False {} s'"
    and e: "ncpu s' = ncpu s" "rr_ready_queue_meta s' = rr_ready_queue_meta s"
  shows "rr_inv K {} s'"
proof (rule rr_inv_cong [OF I S e])
  show "state (ctx s' i) \<noteq> TS_READY" if "i < ncpu s" for i
    using sched_invD(13) [OF S, of i] that e(1) by (auto simp: idle_parked_def)
qed

lemma idle_sc: "idle_ok s i \<Longrightarrow> sc (ctx s i) \<noteq> None"
  by (auto simp: idle_ok_def)

text \<open>After the running thread has been dealt with, another one is chosen and the CPU switches to it.\<close>

lemma rr_switch_next:
  assumes I: "rr_inv K h s" and me: "me < ncpu s" and h: "h \<subseteq> set_option (current_threads s me)"
    and old: "\<And>u. current_threads s me = Some u \<Longrightarrow> state (ctx s u) \<noteq> TS_RUNNING \<and> (u < ncpu s \<longrightarrow> state (ctx s u) = TS_INTER)"
  shows "\<exists>s' t. (do { (new, s2) \<leftarrow> rr_sched_choose_thread s me; switch_to_thread s2 me new }) = Some s' \<and> rr_inv K {} s' \<and>
           ncpu s' = ncpu s \<and> current_threads s' me = Some t \<and> state (ctx s' t) = TS_RUNNING"
proof -
  note S = rr_invD(1) [OF I]
  obtain t s2 where l: "rr_sched_choose_thread s me = Some (t, s2)" and C: "rr_chosen K h s me t s2"
    using rr_choose_loop_ok [OF I me h, of "length (queue_list (rr_ready_queue_meta s me)) + 1"]
    by (auto simp: rr_sched_choose_thread_def)
  have I2: "rr_inv K (insert t h) s2" and f: "ncpu s2 = ncpu s" "current_threads s2 = current_threads s"
    and same: "\<And>u. state (ctx s u) \<noteq> TS_READY \<Longrightarrow> ctx s2 u = ctx s u"
    and run: "\<And>u. state (ctx s2 u) = TS_RUNNING \<Longrightarrow> state (ctx s u) = TS_RUNNING"
    using C unfolding rr_chosen_def by blast+
  note S2 = rr_invD(1) [OF I2]
  have t: "t = me \<or> \<not> t < ncpu s \<and> state (ctx s t) = TS_READY \<and> state (ctx s2 t) = TS_INTER \<and> exit_state (ctx s2 t) = TE_RUNNING \<and> sc (ctx s2 t) \<noteq> None"
    using C unfolding rr_chosen_def idle_thread_def by blast
  have ik: "idle_ok s2 me" using sched_invD(2) [OF S2] me f(1) by simp
  have p1: "state (ctx s2 t) \<noteq> TS_READY" using t rr_invD(3) [OF I2, of me] me f(1) by auto
  have p2: "exit_state (ctx s2 t) \<noteq> TE_EXITED" using t ik by (auto simp: idle_ok_def)
  have p3: "sc (ctx s2 t) \<noteq> None" using t idle_sc [OF ik] by blast
  have p4: "c = me" if "current_threads s2 c = Some t" for c
  proof (cases "t \<in> h")
    case True
    then have "current_threads s me = Some t" using h by auto
    then show ?thesis using sched_invD(11) [OF S, of c t me] that f(2) by simp
  next
    case False
    have c: "current_threads s c = Some t" using that f(2) by simp
    have nr: "state (ctx s t) \<in> {TS_RUNNING, TS_WAITING, TS_EXIT}" by (rule sched_invD(10) [OF S c False])
    then have "t = me" using t by auto
    then have "current_threads s me = Some me" using sched_invD(13) [OF S me] False nr by (auto simp: idle_parked_def)
    then show ?thesis using sched_invD(11) [OF S c, of me] \<open>t = me\<close> by simp
  qed
  have p5: "t < ncpu s2 \<Longrightarrow> t = me" using t f(1) by auto
  have p7: "t < ncpu s2 \<or> 0 < K t"
  proof (cases "t = me")
    case False
    then show ?thesis using runnable_held [OF S2, of t] t by auto
  qed (use me f(1) in simp)
  have p6: "state (ctx s2 u) \<noteq> TS_RUNNING \<and> (u < ncpu s2 \<longrightarrow> idle_parked False s2 u)" if u: "current_threads s2 me = Some u" for u
    using old [of u] u f same [of u] run [of u] by (auto simp: idle_parked_def)
  have hh: "insert t h \<subseteq> insert t (set_option (current_threads s2 me))" using h f(2) by auto
  have "\<exists>s'. switch_to_thread s2 me t = Some s' \<and> sched_inv K (rr_ready s2) False {} s' \<and> current_threads s' me = Some t \<and>
      state (ctx s' t) = TS_RUNNING \<and> ncpu s' = ncpu s2 \<and> (\<forall>u. sc (ctx s' u) = sc (ctx s2 u)) \<and>
      pbrr_ready_queues s' = pbrr_ready_queues s2 \<and> rr_ready_queue_meta s' = rr_ready_queue_meta s2"
    by (rule switch_to_thread_ok [OF S2 _ hh p1 p2 p3 p4 p5 p7 p6]) (use me f(1) in simp_all)
  then obtain s' where s': "switch_to_thread s2 me t = Some s'" "sched_inv K (rr_ready s2) False {} s'" "current_threads s' me = Some t"
      "state (ctx s' t) = TS_RUNNING" "ncpu s' = ncpu s2" "rr_ready_queue_meta s' = rr_ready_queue_meta s2" by blast
  then have "rr_inv K {} s'" using rr_inv_idle [OF I2] by blast
  then show ?thesis using l s' f(1) by auto
qed

text \<open>The running thread whose budget is used up goes to the end of a queue, the idle thread excepted.\<close>

lemma rr_requeue:
  assumes I: "rr_inv K {} s" and me: "me < ncpu s" and t: "current_threads s me = Some t" "state (ctx s t) = TS_RUNNING" "sc (ctx s t) = Some x"
  shows "\<exists>s3. rr_sched_enqueue (upd_ctx (upd_ctx s t (\<lambda>c. c\<lparr>sc := Some (x\<lparr>budget := b\<rparr>)\<rparr>)) t (\<lambda>c. c\<lparr>state := TS_INTER\<rparr>)) me t = Some (0, s3) \<and>
           rr_inv K {t} s3 \<and> ncpu s3 = ncpu s \<and> current_threads s3 = current_threads s \<and>
           state (ctx s3 t) \<noteq> TS_RUNNING \<and> (t < ncpu s \<longrightarrow> state (ctx s3 t) = TS_INTER)"
proof -
  define s1 where "s1 = upd_ctx s t (\<lambda>c. c\<lparr>sc := Some (x\<lparr>budget := b\<rparr>)\<rparr>)"
  define s2 where "s2 = upd_ctx s1 t (\<lambda>c. c\<lparr>state := TS_INTER\<rparr>)"
  have S1: "sched_inv K (rr_ready s) False {t} s1"
    unfolding s1_def by (rule budget_inv [OF sched_inv_mono [OF rr_invD(1) [OF I]] t(3)]) simp
  have c: "ctx s1 t = (ctx s t)\<lparr>sc := Some (x\<lparr>budget := b\<rparr>)\<rparr>" "ncpu s1 = ncpu s" "current_threads s1 = current_threads s"
    by (simp_all add: s1_def upd_ctx_def)
  have tk: "thread_ok s2 t" using sched_invD(1) [OF S1, of t] by (auto simp: s2_def thread_ok_def upd_ctx_def)
  have ik: "t < ncpu s1 \<Longrightarrow> idle_ok s2 t" using sched_invD(2) [OF S1, of t] by (simp add: s2_def idle_ok_def upd_ctx_def)
  have "sched_inv K (rr_ready s) False {t} s2"
    by (rule sched_inv_set [OF S1, where t = t and x = "(ctx s1 t)\<lparr>state := TS_INTER\<rparr>"])
       (use t(2) c tk ik runnable_held [OF rr_invD(1) [OF I], of t] in \<open>simp_all add: s2_def upd_ctx_def\<close>)
  then have I2: "rr_inv K {t} s2"
    by (rule rr_inv_cong [OF I]) (use rr_invD(3) [OF I] in \<open>auto simp: s2_def s1_def upd_ctx_def\<close>)
  have ex: "exit_state (ctx s t) \<noteq> TE_EXITED" using sched_invD(1) [OF rr_invD(1) [OF I], of t] t(2) by (simp add: thread_ok_def)
  have f: "ncpu s2 = ncpu s" "current_threads s2 = current_threads s" "state (ctx s2 t) = TS_INTER"
      "exit_state (ctx s2 t) = exit_state (ctx s t)" "sc (ctx s2 t) \<noteq> None"
    using c by (simp_all add: s2_def upd_ctx_def)
  obtain s3 where s3: "rr_sched_enqueue s2 me t = Some (0, s3)" "rr_inv K {t} s3" "ncpu s3 = ncpu s2" "current_threads s3 = current_threads s2"
      "if t < ncpu s2 then s3 = s2 else state (ctx s3 t) = TS_READY"
    using rr_sched_enqueue_ok [OF I2, of me t] me f ex runnable_held [OF rr_invD(1) [OF I2], of t] by auto
  then show ?thesis using f unfolding s2_def [symmetric] s1_def [symmetric] by (auto split: if_splits)
qed

lemma rr_sched_ok:
  assumes I: "rr_inv K {} s" and me: "me < ncpu s"
  shows "\<exists>s' t. rr_sched s me = Some s' \<and> rr_inv K {} s' \<and> ncpu s' = ncpu s \<and> current_threads s' me = Some t \<and>
           state (ctx s' t) = TS_RUNNING"
proof (cases "current_threads s me")
  case None
  then show ?thesis using rr_switch_next [OF I me] by (simp add: rr_sched_def)
next
  case (Some t)
  define s1 where "s1 = mark_exit s (Some t)"
  have S1: "sched_inv K (rr_ready s) False {} s1"
    using mark_exit_inv [OF rr_invD(1) [OF I], of me] Some by (simp add: s1_def)
  have f: "ncpu s1 = ncpu s" "current_threads s1 = current_threads s" "rr_ready_queue_meta s1 = rr_ready_queue_meta s" by (simp_all add: s1_def)
  have I1: "rr_inv K {} s1" by (rule rr_inv_idle [OF I S1 f(1,3)])
  have cur: "current_threads s1 me = Some t" and me1: "me < ncpu s1" using Some me f by simp_all
  have bug: "BUG_ON (ctx_type (ctx s t) \<noteq> TYPE_SHADOW \<and> ctx_type (ctx s t) \<noteq> TYPE_REGISTER \<and> sc (ctx s t) = None) = Some ()"
    using sched_invD(1) [OF rr_invD(1) [OF I], of t] by (auto simp: thread_ok_def BUG_ON_def)
  have old: "rr_sched_old s me t = (case state (ctx s1 t) of
            TS_EXIT \<Rightarrow> Some (Inr s1)
          | TS_WAITING \<Rightarrow> Some (Inr s1)
          | TS_RUNNING \<Rightarrow> do {
              sctx \<leftarrow> sc (ctx s1 t);
              if budget sctx \<noteq> 0 then do { s2 \<leftarrow> switch_to_thread s1 me t; Some (Inl s2) }
              else do {
                s2 \<leftarrow> rr_sched_refill_budget s1 t DEFAULT_BUDGET;
                (r, s3) \<leftarrow> rr_sched_enqueue (upd_ctx s2 t (\<lambda>x. x\<lparr>state := TS_INTER\<rparr>)) me t;
                BUG_ON (r \<noteq> 0);
                Some (Inr s3) } }
          | _ \<Rightarrow> None)"
    by (simp only: rr_sched_old_def Let_def s1_def [symmetric] bug Option.bind_lunit)
  have nx: "state (ctx s1 t) \<noteq> TS_RUNNING \<Longrightarrow> \<not> t < ncpu s1" using idle_current_cpu(2) [OF S1 cur] by blast
  consider "state (ctx s1 t) = TS_EXIT" | "state (ctx s1 t) = TS_WAITING" | "state (ctx s1 t) = TS_RUNNING"
    using sched_invD(10) [OF S1 cur] by auto
  then show ?thesis
  proof cases
    case 1
    then show ?thesis using rr_switch_next [OF I1 me1] cur nx f(1) Some old by (simp add: rr_sched_def)
  next
    case 2
    then show ?thesis using rr_switch_next [OF I1 me1] cur nx f(1) Some old by (simp add: rr_sched_def)
  next
    case 3
    then obtain x where x: "sc (ctx s1 t) = Some x" "exit_state (ctx s1 t) \<noteq> TE_EXITED"
      using sched_invD(1) [OF S1, of t] by (cases "sc (ctx s1 t)") (auto simp: thread_ok_def)
    show ?thesis
    proof (cases "budget x = 0")
      case True
      obtain s3 where s3: "rr_sched_enqueue (upd_ctx (upd_ctx s1 t (\<lambda>c. c\<lparr>sc := Some (x\<lparr>budget := DEFAULT_BUDGET\<rparr>)\<rparr>)) t (\<lambda>c. c\<lparr>state := TS_INTER\<rparr>)) me t = Some (0, s3)"
          "rr_inv K {t} s3" "ncpu s3 = ncpu s1" "current_threads s3 = current_threads s1"
          "state (ctx s3 t) \<noteq> TS_RUNNING" "t < ncpu s1 \<longrightarrow> state (ctx s3 t) = TS_INTER"
        using rr_requeue [OF I1 me1 cur 3 x(1)] by blast
      have "rr_sched_old s me t = Some (Inr s3)" using old 3 x(1) True s3(1) by (simp add: rr_sched_refill_budget_def BUG_ON_def)
      then show ?thesis using rr_switch_next [OF s3(2), of me] me s3 cur f Some by (simp add: rr_sched_def)
    next
      case False
      have own: "\<And>c. current_threads s1 c = Some t \<Longrightarrow> c = me" using sched_invD(11) [OF S1 _ cur] by blast
      have idl: "t < ncpu s1 \<Longrightarrow> t = me" by (rule idle_current_cpu(1) [OF S1 cur])
      have "\<exists>s'. switch_to_thread s1 me t = Some s' \<and> sched_inv K (rr_ready s) False {} s' \<and> current_threads s' me = Some t \<and>
          state (ctx s' t) = TS_RUNNING \<and> ncpu s' = ncpu s1 \<and> (\<forall>u. sc (ctx s' u) = sc (ctx s1 u)) \<and>
          pbrr_ready_queues s' = pbrr_ready_queues s1 \<and> rr_ready_queue_meta s' = rr_ready_queue_meta s1"
        by (rule switch_to_thread_ok [OF S1 me1 _ _ x(2) _ own idl runnable_held [OF S1]]) (use 3 x cur in simp_all)
      then obtain s' where s': "switch_to_thread s1 me t = Some s'" "sched_inv K (rr_ready s) False {} s'" "current_threads s' me = Some t"
          "state (ctx s' t) = TS_RUNNING" "ncpu s' = ncpu s1" "rr_ready_queue_meta s' = rr_ready_queue_meta s1" by blast
      have "rr_inv K {} s'" using rr_inv_idle [OF I s'(2)] s'(5,6) f by simp
      moreover have "rr_sched s me = Some s'" using old 3 x(1) False s'(1) Some by (simp add: rr_sched_def)
      ultimately show ?thesis using s'(3,4,5) f(1) by auto
    qed
  qed
qed

end
