(* ===== verification/Sched_Api.thy ===== *)
theory Sched_Api
  imports Sched_Rr
begin

text \<open>
  The contract of a scheduling policy (\<open>struct sched_ops\<close>) as a locale, its interpretation on both policies, the
  system calls that rely on it, the state after \<open>sched_init\<close>, and the properties of the scheduler.
\<close>

section \<open>Invariant-preserving updates\<close>

lemma exiting_inv:
  assumes S: "sched_inv K R q h s" and t: "exit_state (ctx s t) = TE_RUNNING" "\<not> t < ncpu s"
  shows "sched_inv K R q h (upd_ctx s t (\<lambda>c. c\<lparr>exit_state := TE_EXITING\<rparr>))" (is "sched_inv K R q h ?s")
proof -
  have "thread_ok ?s t" using sched_invD(1) [OF S, of t] by (auto simp: thread_ok_def upd_ctx_def)
  then show ?thesis
    by (intro sched_inv_same [OF S, where t = t and x = "(ctx s t)\<lparr>exit_state := TE_EXITING\<rparr>"]) (use t in \<open>simp_all add: upd_ctx_def\<close>)
qed

lemma affinity_inv:
  assumes S: "sched_inv K R q h s" and a: "a = NO_AFF \<or> 0 \<le> a \<and> a < int (ncpu s)" and t: "\<not> t < ncpu s"
  shows "sched_inv K R q h (upd_ctx s t (\<lambda>c. c\<lparr>affinity := a\<rparr>))" (is "sched_inv K R q h ?s")
proof -
  have "thread_ok ?s t" using sched_invD(1) [OF S, of t] a by (simp add: thread_ok_def upd_ctx_def)
  then show ?thesis
    by (intro sched_inv_same [OF S, where t = t and x = "(ctx s t)\<lparr>affinity := a\<rparr>"]) (use t in \<open>simp_all add: upd_ctx_def\<close>)
qed

lemma prio_inv:
  assumes S: "sched_inv K R q h s" and p: "p < PRIO_NUM" and t: "\<not> t < ncpu s" "sc (ctx s t) = Some x"
  shows "sched_inv K R q h (upd_ctx s t (\<lambda>c. c\<lparr>sc := Some (x\<lparr>prio := p\<rparr>)\<rparr>))" (is "sched_inv K R q h ?s")
proof -
  have "thread_ok ?s t" using sched_invD(1) [OF S, of t] p t by (simp add: thread_ok_def upd_ctx_def)
  then show ?thesis
    by (intro sched_inv_same [OF S, where t = t and x = "(ctx s t)\<lparr>sc := Some (x\<lparr>prio := p\<rparr>)\<rparr>"]) (use t in \<open>simp_all add: upd_ctx_def\<close>)
qed

section \<open>The policy contract\<close>

text \<open>The scheduler's state in which a call that ends a thread leaves the kernel.\<close>

primrec outcome_state :: "exit_outcome \<Rightarrow> sched_state" where
  "outcome_state (Returned r cnt s) = s"
| "outcome_state (Exit_Group cnt s) = s"
| "outcome_state (Switched cnt s) = s"

text \<open>
  \<open>invar\<close> is the policy's invariant. \<open>sched_law\<close> is what the callers of \<open>sched\<close> rely on; the other laws say which
  updates of a thread context, made outside the policy, keep the invariant.
\<close>

locale sched_policy =
  fixes ops :: sched_ops and invar :: "sched_state \<Rightarrow> bool"
  assumes sched_law: "invar s \<Longrightarrow> me < ncpu s \<Longrightarrow>
      \<exists>s' t. op_sched ops s me = Some s' \<and> invar s' \<and> ncpu s' = ncpu s \<and> current_threads s' me = Some t \<and> state (ctx s' t) = TS_RUNNING"
    and running_law: "invar s \<Longrightarrow> state (ctx s t) = TS_RUNNING \<Longrightarrow> sc (ctx s t) \<noteq> None"
    and budget_law: "invar s \<Longrightarrow> sc (ctx s t) = Some x \<Longrightarrow> invar (upd_ctx s t (\<lambda>c. c\<lparr>sc := Some (x\<lparr>budget := b\<rparr>)\<rparr>))"
    and prio_law: "invar s \<Longrightarrow> sc (ctx s t) = Some x \<Longrightarrow> state (ctx s t) = TS_RUNNING \<Longrightarrow> \<not> t < ncpu s \<Longrightarrow> p < PRIO_NUM \<Longrightarrow>
      invar (upd_ctx s t (\<lambda>c. c\<lparr>sc := Some (x\<lparr>prio := p\<rparr>)\<rparr>))"
    and affinity_law: "invar s \<Longrightarrow> a = NO_AFF \<or> 0 \<le> a \<and> a < int (ncpu s) \<Longrightarrow> \<not> t < ncpu s \<Longrightarrow> invar (upd_ctx s t (\<lambda>c. c\<lparr>affinity := a\<rparr>))"
    and exiting_law: "invar s \<Longrightarrow> exit_state (ctx s t) = TE_RUNNING \<Longrightarrow> \<not> t < ncpu s \<Longrightarrow> invar (upd_ctx s t (\<lambda>c. c\<lparr>exit_state := TE_EXITING\<rparr>))"
begin

lemma yield_ok:
  assumes "invar s" "me < ncpu s" "current_threads s me = Some t" "state (ctx s t) = TS_RUNNING"
  shows "\<exists>s' u. sys_yield ops s me = Some s' \<and> invar s' \<and> current_threads s' me = Some u \<and> state (ctx s' u) = TS_RUNNING"
proof -
  obtain x where x: "sc (ctx s t) = Some x" using running_law assms by blast
  let ?s = "upd_ctx s t (\<lambda>c. c\<lparr>sc := Some (x\<lparr>budget := 0\<rparr>)\<rparr>)"
  have "invar ?s" "me < ncpu ?s" using budget_law [OF assms(1) x] assms(2) by (simp_all add: upd_ctx_def)
  then show ?thesis using sched_law [of ?s me] assms(3) x by (auto simp: sys_yield_def)
qed

lemma cmpxchg_ok: "invar s \<Longrightarrow> \<not> t < ncpu s \<Longrightarrow> cmpxchg_exit_state s t = (won, s') \<Longrightarrow> invar s' \<and> ncpu s' = ncpu s"
  using exiting_law by (auto simp: cmpxchg_exit_state_def upd_ctx_def split: if_splits)

lemma thread_exit_ok:
  assumes "invar s" "me < ncpu s" "current_threads s me = Some t" "\<not> t < ncpu s" "- (2 ^ 31) < cnt"
  shows "\<exists>cnt' s'. (sys_thread_exit ops s me cnt = Some (Exit_Group cnt' s') \<or> sys_thread_exit ops s me cnt = Some (Switched cnt' s')) \<and> invar s'"
proof -
  obtain won s1 where c: "cmpxchg_exit_state s t = (won, s1)" by fastforce
  note k = cmpxchg_ok [OF assms(1,4) c]
  then obtain s2 where "op_sched ops s1 me = Some s2" "invar s2" using sched_law [of s1 me] assms(2) by auto
  then show ?thesis using c k assms(3,5) by (auto simp: sys_thread_exit_def int_dec_def Let_def)
qed

lemma terminate_ok:
  assumes "invar s" "me < ncpu s" "current_threads s me = Some t" "\<not> t < ncpu s" "- (2 ^ 31) < cnt"
    "\<And>u. lookup cap = Some u \<Longrightarrow> \<not> u < ncpu s"
  shows "\<exists>out. sys_terminate_thread ops lookup s me cnt cap = Some out \<and> invar (outcome_state out)"
proof (cases "cap = 0")
  case True
  then show ?thesis using thread_exit_ok [OF assms(1-5)] by (auto simp: sys_terminate_thread_def)
next
  case False
  show ?thesis
  proof (cases "lookup cap")
    case None
    then show ?thesis using False assms(1) by (simp add: sys_terminate_thread_def)
  next
    case (Some u)
    obtain won s1 where c: "cmpxchg_exit_state s u = (won, s1)" by fastforce
    then have "invar s1" using cmpxchg_ok [OF assms(1) assms(6) [OF Some] c] by simp
    then show ?thesis using False Some c assms(5) by (simp add: sys_terminate_thread_def int_dec_def)
  qed
qed

lemma set_affinity_ok:
  assumes "invar s" "\<And>t. thread_of_cap lookup s me cap = Some t \<Longrightarrow> \<not> t < ncpu s" "NO_AFF \<le> aff"
    "sys_set_affinity lookup s me cap aff = (r, s')"
  shows "invar s'"
proof (cases "int (ncpu s) \<le> aff \<or> thread_of_cap lookup s me cap = None")
  case False
  then obtain t where t: "thread_of_cap lookup s me cap = Some t" and a: "aff < int (ncpu s)" by auto
  then have "aff = NO_AFF \<or> 0 \<le> aff \<and> aff < int (ncpu s)" using assms(3) by (auto simp: NO_AFF_def)
  then have "invar (upd_ctx s t (\<lambda>c. c\<lparr>affinity := aff\<rparr>))" using affinity_law [OF assms(1) _ assms(2) [OF t]] by blast
  then show ?thesis using assms(4) t a by (simp add: sys_set_affinity_def)
qed (use assms in \<open>auto simp: sys_set_affinity_def split: if_splits\<close>)

lemma set_prio_ok:
  assumes "invar s" "current_threads s me = Some t" "state (ctx s t) = TS_RUNNING" "\<not> t < ncpu s"
  shows "\<exists>r s'. sys_set_prio s me cap p = Some (r, s') \<and> invar s'"
proof -
  obtain x where x: "sc (ctx s t) = Some x" using running_law assms by blast
  show ?thesis
    using assms prio_law [OF assms(1) x assms(3,4), of "nat p"] x by (auto simp: sys_set_prio_def PRIO_NUM_def MAX_PRIO_def)
qed

end

lemma running_sc: "sched_inv K R q h s \<Longrightarrow> state (ctx s t) = TS_RUNNING \<Longrightarrow> sc (ctx s t) \<noteq> None"
  using sched_invD(1) [of K R q h s t] by (auto simp: thread_ok_def)

lemma pb_update:
  assumes I: "pb_inv K {} s" and S: "sched_inv K (pb_ready s) True {} s \<Longrightarrow> sched_inv K (pb_ready s) True {} (upd_ctx s t f)"
    and p: "state (ctx s t) = TS_READY \<Longrightarrow> map_option prio (sc (f (ctx s t))) = map_option prio (sc (ctx s t))"
  shows "pb_inv K {} (upd_ctx s t f)"
proof (rule pb_inv_cong [OF I])
  show "sched_inv K (pb_ready s) True {} (upd_ctx s t f)" by (rule S) (use I in \<open>simp add: pb_inv_def\<close>)
qed (use p in \<open>auto simp: upd_ctx_def\<close>)

interpretation pbp: sched_policy pbrr "pb_inv K {}" for K
proof unfold_locales
  fix s me t x b p a
  show "\<exists>s' t. op_sched pbrr s me = Some s' \<and> pb_inv K {} s' \<and> ncpu s' = ncpu s \<and> current_threads s' me = Some t \<and> state (ctx s' t) = TS_RUNNING"
    if "pb_inv K {} s" "me < ncpu s" using pbrr_sched_ok [OF that] by (simp add: pbrr_def)
  show "sc (ctx s t) \<noteq> None" if "pb_inv K {} s" "state (ctx s t) = TS_RUNNING" using running_sc that unfolding pb_inv_def by blast
  show "pb_inv K {} (upd_ctx s t (\<lambda>c. c\<lparr>sc := Some (x\<lparr>budget := b\<rparr>)\<rparr>))" if "pb_inv K {} s" "sc (ctx s t) = Some x"
    by (rule pb_update [OF that(1)]) (use that budget_inv in auto)
  show "pb_inv K {} (upd_ctx s t (\<lambda>c. c\<lparr>sc := Some (x\<lparr>prio := p\<rparr>)\<rparr>))"
    if "pb_inv K {} s" "sc (ctx s t) = Some x" "state (ctx s t) = TS_RUNNING" "\<not> t < ncpu s" "p < PRIO_NUM"
    by (rule pb_update [OF that(1) prio_inv]) (use that in auto)
  show "pb_inv K {} (upd_ctx s t (\<lambda>c. c\<lparr>affinity := a\<rparr>))" if "pb_inv K {} s" "a = NO_AFF \<or> 0 \<le> a \<and> a < int (ncpu s)" "\<not> t < ncpu s"
    by (rule pb_update [OF that(1) affinity_inv]) (use that in auto)
  show "pb_inv K {} (upd_ctx s t (\<lambda>c. c\<lparr>exit_state := TE_EXITING\<rparr>))" if "pb_inv K {} s" "exit_state (ctx s t) = TE_RUNNING" "\<not> t < ncpu s"
    by (rule pb_update [OF that(1) exiting_inv]) (use that in auto)
qed

lemma rr_update:
  assumes I: "rr_inv K {} s" and S: "sched_inv K (rr_ready s) False {} s \<Longrightarrow> sched_inv K (rr_ready s) False {} (upd_ctx s t f)"
  shows "rr_inv K {} (upd_ctx s t f)"
  using S [OF rr_invD(1) [OF I]] by (rule rr_inv_idle [OF I]) (simp_all add: upd_ctx_def)

interpretation rrp: sched_policy rr "rr_inv K {}" for K
proof unfold_locales
  fix s me t x b p a
  show "\<exists>s' t. op_sched rr s me = Some s' \<and> rr_inv K {} s' \<and> ncpu s' = ncpu s \<and> current_threads s' me = Some t \<and> state (ctx s' t) = TS_RUNNING"
    if "rr_inv K {} s" "me < ncpu s" using rr_sched_ok [OF that] by (simp add: rr_def)
  show "sc (ctx s t) \<noteq> None" if "rr_inv K {} s" "state (ctx s t) = TS_RUNNING" using running_sc [OF rr_invD(1)] that by blast
  show "rr_inv K {} (upd_ctx s t (\<lambda>c. c\<lparr>sc := Some (x\<lparr>budget := b\<rparr>)\<rparr>))" if "rr_inv K {} s" "sc (ctx s t) = Some x"
    by (rule rr_update [OF that(1)]) (rule budget_inv [OF _ that(2)])
  show "rr_inv K {} (upd_ctx s t (\<lambda>c. c\<lparr>sc := Some (x\<lparr>prio := p\<rparr>)\<rparr>))"
    if "rr_inv K {} s" "sc (ctx s t) = Some x" "state (ctx s t) = TS_RUNNING" "\<not> t < ncpu s" "p < PRIO_NUM"
    by (rule rr_update [OF that(1) prio_inv]) (use that in auto)
  show "rr_inv K {} (upd_ctx s t (\<lambda>c. c\<lparr>affinity := a\<rparr>))" if "rr_inv K {} s" "a = NO_AFF \<or> 0 \<le> a \<and> a < int (ncpu s)" "\<not> t < ncpu s"
    by (rule rr_update [OF that(1) affinity_inv]) (use that in auto)
  show "rr_inv K {} (upd_ctx s t (\<lambda>c. c\<lparr>exit_state := TE_EXITING\<rparr>))" if "rr_inv K {} s" "exit_state (ctx s t) = TE_RUNNING" "\<not> t < ncpu s"
    by (rule rr_update [OF that(1) exiting_inv]) (use that in auto)
qed

section \<open>Initialisation\<close>

text \<open>
  Before \<open>sched_init\<close> no thread is ready or running, and all references to a thread are from outside the queues. A thread that
  is neither new nor finished has one.
\<close>

definition boot_refs :: "sched_state \<Rightarrow> nat \<Rightarrow> nat" where
  "boot_refs s t = (case thread_refs s t of None \<Rightarrow> 0 | Some n \<Rightarrow> unat n)"

definition boot_state :: "sched_state \<Rightarrow> bool" where
  "boot_state s \<longleftrightarrow> 0 < ncpu s \<and>
     (\<forall>t. \<not> t < ncpu s \<longrightarrow> thread_ok s t \<and> ctx_type (ctx s t) \<noteq> TYPE_IDLE \<and> state (ctx s t) \<notin> {TS_READY, TS_RUNNING} \<and>
        boot_refs s t + 1 < 2 ^ 64 \<and> (state (ctx s t) \<in> {TS_INIT, TS_EXIT} \<or> 0 < boot_refs s t))"

lemma boot_refs_pos: "0 < boot_refs s t \<Longrightarrow> thread_refs s t = Some (word_of_nat (boot_refs s t))"
  by (auto simp: boot_refs_def split: option.splits)

definition idle_ctx :: "nat \<Rightarrow> thread_ctx" where
  "idle_ctx i = \<lparr>is_fpu_owner = - 1, sc = Some \<lparr>budget = DEFAULT_BUDGET, prio = IDLE_PRIO\<rparr>, ctx_type = TYPE_IDLE, state = TS_INIT,
     affinity = int i, cpuid = 0, kstack_state = KS_FREE, exit_state = TE_RUNNING\<rparr>"

lemma init_idle_threads_ok:
  assumes "ok a" "ok b" "ok c"
  shows "init_idle_threads ok a b c s is = Some (s\<lparr>ctx := (\<lambda>t. if t \<in> set is then idle_ctx t else ctx s t)\<rparr>)"
proof (induction "is" arbitrary: s)
  case (Cons i "is")
  have "create_thread_ctx ok a b c TYPE_IDLE = Some (Some \<lparr>is_fpu_owner = - 1, sc = Some \<lparr>budget = 0, prio = 0\<rparr>, ctx_type = TYPE_IDLE,
      state = TS_INIT, affinity = 0, cpuid = 0, kstack_state = KS_FREE, exit_state = TE_RUNNING\<rparr>)"
    using assms by (simp add: create_thread_ctx_def)
  then show ?case
    using Cons.IH by (auto simp: upd_ctx_def init_thread_ctx_def idle_ctx_def idle_thread_def fun_eq_iff)
qed simp

lemma idle_ctx_ok:
  assumes "boot_state s" "s1 = s\<lparr>ctx := (\<lambda>t. if t \<in> set [0..<ncpu s] then idle_ctx t else ctx s t), current_threads := (\<lambda>_. None), pbrr_ready_queues := Q, rr_ready_queue_meta := Q'\<rparr>"
  shows "thread_ok s1 t" "i < ncpu s1 \<Longrightarrow> idle_ok s1 i" "ctx_type (ctx s1 t) = TYPE_IDLE \<Longrightarrow> t < ncpu s1"
    "state (ctx s1 t) \<noteq> TS_READY" "state (ctx s1 t) \<noteq> TS_RUNNING" "i < ncpu s1 \<Longrightarrow> state (ctx s1 i) = TS_INIT"
    "refs_ok (boot_refs s) s1 t" "current_threads s1 c = None" "ncpu s1 = ncpu s"
proof -
  show "refs_ok (boot_refs s) s1 t"
    using assms boot_refs_pos [of s t] by (auto simp: boot_state_def refs_ok_def)
qed (use assms in \<open>auto simp: boot_state_def thread_ok_def idle_ok_def idle_ctx_def NO_AFF_def PRIO_NUM_def IDLE_PRIO_def MIN_PRIO_def split: if_splits\<close>)

lemma boot_inv:
  assumes b: "boot_state s" and s1: "s1 = s\<lparr>ctx := (\<lambda>t. if t \<in> set [0..<ncpu s] then idle_ctx t else ctx s t), current_threads := (\<lambda>_. None), pbrr_ready_queues := Q, rr_ready_queue_meta := Q'\<rparr>"
    and R: "\<And>c t. \<not> R c t"
  shows "sched_inv (boot_refs s) R q {i. i < ncpu s} s1"
  using idle_ctx_ok [OF b s1] R by (intro sched_invI) simp_all

lemma pbrr_enqueue_idle_ok:
  "pb_inv K h s \<Longrightarrow> 0 < ncpu s \<Longrightarrow> distinct is \<Longrightarrow> set is \<subseteq> h \<Longrightarrow> \<forall>i \<in> set is. i < ncpu s \<and> state (ctx s i) \<noteq> TS_READY \<Longrightarrow>
   \<exists>s'. pbrr_enqueue_idle s is = Some s' \<and> pb_inv K h s' \<and> ncpu s' = ncpu s \<and> current_threads s' = current_threads s \<and>
     (\<forall>u. u \<notin> set is \<longrightarrow> ctx s' u = ctx s u) \<and> (\<forall>i \<in> set is. idle_parked True s' i)"
proof (induction "is" arbitrary: s)
  case (Cons i "is")
  have S: "sched_inv K (pb_ready s) True h s" using Cons.prems(1) by (simp add: pb_inv_def)
  have i: "i < ncpu s" "state (ctx s i) \<noteq> TS_READY" "i \<in> h" "i \<notin> set is" using Cons.prems by auto
  have ik: "idle_ok s i" by (rule sched_invD(2) [OF S i(1)])
  then obtain x where x: "sc (ctx s i) = Some x" by (auto simp: idle_ok_def)
  have ex: "exit_state (ctx s i) \<noteq> TE_EXITED" using ik by (simp add: idle_ok_def)
  obtain s1 where s1: "pbrr_sched_enqueue s 0 i = Some (0, s1)" "pb_inv K h s1" "ncpu s1 = ncpu s" "current_threads s1 = current_threads s"
      "\<forall>u. u \<noteq> i \<longrightarrow> ctx s1 u = ctx s u" "i < ncpu s \<longrightarrow> idle_parked True s1 i"
    using pbrr_enqueue_ok [OF Cons.prems(1,2) i(3,2) ex x disjI1 [OF i(1)]] by blast
  have "\<forall>j \<in> set is. j < ncpu s1 \<and> state (ctx s1 j) \<noteq> TS_READY" using Cons.prems(5) s1(3,5) i(4) by auto
  then obtain s' where s': "pbrr_enqueue_idle s1 is = Some s'" "pb_inv K h s'" "ncpu s' = ncpu s1" "current_threads s' = current_threads s1"
      "\<forall>u. u \<notin> set is \<longrightarrow> ctx s' u = ctx s1 u" "\<forall>j \<in> set is. idle_parked True s' j"
    using Cons.IH [OF s1(2)] Cons.prems s1(3) by auto
  have "idle_parked True s' i" using s1(6) s'(5) i by (simp add: idle_parked_def)
  then show ?case using s1 s' by (simp add: idle_thread_def)
qed simp

lemma sched_inv_release_all:
  assumes I: "sched_inv K R q h s" and c: "\<And>c. current_threads s c = None" and t: "\<And>t. t \<in> h \<Longrightarrow> state (ctx s t) \<noteq> TS_RUNNING"
    and p: "\<And>i. i < ncpu s \<Longrightarrow> idle_parked q s i"
  shows "sched_inv K R q {} s"
proof (rule sched_inv_hands [OF I]; intro allI impI)
  show "t \<in> {} \<or> (\<exists>c. current_threads s c = Some t)" if "state (ctx s t) = TS_RUNNING" for t
    using sched_invD(12) [OF I that] t that by blast
  show "i \<in> {} \<or> current_threads s i = Some i \<and> state (ctx s i) = TS_RUNNING \<or> idle_parked q s i" if "i < ncpu s" for i
    using p [OF that] by blast
qed (use c in simp_all)

lemma pbrr_sched_init_ok:
  assumes b: "boot_state s" and ok: "ok a" "ok b'" "ok c"
  shows "\<exists>s'. sched_init pbrr ok a b' c s = Some s' \<and> pb_inv (boot_refs s) {} s' \<and> ncpu s' = ncpu s \<and> (\<forall>d. current_threads s' d = None) \<and>
           (\<forall>t. \<not> t < ncpu s \<longrightarrow> ctx s' t = ctx s t)"
proof -
  define Q where "Q = (\<lambda>c :: nat. \<lparr>pb_queues = (\<lambda>_ :: nat. [] :: nat list), pb_bitmap = prio_bitmap_init\<rparr>)"
  define s1 where "s1 = s\<lparr>ctx := (\<lambda>t. if t \<in> set [0..<ncpu s] then idle_ctx t else ctx s t), current_threads := (\<lambda>_. None), pbrr_ready_queues := Q, rr_ready_queue_meta := rr_ready_queue_meta s\<rparr>"
  note ic = idle_ctx_ok [OF b s1_def]
  have n: "0 < ncpu s" using b by (simp add: boot_state_def)
  have "pb_ready s1 = (\<lambda>_ _. False)" by (simp add: fun_eq_iff pb_ready_def s1_def Q_def)
  then have "sched_inv (boot_refs s) (pb_ready s1) True {i. i < ncpu s} s1" using boot_inv [OF b s1_def] by simp
  moreover have "pbq_ok s1 (pbrr_ready_queues s1 d)" for d by (simp add: pbq_ok_def s1_def Q_def prio_bitmap_init_ok)
  ultimately have I1: "pb_inv (boot_refs s) {i. i < ncpu s} s1" by (simp add: pb_inv_def)
  obtain s' where s': "pbrr_enqueue_idle s1 [0..<ncpu s] = Some s'" "pb_inv (boot_refs s) {i. i < ncpu s} s'" "ncpu s' = ncpu s1"
      "current_threads s' = current_threads s1" "\<forall>u. u \<notin> set [0..<ncpu s] \<longrightarrow> ctx s' u = ctx s1 u" "\<forall>i \<in> set [0..<ncpu s]. idle_parked True s' i"
    using pbrr_enqueue_idle_ok [OF I1 _ distinct_upt, of 0 "ncpu s"] n ic(4,9) by (auto simp: subset_iff)
  have "sched_inv (boot_refs s) (pb_ready s') True {} s'"
    by (rule sched_inv_release_all [where h = "{i. i < ncpu s}"]) (use s' ic in \<open>auto simp: pb_inv_def idle_parked_def\<close>)
  then have "pb_inv (boot_refs s) {} s'" using s'(2) by (simp add: pb_inv_def)
  moreover have "sched_init pbrr ok a b' c s = Some s'"
    using s'(1) by (simp add: sched_init_def init_idle_threads_ok ok pbrr_def pbrr_sched_init_def init_current_threads_def s1_def Q_def)
  ultimately show ?thesis using s' ic(8,9) by (auto simp: s1_def)
qed

lemma rr_sched_init_ok:
  assumes b: "boot_state s" "ncpu s < 2 ^ 32" and ok: "ok a" "ok b'" "ok c"
  shows "\<exists>s'. sched_init rr ok a b' c s = Some s' \<and> rr_inv (boot_refs s) {} s' \<and> ncpu s' = ncpu s"
proof -
  define Q where "Q = (\<lambda>_ :: nat. \<lparr>queue_list = [] :: nat list, queue_len = 0 :: u32\<rparr>)"
  define s1 where "s1 = s\<lparr>ctx := (\<lambda>t. if t \<in> set [0..<ncpu s] then idle_ctx t else ctx s t), current_threads := (\<lambda>_. None), pbrr_ready_queues := pbrr_ready_queues s, rr_ready_queue_meta := Q\<rparr>"
  note ic = idle_ctx_ok [OF b(1) s1_def]
  have "rr_ready s1 = (\<lambda>_ _. False)" by (simp add: fun_eq_iff rr_ready_def s1_def Q_def)
  then have I1: "sched_inv (boot_refs s) (rr_ready s1) False {i. i < ncpu s} s1" using boot_inv [OF b(1) s1_def] by simp
  have "sched_inv (boot_refs s) (rr_ready s1) False {} s1" by (rule sched_inv_release_all [OF I1]) (use ic in \<open>simp_all add: idle_parked_def\<close>)
  then have "rr_inv (boot_refs s) {} s1" using ic b(2) by (simp add: rr_inv_def rrq_ok_def s1_def Q_def)
  moreover have "sched_init rr ok a b' c s = Some s1"
    by (simp add: sched_init_def init_idle_threads_ok ok rr_def rr_sched_init_def init_current_threads_def s1_def Q_def)
  ultimately show ?thesis using ic(9) by blast
qed

section \<open>Fuel and the affinity of the running thread\<close>

lemma pbrr_choose_loop_mono:
  "pbrr_choose_loop n s me ok = Some r \<Longrightarrow> n \<le> m \<Longrightarrow> pbrr_choose_loop m s me ok = Some r"
proof (induction n arbitrary: s m)
  case (Suc n)
  obtain k where m: "m = Suc k" "n \<le> k" using Suc.prems(2) by (cases m) auto
  show ?case
    using Suc.prems(1) Suc.IH [OF _ m(2)] unfolding m(1) pbrr_choose_loop.simps Let_def
    by (auto split: if_splits elim!: bind_SomeE)
qed simp

lemma obj_put_thread_frame:
  assumes "obj_put_thread s u = Some s1"
  shows "v \<noteq> u \<Longrightarrow> ctx s1 v = ctx s v" "ncpu s1 = ncpu s" "pbrr_ready_queues s1 = pbrr_ready_queues s"
  using assms
  by (auto simp: obj_put_thread_def free_thread_def destroy_thread_ctx_def clear_thread_fpu_def Let_def upd_ctx_def BUG_ON_def
      split: if_splits elim!: bind_SomeE)

lemma pbrr_dequeue_frame:
  assumes "pbrr_dequeue s u = Some s1"
  shows "v \<noteq> u \<Longrightarrow> ctx s1 v = ctx s v" "ncpu s1 = ncpu s"
    "set (pb_queues (pbrr_ready_queues s1 c) r) \<subseteq> set (pb_queues (pbrr_ready_queues s c) r)"
  using assms obj_put_thread_frame
  by (auto simp: pbrr_dequeue_def Let_def upd_ctx_def upd_pbrr_def split: if_splits elim!: bind_SomeE
      dest!: subsetD [OF set_remove1_subset])

text \<open>A current thread that may not stay on its CPU is not chosen: it is in no queue.\<close>

lemma choose_not_current:
  "pbrr_choose_loop fuel s me False = Some (u, s2) \<Longrightarrow> \<forall>r. t \<notin> set (pb_queues (pbrr_ready_queues s me) r) \<Longrightarrow> t \<noteq> idle_thread me \<Longrightarrow>
   u \<noteq> t \<and> ctx s2 t = ctx s t \<and> ncpu s2 = ncpu s"
proof (induction fuel arbitrary: s)
  case (Suc fuel)
  define q where "q = pbrr_ready_queues s me"
  have ne: "\<not> prio_bitmap_is_empty (pb_bitmap q)"
    using Suc.prems(1) by (auto simp: q_def Let_def BUG_ON_def elim!: bind_SomeE)
  obtain p where p: "get_highest_prio (pb_bitmap q) = Some p"
    using Suc.prems(1) ne by (auto simp: q_def Let_def elim!: bind_SomeE)
  define found where "found = find_runnable_thread s me (pb_queues q p)"
  define v where "v = (case found of None \<Rightarrow> idle_thread me | Some t \<Rightarrow> t)"
  have "\<not> (found = None \<and> current_threads s me = Some (idle_thread me))"
    using Suc.prems(1) ne p by (auto simp: q_def [symmetric] found_def Let_def BUG_ON_def)
  then have r: "(do { s1 \<leftarrow> pbrr_dequeue s v; _ \<leftarrow> use_thread s1 v;
      if exit_state (ctx s1 v) = TE_EXITING \<or> exit_state (ctx s1 v) = TE_EXITED
      then pbrr_choose_loop fuel (upd_ctx s1 v (\<lambda>x. x\<lparr>exit_state := TE_EXITED, state := TS_EXIT\<rparr>)) me False
      else Some (v, s1) }) = Some (u, s2)"
    using Suc.prems(1) ne p unfolding pbrr_choose_loop.simps Let_def q_def [symmetric]
    by (simp only: if_False Option.bind_lunit found_def [symmetric] v_def [symmetric])
  have "x \<in> set (pb_queues q p)" if "found = Some x" for x
    using that find_Some_in unfolding found_def find_runnable_thread_def by fast
  then have vt: "v \<noteq> t" using Suc.prems(2,3) by (auto simp: v_def q_def split: option.split)
  obtain s1 where d: "pbrr_dequeue s v = Some s1" and use: "use_thread s1 v = Some ()"
    using r by (auto elim!: bind_SomeE)
  note fr = pbrr_dequeue_frame [OF d]
  let ?s = "upd_ctx s1 v (\<lambda>x. x\<lparr>exit_state := TE_EXITED, state := TS_EXIT\<rparr>)"
  have nq: "\<forall>r. t \<notin> set (pb_queues (pbrr_ready_queues ?s me) r)" using Suc.prems(2) fr(3) [of me] by (auto simp: upd_ctx_def)
  show ?case
  proof (cases "exit_state (ctx s1 v) = TE_EXITING \<or> exit_state (ctx s1 v) = TE_EXITED")
    case True
    then have "pbrr_choose_loop fuel ?s me False = Some (u, s2)" using r d use by simp
    from Suc.IH [OF this nq Suc.prems(3)] show ?thesis using vt fr(1,2) by (simp add: upd_ctx_def)
  qed (use r d use vt fr(1,2) in auto)
qed simp

section \<open>The last reference\<close>

text \<open>
  A thread whose only reference is the one of its queue does not survive leaving it: \<open>thread_deinit\<close> stops the kernel, or
  the thread is freed and used afterwards.
\<close>

lemma dequeue_last:
  assumes "ctx_type (ctx s t) \<noteq> TYPE_IDLE" "thread_refs s t = Some 1" "pbrr_dequeue s t = Some s1"
  shows "use_thread s1 t = None"
  using assms
  by (auto simp: pbrr_dequeue_def obj_put_thread_def free_thread_def destroy_thread_ctx_def clear_thread_fpu_def use_thread_def
      Let_def upd_ctx_def upd_pbrr_def BUG_ON_def split: if_splits elim!: bind_SomeE)

lemma choose_last:
  assumes r: "\<not> current_runnable s me" and p: "get_highest_prio (pb_bitmap (pbrr_ready_queues s me)) = Some p"
    and f: "find_runnable_thread s me (pb_queues (pbrr_ready_queues s me) p) = Some t"
    and t: "ctx_type (ctx s t) \<noteq> TYPE_IDLE" "thread_refs s t = Some 1"
  shows "pbrr_sched_choose_thread s me = None"
proof -
  have "bitmap_lvl0 (pb_bitmap (pbrr_ready_queues s me)) \<noteq> 0" using p bsr_None [of 0] by (auto simp: get_highest_prio_def)
  then have "pbrr_sched_choose_thread s me = pbrr_dequeue s t \<bind> (\<lambda>s1. use_thread s1 t \<bind> (\<lambda>_.
      if exit_state (ctx s1 t) = TE_EXITING \<or> exit_state (ctx s1 t) = TE_EXITED
      then pbrr_choose_loop (pbrr_queue_size s me) (upd_ctx s1 t (\<lambda>x. x\<lparr>exit_state := TE_EXITED, state := TS_EXIT\<rparr>)) me False
      else Some (t, s1)))"
    using r p f by (simp add: pbrr_sched_choose_thread_def prio_bitmap_is_empty_def Let_def)
  then show ?thesis using dequeue_last [OF t] by (cases "pbrr_dequeue s t") simp_all
qed

section \<open>An example system\<close>

definition demo_boot :: sched_state where
  "demo_boot = \<lparr>ncpu = 1,
     ctx = (\<lambda>t. \<lparr>is_fpu_owner = - 1, sc = (if t = 2 then Some \<lparr>budget = 0, prio = 10\<rparr> else None),
       ctx_type = (if t = 2 then TYPE_USER else TYPE_SHADOW), state = (if t = 2 then TS_WAITING else TS_INIT), affinity = NO_AFF, cpuid = 0,
       kstack_state = KS_FREE, exit_state = TE_RUNNING\<rparr>),
     prev_thread = (\<lambda>_. PREV_NULL), current_threads = (\<lambda>_. None), cpu_fpu_owner = (\<lambda>_. None),
     thread_refs = (\<lambda>t. if t = 2 then Some 1 else None),
     pbrr_ready_queues = (\<lambda>_. \<lparr>pb_queues = (\<lambda>_. []), pb_bitmap = prio_bitmap_init\<rparr>),
     rr_ready_queue_meta = (\<lambda>_. \<lparr>queue_list = [], queue_len = 0\<rparr>)\<rparr>"

definition demo_pb :: sched_state where
  "demo_pb = the (sched_init pbrr (\<lambda>_. True) 1 1 1 demo_boot)"

definition demo_rr :: sched_state where
  "demo_rr = the (sched_init rr (\<lambda>_. True) 1 1 1 demo_boot)"

definition demo_run :: sched_state where
  "demo_run = the (switch_to_thread demo_pb 0 2)"

abbreviation demo_K :: "nat \<Rightarrow> nat" where "demo_K \<equiv> boot_refs demo_boot"

lemma demo_boot_ok: "boot_state demo_boot" "ncpu demo_boot = 1" "demo_K 2 = 1"
  by (auto simp: boot_state_def boot_refs_def demo_boot_def thread_ok_def NO_AFF_def PRIO_NUM_def MAX_PRIO_def)

lemma demo_pb_ok: "pb_inv demo_K {} demo_pb" "ncpu demo_pb = 1" "current_threads demo_pb d = None" "ctx demo_pb 2 = ctx demo_boot 2"
  using pbrr_sched_init_ok [OF demo_boot_ok(1), of "\<lambda>_. True" 1 1 1] demo_boot_ok(2) by (auto simp: demo_pb_def)

lemma demo_rr_ok: "rr_inv demo_K {} demo_rr" "ncpu demo_rr = 1"
  using rr_sched_init_ok [OF demo_boot_ok(1), of "\<lambda>_. True" 1 1 1] demo_boot_ok(2) by (auto simp: demo_rr_def)

lemma demo_ctx: "state (ctx demo_pb 2) = TS_WAITING" "exit_state (ctx demo_pb 2) = TE_RUNNING" "is_fpu_owner (ctx demo_pb 2) = - 1"
  "sc (ctx demo_pb 2) = Some \<lparr>budget = 0, prio = 10\<rparr>"
  by (simp_all add: demo_pb_ok(4) demo_boot_def)

lemma demo_run_ok: "pb_inv demo_K {} demo_run" "ncpu demo_run = 1" "current_threads demo_run 0 = Some 2" "state (ctx demo_run 2) = TS_RUNNING"
  "exit_state (ctx demo_run 2) = TE_RUNNING" "is_fpu_owner (ctx demo_run 2) = - 1"
proof -
  have S: "sched_inv demo_K (pb_ready demo_pb) True {} demo_pb" using demo_pb_ok(1) by (simp add: pb_inv_def)
  have "\<exists>s'. switch_to_thread demo_pb 0 2 = Some s' \<and> sched_inv demo_K (pb_ready demo_pb) True {} s' \<and> current_threads s' 0 = Some 2 \<and>
      state (ctx s' 2) = TS_RUNNING \<and> ncpu s' = ncpu demo_pb \<and> (\<forall>u. sc (ctx s' u) = sc (ctx demo_pb u)) \<and>
      pbrr_ready_queues s' = pbrr_ready_queues demo_pb \<and> rr_ready_queue_meta s' = rr_ready_queue_meta demo_pb"
    by (rule switch_to_thread_ok [OF S]) (simp_all add: demo_pb_ok(2,3) demo_ctx demo_boot_ok(3))
  then obtain s' where s': "switch_to_thread demo_pb 0 2 = Some s'" "sched_inv demo_K (pb_ready demo_pb) True {} s'" "current_threads s' 0 = Some 2"
      "state (ctx s' 2) = TS_RUNNING" "ncpu s' = ncpu demo_pb" "\<forall>u. sc (ctx s' u) = sc (ctx demo_pb u)"
      "pbrr_ready_queues s' = pbrr_ready_queues demo_pb" by blast
  have d: "demo_run = s'" by (simp add: demo_run_def s'(1))
  have I: "pb_inv demo_K {} s'" by (rule pb_inv_cong [OF demo_pb_ok(1) s'(2)]) (use s' in simp_all)
  have c: "exit_state (ctx s' 2) = exit_state (ctx demo_pb 2)" "is_fpu_owner (ctx s' 2) = is_fpu_owner (ctx demo_pb 2)"
    using s'(1) by (auto simp: switch_to_thread_def BUG_ON_def upd_ctx_def split: if_splits)
  show "pb_inv demo_K {} demo_run" "ncpu demo_run = 1" "current_threads demo_run 0 = Some 2" "state (ctx demo_run 2) = TS_RUNNING"
    "exit_state (ctx demo_run 2) = TE_RUNNING" "is_fpu_owner (ctx demo_run 2) = - 1"
    using I s' c by (simp_all add: d demo_pb_ok(2) demo_ctx)
qed

text \<open>Thread 2 is queued, and the capability that referred to it is gone.\<close>

definition demo_lone :: sched_state where
  "demo_lone = demo_boot\<lparr>ctx := (\<lambda>t. (ctx demo_boot t)\<lparr>state := TS_READY\<rparr>),
     pbrr_ready_queues := (\<lambda>_. \<lparr>pb_queues = (\<lambda>_. [])(10 := [2]),
       pb_bitmap = \<lparr>bitmap_lvl0 = 1, bitmap_lvl1 = (replicate PRIOS_PER_LEVEL 0)[0 := 1024]\<rparr>\<rparr>)\<rparr>"

lemma demo_lone_ok:
  "\<not> current_runnable demo_lone 0" "get_highest_prio (pb_bitmap (pbrr_ready_queues demo_lone 0)) = Some 10"
  "find_runnable_thread demo_lone 0 (pb_queues (pbrr_ready_queues demo_lone 0) 10) = Some 2"
  "ctx_type (ctx demo_lone 2) \<noteq> TYPE_IDLE" "thread_refs demo_lone 2 = Some 1"
proof -
  have "bsr 1 = Some 0" by (simp add: bsr_Some bit_1_iff)
  moreover have "(1024 :: u32) = 2 ^ 10" by simp
  then have "bsr 1024 = Some 10" unfolding bsr_Some by (simp only: bit_exp_iff) auto
  ultimately show "get_highest_prio (pb_bitmap (pbrr_ready_queues demo_lone 0)) = Some 10"
    by (simp add: demo_lone_def get_highest_prio_def PRIOS_PER_LEVEL_def PRIO_LEVEL_SHIFT_def)
qed (simp_all add: demo_lone_def demo_boot_def current_runnable_def find_runnable_thread_def)

section \<open>Properties\<close>

text \<open>
  C30. From every state that satisfies the invariant, \<open>pbrr_sched\<close> runs into no \<open>BUG_ON\<close>, null dereference, out-of-bounds
  queue or freed thread, leaves a running thread on the CPU, and keeps the invariant: a thread is ready exactly when it is in the
  queue of its CPU and priority, the bitmap has exactly the bits of the non-empty queues, a thread runs on at most one CPU, each
  idle thread is queued on or runs on its CPU, and the reference count of a thread is the number \<open>K\<close> of references from
  outside the queues plus one while it is queued. \<open>K\<close> is the same before and after, so no reference is lost or leaked. The
  invariant asks that every thread that can run has a reference besides the queue's.
\<close>

theorem pbrr_sched_correct:
  assumes "pb_inv K {} s" "me < ncpu s"
  shows "\<exists>s' t. pbrr_sched s me = Some s' \<and> pb_inv K {} s' \<and> current_threads s' me = Some t \<and> state (ctx s' t) = TS_RUNNING"
  using pbrr_sched_ok [OF assms] by blast

theorem pbrr_sched_correct_witness:
  "pb_inv demo_K {} demo_run \<and> demo_K 2 = 1 \<and>
   (\<exists>s' t. pbrr_sched demo_run 0 = Some s' \<and> pb_inv demo_K {} s' \<and> current_threads s' 0 = Some t \<and> state (ctx s' t) = TS_RUNNING)"
  using pbrr_sched_correct [of demo_K demo_run 0] demo_run_ok demo_boot_ok(3) by simp

text \<open>
  C31. The same for the round-robin policy: \<open>rr_sched\<close> always returns with a running thread and keeps its invariant, in
  which \<open>queue_len\<close> is the length of the queue, no idle thread is queued, and the reference counts are as in the
  priority-based policy.
\<close>

theorem rr_sched_correct:
  assumes "rr_inv K {} s" "me < ncpu s"
  shows "\<exists>s' t. rr_sched s me = Some s' \<and> rr_inv K {} s' \<and> current_threads s' me = Some t \<and> state (ctx s' t) = TS_RUNNING"
  using rr_sched_ok [OF assms] by blast

theorem rr_sched_correct_witness:
  "rr_inv demo_K {} demo_rr \<and>
   (\<exists>s' t. rr_sched demo_rr 0 = Some s' \<and> rr_inv demo_K {} s' \<and> current_threads s' 0 = Some t \<and> state (ctx s' t) = TS_RUNNING)"
  using rr_sched_correct [of demo_K demo_rr 0] demo_rr_ok by simp

text \<open>
  C32. \<open>pbrr_sched_choose_thread\<close> returns a thread such that no thread left in the CPU's queues has a higher priority; the
  one exception is the idle thread, chosen when the kernel stacks of all threads of the highest priority are still in use.
\<close>

theorem pbrr_chooses_highest:
  assumes "pb_inv K {} s" "me < ncpu s"
  shows "\<exists>t s'. pbrr_sched_choose_thread s me = Some (t, s') \<and> best_choice s' me t"
  using pbrr_choose_loop_ok [OF assms, of "pbrr_queue_size s me + 1"] by (auto simp: pbrr_sched_choose_thread_def pb_chosen_def)

theorem pbrr_chooses_highest_witness:
  "pb_inv demo_K {} demo_run \<and> (\<exists>t s'. pbrr_sched_choose_thread demo_run 0 = Some (t, s') \<and> best_choice s' 0 t)"
  using pbrr_chooses_highest [of demo_K demo_run 0] demo_run_ok by simp

text \<open>
  C33. The two-level bitmap is equivalent to a set of priorities: setting and clearing a bit are insertion and deletion, the
  emptiness test is exact, and \<open>get_highest_prio\<close> is the maximum of the set.
\<close>

theorem prio_bitmap_is_set:
  assumes "bitmap_ok b" "p < PRIO_NUM"
  shows "\<exists>b1 b2. prio_bitmap_set b p = Some b1 \<and> bitmap_ok b1 \<and> prios b1 = insert p (prios b) \<and>
      prio_bitmap_clear b p = Some b2 \<and> bitmap_ok b2 \<and> prios b2 = prios b - {p} \<and>
      get_highest_prio b1 = Some (Max (insert p (prios b))) \<and> (prio_bitmap_is_empty b2 = (prios b - {p} = {}))"
proof -
  have p: "p < 1024" using assms(2) by (simp add: PRIO_NUM_def MAX_PRIO_def)
  obtain b1 where b1: "prio_bitmap_set b p = Some b1" "bitmap_ok b1" "prios b1 = insert p (prios b)"
    using prio_bitmap_set_ok [OF assms(1) p] by blast
  obtain b2 where b2: "prio_bitmap_clear b p = Some b2" "bitmap_ok b2" "prios b2 = prios b - {p}"
    using prio_bitmap_clear_ok [OF assms(1) p] by blast
  show ?thesis
    using b1 b2 get_highest_prio_Max [OF b1(2)] prio_bitmap_is_empty_iff [OF b2(2)] by simp
qed

theorem prio_bitmap_is_set_witness:
  "\<exists>b. prio_bitmap_set prio_bitmap_init 200 = Some b \<and> get_highest_prio b = Some 200"
  using prio_bitmap_is_set [of prio_bitmap_init 200] prio_bitmap_init_ok by (auto simp: PRIO_NUM_def MAX_PRIO_def)

text \<open>
  C34. The \<open>retry\<close> loop of \<open>pbrr_sched_choose_thread\<close> ends: any number of rounds above the number of queued threads gives
  the same result, and there is one, since every thread it takes from a queue has another reference. Without that there is none:
  when the first thread it takes is held by its queue alone, dropping that reference stops the kernel or frees the
  thread that the loop then reads.
\<close>

theorem pbrr_choose_terminates:
  assumes "pb_inv K {} s" "me < ncpu s" "pbrr_queue_size s me < fuel"
  shows "pbrr_choose_loop fuel s me (current_runnable s me) = pbrr_sched_choose_thread s me \<and> pbrr_sched_choose_thread s me \<noteq> None \<and>
    (\<forall>s0 p t. \<not> current_runnable s0 me \<and> get_highest_prio (pb_bitmap (pbrr_ready_queues s0 me)) = Some p \<and>
       find_runnable_thread s0 me (pb_queues (pbrr_ready_queues s0 me) p) = Some t \<and>
       ctx_type (ctx s0 t) \<noteq> TYPE_IDLE \<and> thread_refs s0 t = Some 1 \<longrightarrow> pbrr_sched_choose_thread s0 me = None)"
proof -
  obtain r where r: "pbrr_sched_choose_thread s me = Some r"
    using pbrr_choose_loop_ok [OF assms(1,2), of "pbrr_queue_size s me + 1"] by (auto simp: pbrr_sched_choose_thread_def)
  then show ?thesis
    using pbrr_choose_loop_mono [of "pbrr_queue_size s me + 1" s me "current_runnable s me" r fuel] assms(3) choose_last
    by (auto simp: pbrr_sched_choose_thread_def)
qed

theorem pbrr_choose_terminates_witness:
  "pbrr_choose_loop (pbrr_queue_size demo_run 0 + 7) demo_run 0 (current_runnable demo_run 0) = pbrr_sched_choose_thread demo_run 0 \<and>
   pbrr_sched_choose_thread demo_run 0 \<noteq> None \<and> pbrr_sched_choose_thread demo_lone 0 = None"
  using pbrr_choose_terminates [of demo_K demo_run 0 "pbrr_queue_size demo_run 0 + 7"] demo_run_ok demo_lone_ok by auto

text \<open>
  C35. The system calls on the scheduler keep its invariant, for a caller that is not an idle thread and capabilities that
  name no idle thread: \<open>sys_yield\<close> leaves a running thread on the CPU; \<open>sys_thread_exit\<close> switches away or hands over to
  \<open>sys_exit_group\<close>; \<open>sys_terminate_thread\<close> on the caller or another thread, setting the own priority to any value, and
  setting the affinity of any thread to \<open>NO_AFF\<close> or above return. The thread counter of the group must not be at the smallest
  \<open>int\<close>.
\<close>

theorem sched_syscalls_safe:
  assumes "pb_inv K {} s" "me < ncpu s" "current_threads s me = Some t" "state (ctx s t) = TS_RUNNING" "\<not> t < ncpu s" "NO_AFF \<le> aff"
    "- (2 ^ 31) < cnt" "\<And>u. lookup cap = Some u \<Longrightarrow> \<not> u < ncpu s"
  shows "(\<exists>s' u. sys_yield pbrr s me = Some s' \<and> pb_inv K {} s' \<and> current_threads s' me = Some u \<and> state (ctx s' u) = TS_RUNNING) \<and>
    (\<exists>cnt' s'. (sys_thread_exit pbrr s me cnt = Some (Exit_Group cnt' s') \<or> sys_thread_exit pbrr s me cnt = Some (Switched cnt' s')) \<and> pb_inv K {} s') \<and>
    (\<exists>out. sys_terminate_thread pbrr lookup s me cnt cap = Some out \<and> pb_inv K {} (outcome_state out)) \<and>
    (\<exists>r s'. sys_set_prio s me cap p = Some (r, s') \<and> pb_inv K {} s') \<and>
    (\<exists>r s'. sys_set_affinity lookup s me cap aff = (r, s') \<and> pb_inv K {} s')"
proof -
  obtain r s' where a: "sys_set_affinity lookup s me cap aff = (r, s')" by fastforce
  have "\<not> u < ncpu s" if "thread_of_cap lookup s me cap = Some u" for u
    using that assms(3,5,8) by (auto simp: thread_of_cap_def split: if_splits)
  then have "pb_inv K {} s'" by (rule pbp.set_affinity_ok [OF assms(1) _ assms(6) a])
  then show ?thesis
    using pbp.yield_ok [OF assms(1-4)] pbp.thread_exit_ok [OF assms(1-3,5,7)] pbp.terminate_ok [OF assms(1-3,5,7,8)]
      pbp.set_prio_ok [OF assms(1,3,4,5)] a by blast
qed

theorem sched_syscalls_safe_witness:
  "(\<exists>s' u. sys_yield pbrr demo_run 0 = Some s' \<and> pb_inv demo_K {} s' \<and> current_threads s' 0 = Some u \<and> state (ctx s' u) = TS_RUNNING) \<and>
   (\<exists>out. sys_terminate_thread pbrr (\<lambda>_. Some 2) demo_run 0 3 5 = Some out \<and> pb_inv demo_K {} (outcome_state out)) \<and>
   (\<exists>r s'. sys_set_prio demo_run 0 5 300 = Some (r, s') \<and> pb_inv demo_K {} s') \<and>
   (\<exists>r s'. sys_set_affinity (\<lambda>_. Some 2) demo_run 0 5 0 = (r, s') \<and> pb_inv demo_K {} s')"
  using sched_syscalls_safe [of demo_K demo_run 0 2 0 3 "\<lambda>_. Some 2" 5 300] demo_run_ok by (simp add: NO_AFF_def)

text \<open>
  C36. \<open>sched_init\<close> with either policy turns a state in which no thread is ready or running into one that satisfies the
  policy's invariant, with every idle thread in place and every reference to a thread held outside the queues.
\<close>

theorem sched_init_well_formed:
  assumes "boot_state s" "ncpu s < 2 ^ 32" "ok a" "ok b" "ok c"
  shows "(\<exists>s'. sched_init pbrr ok a b c s = Some s' \<and> pb_inv (boot_refs s) {} s') \<and>
    (\<exists>s'. sched_init rr ok a b c s = Some s' \<and> rr_inv (boot_refs s) {} s')"
  using pbrr_sched_init_ok [where ok = ok, OF assms(1,3,4,5)] rr_sched_init_ok [where ok = ok, OF assms] by blast

theorem sched_init_well_formed_witness:
  "(\<exists>s'. sched_init pbrr (\<lambda>_. True) 1 1 1 demo_boot = Some s' \<and> pb_inv demo_K {} s') \<and>
   (\<exists>s'. sched_init rr (\<lambda>_. True) 1 1 1 demo_boot = Some s' \<and> rr_inv demo_K {} s')"
  using sched_init_well_formed [of demo_boot "\<lambda>_. True" 1 1 1] demo_boot_ok by simp

text \<open>
  C37. \<open>sys_set_affinity\<close> checks only the upper bound. A running user thread (in no ready queue of its CPU) that sets its own
  affinity to a number below \<open>NO_AFF\<close> is told that the call succeeded, and the next \<open>pbrr_sched\<close> on that CPU indexes the
  ready queues out of bounds (or stops in a \<open>BUG_ON\<close>): it has no defined result.
\<close>

theorem sys_set_affinity_negative:
  assumes "\<And>r. t \<notin> set (pb_queues (pbrr_ready_queues s me) r)" "me < ncpu s" "current_threads s me = Some t" "state (ctx s t) = TS_RUNNING" "\<not> t < ncpu s"
    "exit_state (ctx s t) = TE_RUNNING" "is_fpu_owner (ctx s t) < 0" "a < NO_AFF"
  shows "\<exists>s'. sys_set_affinity lookup s me 0 a = (0, s') \<and> pbrr_sched s' me = None"
proof -
  define s' where "s' = upd_ctx s t (\<lambda>c. c\<lparr>affinity := a\<rparr>)"
  have set: "sys_set_affinity lookup s me 0 a = (0, s')"
    using assms by (simp add: sys_set_affinity_def thread_of_cap_def s'_def NO_AFF_def)
  have c: "current_threads s' = current_threads s" "ncpu s' = ncpu s" "pbrr_ready_queues s' = pbrr_ready_queues s"
      "ctx s' t = (ctx s t)\<lparr>affinity := a\<rparr>" by (simp_all add: s'_def upd_ctx_def)
  have m: "mark_exit s' (current_threads s' me) = s'" using assms(3,6) c by (simp add: mark_exit_def)
  have nr: "current_runnable s' me = False" using assms(3,8) c by (auto simp: current_runnable_def NO_AFF_def)
  have nq: "\<forall>r. t \<notin> set (pb_queues (pbrr_ready_queues s' me) r)" using assms(1) c(3) by simp
  have ni: "t \<noteq> idle_thread me" using assms(2,5) by (auto simp: idle_thread_def)
  have en: "pbrr_sched_enqueue s2 me t = None" if "ctx s2 t = ctx s' t" for s2
    using that c(4) assms(4,7,8) by (auto simp: pbrr_sched_enqueue_def get_cpubind_def NO_AFF_def Let_def BUG_ON_def split: option.split)
  have "pbrr_sched s' me = None"
  proof (cases "pbrr_sched_choose_thread s' me")
    case (Some r)
    obtain u s2 where r: "r = (u, s2)" by fastforce
    have "pbrr_choose_loop (pbrr_queue_size s' me + 1) s' me False = Some (u, s2)"
      using Some r nr unfolding pbrr_sched_choose_thread_def by (simp only:)
    from choose_not_current [OF this nq ni] have "u \<noteq> t" "ctx s2 t = ctx s' t" by simp_all
    then show ?thesis using Some r en [of s2] assms(3,4) c m by (simp add: pbrr_sched_def)
  qed (simp add: pbrr_sched_def m)
  then show ?thesis using set by blast
qed

theorem sys_set_affinity_negative_witness:
  "\<exists>s'. sys_set_affinity (\<lambda>_. None) demo_run 0 0 (- 2) = (0, s') \<and> pbrr_sched s' 0 = None"
  using sys_set_affinity_negative [of 2 demo_run 0 "- 2" "\<lambda>_. None"] demo_run_ok
    pb_queued(2) [OF demo_run_ok(1), of 0 2 _ 0] by (fastforce simp: NO_AFF_def)

end
