(* ===== verification/Spec2Isabelle.thy ===== *)
theory Spec2Isabelle
  imports Bitops Mm Intrusive_List Ring_Buffer Locks Radix Pmo Sched_Api
begin

text \<open>
  A verification development for the TEE OS kernel (\<open>src/kernel\<close>).

  \<^bold>\<open>The program.\<close> The kernel manages physical memory (buddy and slab allocators under \<open>kmalloc\<close>), names
  its objects by capabilities kept in per-process groups, charges memory objects to the group that owns them, and schedules threads by
  one of two policies. The lower layers are bitmaps, intrusive lists, a radix tree, a message ring and
  two kinds of locks. \<open>kmalloc\<close> serves the objects; deleting the last capability of an object releases it
  through its type's \<open>deinit\<close> function; the system calls on threads act on the scheduler.

  \<^bold>\<open>Conventions.\<close> A C function becomes a HOL function on the record of the state it reads and
  writes. Results live in the option monad: \<open>None\<close> stands for a failed \<open>BUG_ON\<close> (the kernel stops)
  or for behaviour that C leaves undefined (a NULL pointer followed, an array index out of range, a
  shift by more than the width, overflow of an \<open>int\<close> that counts, use of a freed thread); a value returned as \<open>int\<close> is
  cut to 32 bits (\<open>c_int\<close>); error codes such as \<open>-ENOMEM\<close> are ordinary values. Machine integers
  that can wrap are words. An intrusive \<open>struct list_head\<close> is the list of the objects linked on it.
  Each operation that runs under a lock is one atomic step. The outcome of an allocation that another component makes, and what
  \<open>copy_from_user\<close> delivers, are arguments; the paths that return \<open>-ENOMEM\<close> are relative to such an allocator, which may
  answer NULL where the modelled \<open>kmalloc\<close> stops. The configuration is that of \<open>config.mk\<close>: aarch64, \<open>CHCORE_OH_TEE\<close> and
  \<open>CHCORE_ENABLE_FMAP\<close> on, the real-time, test and CMA options off, lazy FPU saving.

  \<^bold>\<open>Theories, and the code they model.\<close>
  \<^item> \<open>Kernel_Prelude\<close>: types, error numbers, \<open>BUG_ON\<close>, rounding macros and the lemma collections.
  \<^item> \<open>Bitops\<close>: \<open>common/bitops.h\<close>. Searching a map of fewer than \<open>2 ^ 31\<close> bits finds the first bit that matches; setting
    and clearing round-trip.
  \<^item> \<open>Chunk_Tiling\<close>: aligned power-of-two blocks and tilings, the mathematics of the buddy system.
  \<^item> \<open>Buddy\<close>, \<open>Buddy_Correct\<close>: \<open>mm/buddy.c\<close>. The free lists and the allocated blocks tile the pool; allocation and release
    are correct, a double free stops the kernel, and the size accounting is exact.
  \<^item> \<open>Page_Alloc\<close>: the contract of a page allocator as the locale \<open>page_allocator\<close>, interpreted on the buddy system.
  \<^item> \<open>Slab\<close>, \<open>Slab_Correct\<close>: \<open>mm/slab.c\<close> on top of that contract.
  \<^item> \<open>Kmalloc\<close>: \<open>mm/kmalloc.c\<close>. Allocations are disjoint and large enough (locale \<open>kernel_heap\<close>); the size computation wraps
    for requests near the end of the address space.
  \<^item> \<open>Mm\<close>: \<open>mm/mm.c\<close>, start-up from the memory map and the accounting over all slabs and pools.
  \<^item> \<open>Intrusive_List\<close>: \<open>common/list.h\<close> and \<open>common/hashtable.h\<close> as pointer structures that refine lists (locale \<open>linked_list\<close>).
  \<^item> \<open>Ring_Buffer\<close>: \<open>lib/ring_buffer.c\<close> refines a bounded queue (locale \<open>bounded_queue\<close>).
  \<^item> \<open>Step_System\<close>, \<open>Locks\<close>: \<open>arch/aarch64/sync/ticket.c\<close> and \<open>rwlock.c\<close> as interleaved atomic steps; mutual exclusion, fairness,
    and the wrap-around of \<open>is_locked\<close>.
  \<^item> \<open>Radix\<close>: \<open>lib/radix.c\<close> refines a map (locale \<open>null_map\<close>).
  \<^item> \<open>Slot_Table\<close>: the slot tables of \<open>object/cap_group.c\<close> refine a finite map that hands out the least unused number.
  \<^item> \<open>Capability\<close>, \<open>Capability_Correct\<close>, \<open>Cap_Group\<close>: \<open>object/capability.c\<close>, \<open>object/cap_group.c\<close>, \<open>include/mm/uaccess.h\<close>,
    \<open>syscall/syscall_hooks.c\<close>. The invariant \<open>cap_inv\<close> equates every reference count with the references that exist and every
    heap charge with the memory objects owned; the operations and system calls keep it.
  \<^item> \<open>Pmo\<close>: \<open>object/memory.c\<close>, creation, charging, release and transfer of memory objects under that invariant, the transfer on
    every branch.
  \<^item> \<open>Sched\<close>: \<open>sched/sched.c\<close>, \<open>sched/context.c\<close>, \<open>sched/policy_pbrr.c\<close>, \<open>sched/policy_rr.c\<close>,
    \<open>arch/aarch64/sched/fpu.c\<close>, the scheduling system calls of \<open>object/thread.c\<close>, and \<open>obj_ref\<close>, \<open>obj_put\<close> and
    \<open>__free_object\<close> on the threads that enter and leave a ready queue.
  \<^item> \<open>Prio_Bitmap\<close>: the two-level bitmap is a set of priorities.
  \<^item> \<open>Sched_Correct\<close>, \<open>Sched_Pbrr\<close>, \<open>Sched_Rr\<close>, \<open>Sched_Api\<close>: the invariant of the scheduler, its preservation by both
    policies, the contract of a policy (locale \<open>sched_policy\<close>) interpreted on both, and the system calls that rely on it. The
    invariant counts the references to a thread: \<open>K t\<close> from outside the queues and one from its queue. As long as every
    thread that can run has a reference from outside, the policies free no thread they go on to use; a queued thread whose
    only reference is the queue's stops the kernel or is used after it is freed. \<open>main.c\<close> selects the priority policy
    in this configuration.

  \<^bold>\<open>Fuel.\<close> \<open>split_chunk\<close> and \<open>merge_chunk\<close> get one round per order; \<open>alloc_slot_loop\<close> two, since after an expansion a
  slot is free; \<open>obj_put\<close>, \<open>__free_object\<close> and \<open>pmo_deinit\<close> five, four and three, since a memory object refers to a group and
  a group to nothing; the \<open>retry\<close> loops of the policies one more than there are queued threads, since each round removes one.
  In each case a theorem shows that the operation returns.

  \<^bold>\<open>Not modelled.\<close> The contents of memory and registers, so neither \<open>switch_context\<close> nor the saving of FPU registers; page tables,
  address spaces and page faults, which share memory with the MMU; channels, connections and notifications, which
  move threads by rewriting their saved registers; timers, interrupts, platform code, the world switch and boot; recycling of a
  process; printing. The two models of a thread, as a capability object (with the slots and groups that refer to it) and as a
  scheduled context (with the reference count alone), are not joined: \<open>K\<close> stands for the references that the former
  accounts for. Weak memory ordering is outside the lock models.
  The user-level servers, the C library port and the build tools are separate programs.

  \<^bold>\<open>Defined without a theorem.\<close> Of the scheduler, \<open>sched_to_thread\<close>, \<open>finish_switch\<close>, \<open>change_fpu_owner\<close>,
  \<open>save_and_release_fpu_owner\<close>, \<open>rr_sched_dequeue\<close> and the two queries \<open>sys_get_affinity\<close> and \<open>sys_get_prio\<close>. Of the memory objects, \<open>commit_page_to_pmo\<close>,
  \<open>get_page_from_pmo\<close> and \<open>sys_tee_create_ns_pmo\<close>, which call operations that have theorems.
\<close>

end
